(* ===== verification/Xv6_Prelude.thy ===== *)
theory Xv6_Prelude
  imports Main "HOL-Library.Word"
begin

text \<open>
  Shared vocabulary of the development: the C types of \<open>include/xv6/types.h\<close> as words, the
  parameters of \<open>include/xv6/param.h\<close>, outcomes of kernel code (it returns, panics, goes to sleep
  or loops for ever), a total-correctness predicate on outcomes, byte arrays with slices and
  in-place updates, and the little-endian encoding of 16- and 32-bit integers.
\<close>

unbundle bit_operations_syntax

section \<open>C types\<close>

type_synonym u8 = "8 word"
type_synonym u16 = "16 word"
type_synonym u32 = "32 word"
type_synonym bytes = "u8 list"

named_theorems layout_defs \<open>parameters and layout constants of the kernel\<close>

section \<open>Parameters\<close>

text \<open>The constants of \<open>include/xv6/param.h\<close> and the block size of \<open>include/xv6/fs.h\<close>.\<close>

definition NPROC :: nat where [layout_defs]: "NPROC = 64"
definition KSTACKSIZE :: nat where [layout_defs]: "KSTACKSIZE = 4096"
definition USTACKPAGES :: nat where [layout_defs]: "USTACKPAGES = 4"
definition NCPU :: nat where [layout_defs]: "NCPU = 8"
definition NOFILE :: nat where [layout_defs]: "NOFILE = 16"
definition NFILE :: nat where [layout_defs]: "NFILE = 100"
definition NINODE :: nat where [layout_defs]: "NINODE = 50"
definition NDEV :: nat where [layout_defs]: "NDEV = 10"
definition ROOTDEV :: u32 where [layout_defs]: "ROOTDEV = 1"
definition PIPESIZE :: nat where [layout_defs]: "PIPESIZE = 512"
definition MAXARG :: nat where [layout_defs]: "MAXARG = 32"
definition MAXOPBLOCKS :: nat where [layout_defs]: "MAXOPBLOCKS = 10"
definition LOGSIZE :: nat where [layout_defs]: "LOGSIZE = MAXOPBLOCKS * 3"
definition NBUF :: nat where [layout_defs]: "NBUF = MAXOPBLOCKS * 3"
definition FSSIZE :: nat where [layout_defs]: "FSSIZE = 10000"
definition BSIZE :: nat where [layout_defs]: "BSIZE = 1024"

section \<open>Outcomes of kernel code\<close>

text \<open>
  A sleep channel of the source is an address; the model names the object it is the address of.
\<close>

datatype chan =
    Chan_Buf nat | Chan_Inode nat | Chan_Log | Chan_Proc nat | Chan_Ticks
  | Chan_Nread nat | Chan_Nwrite nat | Chan_Input nat

text \<open>
  Kernel code returns a value, calls \<open>panic\<close> (which never returns), goes to sleep on a channel, or
  runs for ever. State is passed explicitly, inside the value of \<open>Done\<close>.
\<close>

datatype 'a outcome = Done 'a | Panic string | Sleep chan | Diverge

definition obind :: "'a outcome \<Rightarrow> ('a \<Rightarrow> 'b outcome) \<Rightarrow> 'b outcome" where
  "obind m f = (case m of Done x \<Rightarrow> f x | Panic e \<Rightarrow> Panic e | Sleep c \<Rightarrow> Sleep c | Diverge \<Rightarrow> Diverge)"

lemma obind_simps [simp]:
  "obind (Done x) f = f x"
  "obind (Panic e) f = Panic e"
  "obind (Sleep c) f = Sleep c"
  "obind Diverge f = Diverge"
  by (simp_all add: obind_def)

lemma obind_Done_iff: "obind m f = Done y \<longleftrightarrow> (\<exists>x. m = Done x \<and> f x = Done y)"
  by (cases m) auto

lemma obind_assoc: "obind (obind m f) g = obind m (\<lambda>x. obind (f x) g)"
  by (cases m) auto

lemma obind_cong [fundef_cong]:
  "m = m' \<Longrightarrow> (\<And>x. m' = Done x \<Longrightarrow> f x = f' x) \<Longrightarrow> obind m f = obind m' f'"
  by (cases m') auto

text \<open>
  \<open>returns m P\<close>: the code returns, and its result satisfies \<open>P\<close>. As a simplification rule the
  equation for \<open>obind\<close> computes weakest preconditions of sequential code.
\<close>

definition returns :: "'a outcome \<Rightarrow> ('a \<Rightarrow> bool) \<Rightarrow> bool" where
  "returns m P \<longleftrightarrow> (case m of Done x \<Rightarrow> P x | _ \<Rightarrow> False)"

lemma returns_simps [simp]:
  "returns (Done x) P \<longleftrightarrow> P x"
  "\<not> returns (Panic e) P"
  "\<not> returns (Sleep c) P"
  "\<not> returns Diverge P"
  by (simp_all add: returns_def)

lemma returns_obind [simp]: "returns (obind m f) P \<longleftrightarrow> returns m (\<lambda>x. returns (f x) P)"
  by (cases m) simp_all

lemma returns_iff: "returns m P \<longleftrightarrow> (\<exists>x. m = Done x \<and> P x)"
  by (cases m) simp_all

lemma returns_mono: "returns m P \<Longrightarrow> (\<And>x. m = Done x \<Longrightarrow> P x \<Longrightarrow> Q x) \<Longrightarrow> returns m Q"
  by (cases m) simp_all

lemma returns_conj: "returns m P \<Longrightarrow> returns m Q \<Longrightarrow> returns m (\<lambda>x. P x \<and> Q x)"
  by (cases m) simp_all

section \<open>Searches\<close>

lemma find_SomeD: "find P xs = Some x \<Longrightarrow> P x \<and> x \<in> set xs"
  by (induction xs) (auto split: if_splits)

lemma find_unique: "P i \<Longrightarrow> i \<in> set xs \<Longrightarrow> \<forall>j\<in>set xs. P j \<longrightarrow> j = i \<Longrightarrow> find P xs = Some i"
proof (induction xs)
  case (Cons x xs)
  show ?case
  proof (cases "P x")
    case True
    then have "x = i" using Cons.prems(3) list.set_intros(1) by metis
    with True show ?thesis by simp
  next
    case False
    then have "i \<in> set xs" using Cons.prems(1,2) by (metis set_ConsD)
    with False Cons show ?thesis by (metis find.simps(2) list.set_intros(2))
  qed
qed simp

section \<open>Machine words\<close>

lemma unat_add_of_nat: "unat a + n < 2 ^ 32 \<Longrightarrow> unat (a + of_nat n :: u32) = unat a + n"
  by (simp add: unat_word_ariths unat_of_nat mod_add_right_eq)

lemma sint_word_of_int_eq: "- (2 ^ 31) \<le> k \<Longrightarrow> k < 2 ^ 31 \<Longrightarrow> sint (of_int k :: u32) = k"
  by (simp add: signed_of_int signed_take_bit_int_eq_self)

section \<open>Sequences of updates\<close>

definition upds :: "('k \<times> 'v) list \<Rightarrow> ('k \<Rightarrow> 'v) \<Rightarrow> 'k \<Rightarrow> 'v" where
  "upds ws f = fold (\<lambda>(k, v) f. f(k := v)) ws f"

lemma upds_Nil [simp]: "upds [] f = f"
  and upds_Cons [simp]: "upds ((k, v) # ws) f = upds ws (f(k := v))"
  and upds_append: "upds (vs @ ws) f = upds ws (upds vs f)"
  by (simp_all add: upds_def)

lemma upds_other: "k \<notin> fst ` set ws \<Longrightarrow> upds ws f k = f k"
  by (induction ws arbitrary: f) (auto simp: upds_def)

lemma upds_map:
  assumes "i \<in> set xs" "inj_on g (set xs)"
  shows "upds (map (\<lambda>i. (g i, h i)) xs) f (g i) = h i"
  using assms
proof (induction xs arbitrary: f)
  case (Cons x xs)
  show ?case
  proof (cases "i \<in> set xs")
    case True
    then show ?thesis using Cons by simp
  next
    case False
    then have "i = x" using Cons.prems by simp
    moreover have "g x \<notin> g ` set xs" using Cons.prems False \<open>i = x\<close> by (auto dest: inj_onD)
    ultimately show ?thesis by (simp add: upds_other image_image)
  qed
qed simp

section \<open>Byte arrays\<close>

definition slice :: "nat \<Rightarrow> nat \<Rightarrow> 'a list \<Rightarrow> 'a list" where
  "slice off n xs = take n (drop off xs)"

definition patch :: "nat \<Rightarrow> 'a list \<Rightarrow> 'a list \<Rightarrow> 'a list" where
  "patch off ys xs = take off xs @ ys @ drop (off + length ys) xs"

lemma length_slice [simp]: "off + n \<le> length xs \<Longrightarrow> length (slice off n xs) = n"
  by (simp add: slice_def)

lemma length_patch [simp]: "off + length ys \<le> length xs \<Longrightarrow> length (patch off ys xs) = length xs"
  by (simp add: patch_def)

lemma nth_slice: "i < n \<Longrightarrow> off + n \<le> length xs \<Longrightarrow> slice off n xs ! i = xs ! (off + i)"
  by (simp add: slice_def)

lemma nth_patch:
  assumes "off + length ys \<le> length xs" "i < length xs"
  shows "patch off ys xs ! i =
    (if off \<le> i \<and> i < off + length ys then ys ! (i - off) else xs ! i)"
  using assms by (auto simp: patch_def nth_append min_def)

lemma slice_patch_same:
  "off + length ys \<le> length xs \<Longrightarrow> n = length ys \<Longrightarrow> slice off n (patch off ys xs) = ys"
  by (simp add: slice_def patch_def)

lemma slice_patch_other:
  assumes "off + length ys \<le> length xs" "a + n \<le> length xs"
    and "a + n \<le> off \<or> off + length ys \<le> a"
  shows "slice a n (patch off ys xs) = slice a n xs"
  using assms by (intro nth_equalityI) (auto simp: nth_slice nth_patch)

lemma patch_slice_id:
  assumes "off + n \<le> length xs"
  shows "patch off (slice off n xs) xs = xs"
  using assms by (intro nth_equalityI) (auto simp: nth_slice nth_patch)

lemma patch_patch_same:
  assumes "off + length ys \<le> length xs" "length zs = length ys"
  shows "patch off zs (patch off ys xs) = patch off zs xs"
  using assms by (intro nth_equalityI) (auto simp: nth_patch)

lemma patch_all: "length ys = length xs \<Longrightarrow> patch 0 ys xs = ys"
  by (simp add: patch_def)

lemma slice_all: "n = length xs \<Longrightarrow> slice 0 n xs = xs"
  by (simp add: slice_def)

lemma patch_append:
  assumes "off + length ys + length zs \<le> length xs"
  shows "patch (off + length ys) zs (patch off ys xs) = patch off (ys @ zs) xs"
  using assms by (intro nth_equalityI) (auto simp: nth_patch nth_append)

lemma slice_append:
  "slice off (m + n) xs = slice off m xs @ slice (off + m) n xs"
  by (simp add: slice_def take_add add.commute)

section \<open>Little-endian integers\<close>

definition bytes_of_u16 :: "u16 \<Rightarrow> bytes" where
  "bytes_of_u16 w = [ucast w, ucast (drop_bit 8 w)]"

definition bytes_of_u32 :: "u32 \<Rightarrow> bytes" where
  "bytes_of_u32 w = [ucast w, ucast (drop_bit 8 w), ucast (drop_bit 16 w), ucast (drop_bit 24 w)]"

definition u16_of_bytes :: "bytes \<Rightarrow> u16" where
  "u16_of_bytes bs = ucast (bs ! 0) OR push_bit 8 (ucast (bs ! 1))"

definition u32_of_bytes :: "bytes \<Rightarrow> u32" where
  "u32_of_bytes bs = ucast (bs ! 0) OR push_bit 8 (ucast (bs ! 1))
     OR push_bit 16 (ucast (bs ! 2)) OR push_bit 24 (ucast (bs ! 3))"

lemma length_bytes_of [simp]: "length (bytes_of_u16 v) = 2" "length (bytes_of_u32 w) = 4"
  by (simp_all add: bytes_of_u16_def bytes_of_u32_def)

lemma u16_of_bytes_of_u16 [simp]: "u16_of_bytes (bytes_of_u16 w) = w"
  by (rule bit_word_eqI)
    (auto simp: u16_of_bytes_def bytes_of_u16_def bit_simps)

lemma u32_of_bytes_of_u32 [simp]: "u32_of_bytes (bytes_of_u32 w) = w"
proof (rule bit_word_eqI)
  fix n assume "n < LENGTH(32)"
  then consider "n < 8" | "8 \<le> n \<and> n < 16" | "16 \<le> n \<and> n < 24" | "24 \<le> n \<and> n < 32"
    by (simp; linarith)
  then show "bit (u32_of_bytes (bytes_of_u32 w)) n = bit w n"
    by cases (auto simp: u32_of_bytes_def bytes_of_u32_def bit_simps)
qed

lemma bytes_of_u32_of_bytes:
  assumes "length bs = 4"
  shows "bytes_of_u32 (u32_of_bytes bs) = bs"
proof -
  obtain a b c d where bs: "bs = [a, b, c, d]"
    using assms by (auto simp: length_Suc_conv numeral_eq_Suc)
  show ?thesis
    unfolding bs by (auto simp: bytes_of_u32_def u32_of_bytes_def bit_eq_iff bit_simps dest: bit_imp_le_length)
qed

lemma bytes_of_u16_of_bytes:
  assumes "length bs = 2"
  shows "bytes_of_u16 (u16_of_bytes bs) = bs"
proof -
  obtain a b where bs: "bs = [a, b]"
    using assms by (auto simp: length_Suc_conv numeral_eq_Suc)
  show ?thesis
    unfolding bs by (auto simp: bytes_of_u16_def u16_of_bytes_def bit_eq_iff bit_simps dest: bit_imp_le_length)
qed

definition get16 :: "nat \<Rightarrow> bytes \<Rightarrow> u16" where
  "get16 off d = u16_of_bytes (slice off 2 d)"

definition put16 :: "nat \<Rightarrow> u16 \<Rightarrow> bytes \<Rightarrow> bytes" where
  "put16 off v d = patch off (bytes_of_u16 v) d"

definition get32 :: "nat \<Rightarrow> bytes \<Rightarrow> u32" where
  "get32 off d = u32_of_bytes (slice off 4 d)"

definition put32 :: "nat \<Rightarrow> u32 \<Rightarrow> bytes \<Rightarrow> bytes" where
  "put32 off v d = patch off (bytes_of_u32 v) d"

lemma length_put16 [simp]: "off + 2 \<le> length d \<Longrightarrow> length (put16 off v d) = length d"
  and length_put32 [simp]: "off + 4 \<le> length d \<Longrightarrow> length (put32 off w d) = length d"
  by (simp_all add: put16_def put32_def)

lemma get16_put16_same [simp]: "off + 2 \<le> length d \<Longrightarrow> get16 off (put16 off v d) = v"
  by (simp add: get16_def put16_def slice_patch_same)

lemma get32_put32_same [simp]: "off + 4 \<le> length d \<Longrightarrow> get32 off (put32 off v d) = v"
  by (simp add: get32_def put32_def slice_patch_same)

lemma get32_put32_other:
  "off + 4 \<le> length d \<Longrightarrow> a + 4 \<le> length d \<Longrightarrow> a + 4 \<le> off \<or> off + 4 \<le> a \<Longrightarrow>
   get32 a (put32 off v d) = get32 a d"
  by (simp add: get32_def put32_def slice_patch_other)

lemma get32_patch_other:
  "off + length ys \<le> length d \<Longrightarrow> a + 4 \<le> length d \<Longrightarrow> a + 4 \<le> off \<or> off + length ys \<le> a \<Longrightarrow>
   get32 a (patch off ys d) = get32 a d"
  by (simp add: get32_def slice_patch_other)

lemma get32_replicate_0: "off + 4 \<le> n \<Longrightarrow> get32 off (replicate n 0) = 0"
  by (simp add: get32_def slice_def u32_of_bytes_def)

end
