(* ===== verification/Linked_Ring.thy ===== *)
theory Linked_Ring
  imports Xv6_Prelude
begin

text \<open>
  Circular doubly linked lists through a head node, as the buffer cache keeps them: the
  abstraction of a pair of link functions to the list of the nodes they connect, the two pointer
  updates the kernel makes (unlink a node, insert a node behind the head), and loops that walk
  the ring in either direction.
\<close>

section \<open>Rings\<close>

fun linked :: "('a \<Rightarrow> 'a) \<Rightarrow> ('a \<Rightarrow> 'a) \<Rightarrow> 'a list \<Rightarrow> bool" where
  "linked nx pv (a # b # l) \<longleftrightarrow> nx a = b \<and> pv b = a \<and> linked nx pv (b # l)"
| "linked nx pv _ \<longleftrightarrow> True"

definition ring :: "('a \<Rightarrow> 'a) \<Rightarrow> ('a \<Rightarrow> 'a) \<Rightarrow> 'a \<Rightarrow> 'a list \<Rightarrow> bool" where
  "ring nx pv h xs \<longleftrightarrow> distinct (h # xs) \<and> linked nx pv (h # xs @ [h])"

lemma linked_append:
  "linked nx pv (xs @ y # ys) \<longleftrightarrow> linked nx pv (xs @ [y]) \<and> linked nx pv (y # ys)"
proof (induction xs)
  case (Cons x xs)
  then show ?case by (cases xs) auto
qed simp

lemma linked_upd_nx: "a \<notin> set (butlast l) \<Longrightarrow> linked (nx(a := v)) pv l = linked nx pv l"
  by (induction nx pv l rule: linked.induct) auto

lemma linked_upd_pv: "a \<notin> set (tl l) \<Longrightarrow> linked nx (pv(a := v)) l = linked nx pv l"
  by (induction nx pv l rule: linked.induct) auto

lemma ring_distinct: "ring nx pv h xs \<Longrightarrow> distinct (h # xs)"
  by (simp add: ring_def)

lemma ring_next_head: "ring nx pv h xs \<Longrightarrow> nx h = hd (xs @ [h])"
  by (cases xs) (auto simp: ring_def)

lemma ring_neighbours:
  assumes "ring nx pv h (us @ b # vs)"
  shows "pv b = last (h # us)" and "nx b = hd (vs @ [h])"
proof -
  have l: "linked nx pv ((h # us) @ b # (vs @ [h]))"
    using assms by (simp add: ring_def)
  have "linked nx pv (b # (vs @ [h]))" and l1: "linked nx pv ((h # us) @ [b])"
    using l linked_append [of nx pv "h # us" b "vs @ [h]"] by auto
  then show "nx b = hd (vs @ [h])"
    by (cases vs) auto
  have "linked nx pv (butlast (h # us) @ last (h # us) # [b])"
    using l1 by (metis append.assoc append_Cons append_Nil append_butlast_last_id list.distinct(1))
  then have "linked nx pv (last (h # us) # [b])"
    using linked_append by metis
  then show "pv b = last (h # us)" by simp
qed

lemma ring_unlink:
  assumes r: "ring nx pv h (us @ b # vs)"
  shows "ring (nx(pv b := nx b)) (pv(nx b := pv b)) h (us @ vs)"
proof -
  define p where "p = last (h # us)"
  define n where "n = hd (vs @ [h])"
  obtain us' where us: "h # us = us' @ [p]"
    using append_butlast_last_id [of "h # us"] unfolding p_def by (metis list.distinct(1))
  obtain vs' where vs: "vs @ [h] = n # vs'"
    unfolding n_def by (cases vs) auto
  have pn: "pv b = p" "nx b = n"
    using ring_neighbours [OF r] by (simp_all add: p_def n_def)
  have d: "distinct (h # us @ b # vs)"
    using r by (simp add: ring_def)
  have "h # (us @ b # vs) @ [h] = (h # us) @ b # (vs @ [h])" by simp
  also have "\<dots> = us' @ p # b # n # vs'" by (simp only: us vs append.assoc append_Cons append_Nil)
  finally have l: "linked nx pv (us' @ p # b # n # vs')"
    using r by (simp add: ring_def)
  have l1: "linked nx pv (us' @ [p])" and l2: "linked nx pv (n # vs')"
    using l linked_append [of nx pv us' p "b # n # vs'"] by auto
  have dp: "p \<notin> set us'" and dp2: "p \<notin> set (butlast (n # vs'))"
  proof -
    have "distinct (h # us)" using d by auto
    then have "distinct (us' @ [p])" by (simp only: us)
    then show "p \<notin> set us'" by simp
    have "butlast (n # vs') = vs" using butlast_snoc [of vs h] unfolding vs .
    moreover have "p \<notin> set vs"
    proof -
      have "p \<in> set (h # us)" unfolding us by simp
      then show ?thesis using d by auto
    qed
    ultimately show "p \<notin> set (butlast (n # vs'))" by simp
  qed
  have dn: "n \<notin> set (tl (us' @ [p]))" and dn2: "n \<notin> set vs'"
  proof -
    have n_in: "n = h \<or> n \<in> set vs" using vs by (cases vs) auto
    have tl: "tl (us' @ [p]) = us" unfolding us [symmetric] by simp
    show "n \<notin> set (tl (us' @ [p]))" unfolding tl using n_in d by auto
    show "n \<notin> set vs'"
    proof (cases vs)
      case Nil then show ?thesis using vs by simp
    next
      case (Cons v w)
      then have "vs' = w @ [h]" "n = v" using vs by auto
      then show ?thesis using Cons d by auto
    qed
  qed
  have "linked (nx(p := n)) (pv(n := p)) (us' @ p # n # vs')"
    unfolding linked_append [of _ _ us' p "n # vs'"] using l1 l2 dp dp2 dn dn2
    by (simp add: linked_upd_nx linked_upd_pv butlast_append)
  moreover have "h # (us @ vs) @ [h] = us' @ p # n # vs'"
  proof -
    have "h # (us @ vs) @ [h] = (h # us) @ (vs @ [h])" by simp
    also have "\<dots> = us' @ p # n # vs'" by (simp only: us vs append.assoc append_Cons append_Nil)
    finally show ?thesis .
  qed
  ultimately show ?thesis
    using d by (simp add: ring_def pn)
qed

lemma ring_insert_front:
  assumes r: "ring nx pv h xs" and b: "b \<noteq> h" "b \<notin> set xs"
  shows "ring (nx(b := nx h, h := b)) (pv(b := h, nx h := b)) h (b # xs)"
proof -
  define n where "n = nx h"
  obtain ys where ys: "xs @ [h] = n # ys"
    using ring_next_head [OF r] unfolding n_def by (cases xs) auto
  have d: "distinct (h # xs)" and l: "linked nx pv (h # n # ys)"
    using r ys by (auto simp: ring_def)
  have bn: "b \<noteq> n" "b \<notin> set ys" "h \<notin> set (butlast (n # ys))" "n \<notin> set ys"
  proof -
    have s: "set (n # ys) = insert h (set xs)" using ys by (metis list.set(2) set_append empty_set Un_insert_right list.simps(15) sup_bot_right)
    show "b \<noteq> n" "b \<notin> set ys" using s b by auto
    have "butlast (n # ys) = xs" using ys by (metis butlast_snoc)
    then show "h \<notin> set (butlast (n # ys))" using d by simp
    have "distinct (n # ys)" using ys d by (metis distinct.simps(2) distinct1_rotate rotate1.simps(2))
    then show "n \<notin> set ys" by simp
  qed
  have "linked (nx(b := n, h := b)) (pv(b := h, n := b)) (n # ys)"
    using l bn by (subst linked_upd_nx, simp, subst linked_upd_nx)
      (auto simp: linked_upd_pv dest: in_set_butlastD)
  then show ?thesis
    using d b bn ys by (auto simp: ring_def n_def [symmetric])
qed

section \<open>Walking a ring\<close>

text \<open>
  The loop \<open>for(b = first; b != stop; b = step(b)) if(P(b)) \<dots>\<close>: the first node that satisfies the
  test. The loop itself has no bound, so it takes fuel; a ring of \<open>n\<close> nodes needs \<open>n + 1\<close>.
\<close>

fun walk :: "nat \<Rightarrow> ('a \<Rightarrow> 'a) \<Rightarrow> 'a \<Rightarrow> ('a \<Rightarrow> bool) \<Rightarrow> 'a \<Rightarrow> 'a option outcome" where
  "walk 0 step stop P b = Diverge"
| "walk (Suc fuel) step stop P b =
     (if b = stop then Done None
      else if P b then Done (Some b)
      else walk fuel step stop P (step b))"

lemma walk_forward:
  assumes "linked nx pv (xs @ [h])" "h \<notin> set xs" "length xs < fuel"
  shows "walk fuel nx h P (hd (xs @ [h])) = Done (find P xs)"
  using assms
proof (induction xs arbitrary: fuel)
  case Nil
  then show ?case by (cases fuel) auto
next
  case (Cons x xs)
  then obtain f where f: "fuel = Suc f" by (cases fuel) auto
  have l: "linked nx pv (xs @ [h])" and nx: "nx x = hd (xs @ [h])"
    using Cons.prems(1) by (cases xs; auto)+
  show ?case
    using Cons.IH [OF l, of f] Cons.prems f nx by auto
qed

lemma walk_backward:
  assumes "linked nx pv (h # xs)" "h \<notin> set xs" "length xs < fuel"
  shows "walk fuel pv h P (last (h # xs)) = Done (find P (rev xs))"
  using assms
proof (induction xs arbitrary: fuel rule: rev_induct)
  case Nil
  then show ?case by (cases fuel) auto
next
  case (snoc x xs)
  then obtain f where f: "fuel = Suc f" by (cases fuel) auto
  have l: "linked nx pv (h # xs)" and pv: "pv x = last (h # xs)"
  proof -
    have "linked nx pv (butlast (h # xs) @ last (h # xs) # [x])"
      using snoc.prems(1) by (metis append.assoc append_Cons append_Nil append_butlast_last_id list.distinct(1))
    then show "pv x = last (h # xs)"
      using linked_append [of nx pv "butlast (h # xs)" "last (h # xs)" "[x]"] by simp
    show "linked nx pv (h # xs)"
      using \<open>linked nx pv (butlast (h # xs) @ last (h # xs) # [x])\<close>
        linked_append [of nx pv "butlast (h # xs)" "last (h # xs)" "[x]"]
      by (metis append_butlast_last_id list.distinct(1))
  qed
  show ?case
    using snoc.IH [OF l, of f] snoc.prems f pv by auto
qed

lemma ring_walk_forward:
  assumes "ring nx pv h xs" "length xs < fuel"
  shows "walk fuel nx h P (nx h) = Done (find P xs)"
proof -
  have "linked nx pv (xs @ [h])"
    using assms(1) by (cases xs) (auto simp: ring_def)
  then show ?thesis
    using walk_forward [of nx pv xs h fuel P] assms ring_next_head [OF assms(1)] by (simp add: ring_def)
qed

lemma ring_walk_backward:
  assumes "ring nx pv h xs" "length xs < fuel"
  shows "walk fuel pv h P (pv h) = Done (find P (rev xs))"
proof -
  have l: "linked nx pv ((h # xs) @ [h])"
    using assms(1) by (simp add: ring_def)
  then have l2: "linked nx pv (butlast (h # xs) @ last (h # xs) # [h])"
    by (metis append.assoc append_Cons append_Nil append_butlast_last_id list.distinct(1))
  then have pv: "pv h = last (h # xs)"
    using linked_append [of nx pv "butlast (h # xs)" "last (h # xs)" "[h]"] by simp
  have "linked nx pv (h # xs)"
    using l2 linked_append [of nx pv "butlast (h # xs)" "last (h # xs)" "[h]"]
    by (metis append_butlast_last_id list.distinct(1))
  then show ?thesis
    using walk_backward [of nx pv h xs fuel P] assms pv by (simp add: ring_def)
qed

declare walk.simps [simp del]

end
