(* ===== verification/Bio.thy ===== *)
theory Bio
  imports Linked_Ring
begin

text \<open>
  The buffer cache of \<open>kern/bio.c\<close> over the in-memory disk driver of \<open>kern/memide.c\<close>. The flag
  word of a buffer is the set of its flags; the array \<open>bcache.buf\<close> is a function of the index, with
  \<open>bcache.head\<close> at index \<open>NBUF\<close>; the links of the LRU ring are kept as the code keeps them. The
  disk also carries the history of block writes, which the code has no variable for and which the
  crash arguments of the log are about.
\<close>

section \<open>State\<close>

datatype bflag = B_BUSY | B_VALID | B_DIRTY

record buf =
  flags :: "bflag set"
  dev :: u32
  blockno :: u32
  bprev :: nat
  bnext :: nat
  data :: bytes

record bio =
  bufs :: "nat \<Rightarrow> buf"
  memdisk :: "nat \<Rightarrow> bytes"
  disksize :: nat
  writes :: "(nat \<times> bytes) list"

definition upd_buf :: "nat \<Rightarrow> (buf \<Rightarrow> buf) \<Rightarrow> 'a bio_scheme \<Rightarrow> 'a bio_scheme" where
  "upd_buf b f s = s\<lparr>bufs := (bufs s)(b := f (bufs s b))\<rparr>"

text \<open>\<open>nxt s b\<close> is \<open>b->next\<close> and \<open>prv s b\<close> is \<open>b->prev\<close>; the head is \<open>NBUF\<close>.\<close>

definition nxt :: "'a bio_scheme \<Rightarrow> nat \<Rightarrow> nat" where
  "nxt s = (\<lambda>i. bnext (bufs s i))"

definition prv :: "'a bio_scheme \<Rightarrow> nat \<Rightarrow> nat" where
  "prv s = (\<lambda>i. bprev (bufs s i))"

section \<open>The disk driver\<close>

text \<open>
  \<open>iderw\<close> of \<open>memide.c\<close>: a dirty buffer is written to the disk, an invalid one is read from it.
\<close>

definition iderw :: "nat \<Rightarrow> 'a bio_scheme \<Rightarrow> 'a bio_scheme outcome" where
  "iderw b s =
     (let bf = bufs s b in
      if B_BUSY \<notin> flags bf then Panic ''iderw: buf not busy''
      else if flags bf \<inter> {B_VALID, B_DIRTY} = {B_VALID} then Panic ''iderw: nothing to do''
      else if dev bf \<noteq> 1 then Panic ''iderw: request not for disk 1''
      else if unat (blockno bf) \<ge> disksize s then Panic ''iderw: block out of range''
      else
        let p = unat (blockno bf) in
        if B_DIRTY \<in> flags bf
        then Done (upd_buf b (\<lambda>x. x\<lparr>flags := insert B_VALID (flags x - {B_DIRTY})\<rparr>)
                    (s\<lparr>memdisk := (memdisk s)(p := data bf), writes := writes s @ [(p, data bf)]\<rparr>))
        else Done (upd_buf b (\<lambda>x. x\<lparr>data := memdisk s p, flags := insert B_VALID (flags x)\<rparr>) s))"

section \<open>The cache\<close>

text \<open>\<open>binit\<close>: thread every buffer behind the head, one after the other.\<close>

definition binit_link :: "nat \<Rightarrow> 'a bio_scheme \<Rightarrow> 'a bio_scheme" where
  "binit_link b s =
     (let s = upd_buf b (\<lambda>x. x\<lparr>bnext := nxt s NBUF\<rparr>) s;
          s = upd_buf b (\<lambda>x. x\<lparr>bprev := NBUF\<rparr>) s;
          s = upd_buf b (\<lambda>x. x\<lparr>dev := -1\<rparr>) s;
          s = upd_buf (nxt s NBUF) (\<lambda>x. x\<lparr>bprev := b\<rparr>) s
      in upd_buf NBUF (\<lambda>x. x\<lparr>bnext := b\<rparr>) s)"

definition binit :: "'a bio_scheme \<Rightarrow> 'a bio_scheme" where
  "binit s =
     (let s = upd_buf NBUF (\<lambda>x. x\<lparr>bprev := NBUF\<rparr>) s;
          s = upd_buf NBUF (\<lambda>x. x\<lparr>bnext := NBUF\<rparr>) s
      in fold binit_link [0..<NBUF] s)"

text \<open>
  \<open>bget\<close>: the cached buffer of a block, or the least recently used buffer that is neither busy nor
  dirty. Both loops walk the ring, forwards from the most recently used buffer and backwards from
  the least recently used one.
\<close>

definition bget :: "u32 \<Rightarrow> u32 \<Rightarrow> 'a bio_scheme \<Rightarrow> (nat \<times> 'a bio_scheme) outcome" where
  "bget d n s =
     obind (walk (Suc NBUF) (nxt s) NBUF
              (\<lambda>i. dev (bufs s i) = d \<and> blockno (bufs s i) = n) (nxt s NBUF))
       (\<lambda>found. case found of
          Some b \<Rightarrow>
            (if B_BUSY \<notin> flags (bufs s b)
             then Done (b, upd_buf b (\<lambda>x. x\<lparr>flags := insert B_BUSY (flags x)\<rparr>) s)
             else Sleep (Chan_Buf b))
        | None \<Rightarrow>
            obind (walk (Suc NBUF) (prv s) NBUF
                     (\<lambda>i. B_BUSY \<notin> flags (bufs s i) \<and> B_DIRTY \<notin> flags (bufs s i))
                     (prv s NBUF))
              (\<lambda>victim. case victim of
                 Some b \<Rightarrow> Done (b, upd_buf b (\<lambda>x. x\<lparr>dev := d, blockno := n, flags := {B_BUSY}\<rparr>) s)
               | None \<Rightarrow> Panic ''bget: no buffers''))"

definition bread :: "u32 \<Rightarrow> u32 \<Rightarrow> 'a bio_scheme \<Rightarrow> (nat \<times> 'a bio_scheme) outcome" where
  "bread d n s =
     obind (bget d n s) (\<lambda>(b, s).
       if B_VALID \<notin> flags (bufs s b) then obind (iderw b s) (\<lambda>s. Done (b, s))
       else Done (b, s))"

definition bwrite :: "nat \<Rightarrow> 'a bio_scheme \<Rightarrow> 'a bio_scheme outcome" where
  "bwrite b s =
     (if B_BUSY \<notin> flags (bufs s b) then Panic ''bwrite''
      else iderw b (upd_buf b (\<lambda>x. x\<lparr>flags := insert B_DIRTY (flags x)\<rparr>) s))"

text \<open>The six pointer assignments of \<open>brelse\<close>: unlink the buffer, insert it behind the head.\<close>

definition blru_front :: "nat \<Rightarrow> 'a bio_scheme \<Rightarrow> 'a bio_scheme" where
  "blru_front b s =
     (let s = upd_buf (nxt s b) (\<lambda>x. x\<lparr>bprev := prv s b\<rparr>) s;
          s = upd_buf (prv s b) (\<lambda>x. x\<lparr>bnext := nxt s b\<rparr>) s;
          s = upd_buf b (\<lambda>x. x\<lparr>bnext := nxt s NBUF\<rparr>) s;
          s = upd_buf b (\<lambda>x. x\<lparr>bprev := NBUF\<rparr>) s;
          s = upd_buf (nxt s NBUF) (\<lambda>x. x\<lparr>bprev := b\<rparr>) s
      in upd_buf NBUF (\<lambda>x. x\<lparr>bnext := b\<rparr>) s)"

definition brelse :: "nat \<Rightarrow> 'a bio_scheme \<Rightarrow> 'a bio_scheme outcome" where
  "brelse b s =
     (if B_BUSY \<notin> flags (bufs s b) then Panic ''brelse''
      else Done (upd_buf b (\<lambda>x. x\<lparr>flags := flags x - {B_BUSY}\<rparr>) (blru_front b s)))"

text \<open>Code that holds a buffer changes its contents in place.\<close>

definition set_data :: "nat \<Rightarrow> bytes \<Rightarrow> 'a bio_scheme \<Rightarrow> 'a bio_scheme" where
  "set_data b d s = upd_buf b (\<lambda>x. x\<lparr>data := d\<rparr>) s"

section \<open>The LRU ring\<close>

definition lru :: "'a bio_scheme \<Rightarrow> nat list \<Rightarrow> bool" where
  "lru s xs \<longleftrightarrow> ring (nxt s) (prv s) NBUF xs \<and> set xs = {..<NBUF}"

lemma lru_length: "lru s xs \<Longrightarrow> length xs = NBUF"
  using distinct_card [of xs] by (simp add: lru_def ring_def)

lemma lru_cong: "lru s xs \<Longrightarrow> nxt t = nxt s \<Longrightarrow> prv t = prv s \<Longrightarrow> lru t xs"
  by (simp add: lru_def)

lemma upd_buf_other [simp]:
  "memdisk (upd_buf b f s) = memdisk s"
  "disksize (upd_buf b f s) = disksize s"
  "writes (upd_buf b f s) = writes s"
  "bio.more (upd_buf b f s) = bio.more s"
  by (simp_all add: upd_buf_def)

lemma bufs_upd_buf: "bufs (upd_buf b f s) = (bufs s)(b := f (bufs s b))"
  by (simp add: upd_buf_def)

lemma bufs_upd_buf_same [simp]: "bufs (upd_buf b f s) b = f (bufs s b)"
  and bufs_upd_buf_neq [simp]: "i \<noteq> b \<Longrightarrow> bufs (upd_buf b f s) i = bufs s i"
  by (simp_all add: upd_buf_def)

lemma upd_links_proj:
  "flags (bufs (upd_buf b (bnext_update g) s) i) = flags (bufs s i)"
  "dev (bufs (upd_buf b (bnext_update g) s) i) = dev (bufs s i)"
  "blockno (bufs (upd_buf b (bnext_update g) s) i) = blockno (bufs s i)"
  "data (bufs (upd_buf b (bnext_update g) s) i) = data (bufs s i)"
  "flags (bufs (upd_buf b (bprev_update g) s) i) = flags (bufs s i)"
  "dev (bufs (upd_buf b (bprev_update g) s) i) = dev (bufs s i)"
  "blockno (bufs (upd_buf b (bprev_update g) s) i) = blockno (bufs s i)"
  "data (bufs (upd_buf b (bprev_update g) s) i) = data (bufs s i)"
  by (simp_all add: upd_buf_def)

lemma nxt_upd_buf: "nxt (upd_buf b f s) = (nxt s)(b := bnext (f (bufs s b)))"
  and prv_upd_buf: "prv (upd_buf b f s) = (prv s)(b := bprev (f (bufs s b)))"
  by (auto simp: upd_buf_def nxt_def prv_def)

lemma links_upd_next [simp]:
  "nxt (upd_buf b (\<lambda>x. x\<lparr>bnext := v\<rparr>) s) = (nxt s)(b := v)"
  "prv (upd_buf b (\<lambda>x. x\<lparr>bnext := v\<rparr>) s) = prv s"
  "nxt (upd_buf b (\<lambda>x. x\<lparr>bprev := v\<rparr>) s) = nxt s"
  "prv (upd_buf b (\<lambda>x. x\<lparr>bprev := v\<rparr>) s) = (prv s)(b := v)"
  by (auto simp: nxt_upd_buf prv_upd_buf fun_eq_iff) (auto simp: nxt_def prv_def)

lemma links_upd_same [simp]:
  "bnext (f (bufs s b)) = bnext (bufs s b) \<Longrightarrow> nxt (upd_buf b f s) = nxt s"
  "bprev (f (bufs s b)) = bprev (bufs s b) \<Longrightarrow> prv (upd_buf b f s) = prv s"
  by (auto simp: nxt_upd_buf prv_upd_buf fun_eq_iff) (auto simp: nxt_def prv_def)

lemma set_data_fields [simp]:
  "bufs (set_data b d s) = (bufs s)(b := (bufs s b)\<lparr>data := d\<rparr>)"
  "memdisk (set_data b d s) = memdisk s"
  "disksize (set_data b d s) = disksize s"
  "writes (set_data b d s) = writes s"
  "bio.more (set_data b d s) = bio.more s"
  "nxt (set_data b d s) = nxt s"
  "prv (set_data b d s) = prv s"
  by (simp_all add: set_data_def upd_buf_def nxt_def prv_def fun_eq_iff)

lemma blru_front_fields [simp]:
  "flags (bufs (blru_front b s) i) = flags (bufs s i)"
  "dev (bufs (blru_front b s) i) = dev (bufs s i)"
  "blockno (bufs (blru_front b s) i) = blockno (bufs s i)"
  "data (bufs (blru_front b s) i) = data (bufs s i)"
  "memdisk (blru_front b s) = memdisk s"
  "disksize (blru_front b s) = disksize s"
  "writes (blru_front b s) = writes s"
  "bio.more (blru_front b s) = bio.more s"
  by (simp_all only: blru_front_def Let_def upd_buf_other upd_links_proj)

lemma blru_front_links:
  assumes "b \<noteq> NBUF" "nxt s b \<noteq> b" "prv s b \<noteq> b"
  defines "nx \<equiv> (nxt s)(prv s b := nxt s b)" and "pv \<equiv> (prv s)(nxt s b := prv s b)"
  shows "nxt (blru_front b s) = nx(b := nx NBUF, NBUF := b)"
    and "prv (blru_front b s) = pv(b := NBUF, nx NBUF := b)"
proof -
  have e: "((prv s)(nxt s b := prv s b)) b = prv s b" "(nx(b := nx NBUF)) NBUF = nx NBUF"
    using assms(1-3) by simp_all
  show "nxt (blru_front b s) = nx(b := nx NBUF, NBUF := b)"
    by (simp only: blru_front_def Let_def links_upd_next e nx_def [symmetric])
  show "prv (blru_front b s) = pv(b := NBUF, nx NBUF := b)"
    unfolding pv_def by (simp only: blru_front_def Let_def links_upd_next e nx_def [symmetric])
qed

lemma lru_blru_front:
  assumes l: "lru s xs" and b: "b < NBUF"
  shows "lru (blru_front b s) (b # remove1 b xs)"
proof -
  have "b \<in> set xs" using assms by (auto simp: lru_def)
  then obtain us vs where xs: "xs = us @ b # vs" by (meson split_list)
  have r: "ring (nxt s) (prv s) NBUF (us @ b # vs)" using l xs by (simp add: lru_def)
  have d: "distinct (NBUF # us @ b # vs)" using r by (rule ring_distinct)
  have n: "nxt s b \<noteq> b" using ring_neighbours(2) [OF r] d by (cases vs) auto
  have "prv s b \<in> set (NBUF # us)" using ring_neighbours(1) [OF r] last_in_set [of "NBUF # us"] by simp
  then have p: "prv s b \<noteq> b" using d by auto
  have b': "b \<noteq> NBUF" "b \<notin> set (us @ vs)" using b d by auto
  have rm: "remove1 b xs = us @ vs" using xs d by (simp add: remove1_append)
  have st: "set (b # us @ vs) = {..<NBUF}" using l xs by (auto simp: lru_def)
  show ?thesis
    unfolding lru_def blru_front_links [OF b'(1) n p] rm
    by (rule conjI [OF ring_insert_front [OF ring_unlink [OF r] b'] st])
qed

section \<open>Invariant and abstract view\<close>

text \<open>\<open>cached s n i\<close>: buffer \<open>i\<close> is assigned to block \<open>n\<close> of the root disk.\<close>

definition cached :: "'a bio_scheme \<Rightarrow> u32 \<Rightarrow> nat \<Rightarrow> bool" where
  "cached s n i \<longleftrightarrow> i < NBUF \<and> dev (bufs s i) = 1 \<and> blockno (bufs s i) = n"

text \<open>
  What holds of one buffer between operations: a busy or dirty buffer is valid, a valid buffer is
  assigned to a block of the disk, and a valid buffer that is neither busy nor dirty holds what
  the disk holds.
\<close>

definition buf_ok :: "'a bio_scheme \<Rightarrow> buf \<Rightarrow> bool" where
  "buf_ok s x \<longleftrightarrow>
     length (data x) = BSIZE \<and>
     (B_DIRTY \<in> flags x \<longrightarrow> B_VALID \<in> flags x) \<and>
     (B_BUSY \<in> flags x \<longrightarrow> B_VALID \<in> flags x) \<and>
     (B_VALID \<in> flags x \<longrightarrow> dev x = 1 \<and> unat (blockno x) < disksize s) \<and>
     (flags x = {B_VALID} \<longrightarrow> data x = memdisk s (unat (blockno x)))"

definition binv :: "'a bio_scheme \<Rightarrow> bool" where
  "binv s \<longleftrightarrow>
     (\<exists>xs. lru s xs) \<and>
     (\<forall>i n j. cached s n i \<longrightarrow> cached s n j \<longrightarrow> i = j) \<and>
     (\<forall>i<NBUF. buf_ok s (bufs s i)) \<and>
     (\<forall>n<disksize s. length (memdisk s n) = BSIZE)"

text \<open>
  The abstract view: the contents of every block as the kernel sees them through the cache, the
  blocks some process holds, and the blocks that are pinned until a commit.
\<close>

definition blk :: "'a bio_scheme \<Rightarrow> u32 \<Rightarrow> bytes" where
  "blk s n = (case find (\<lambda>i. cached s n i \<and> B_VALID \<in> flags (bufs s i)) [0..<NBUF] of
                Some i \<Rightarrow> data (bufs s i) | None \<Rightarrow> memdisk s (unat n))"

definition busy :: "'a bio_scheme \<Rightarrow> u32 set" where
  "busy s = {n. \<exists>i. cached s n i \<and> B_BUSY \<in> flags (bufs s i)}"

definition dirty :: "'a bio_scheme \<Rightarrow> u32 set" where
  "dirty s = {n. \<exists>i. cached s n i \<and> B_DIRTY \<in> flags (bufs s i)}"

definition holds :: "'a bio_scheme \<Rightarrow> u32 \<Rightarrow> nat \<Rightarrow> bool" where
  "holds s n i \<longleftrightarrow> cached s n i \<and> B_BUSY \<in> flags (bufs s i) \<and> B_VALID \<in> flags (bufs s i)"

text \<open>The view depends only on the buffers and the disk, not on what a client adds to the state.\<close>

lemma bio_cong:
  assumes "bufs t = bufs s" "memdisk t = memdisk s" "disksize t = disksize s"
  shows "binv t = binv s" "busy t = busy s" "dirty t = dirty s" "blk t = blk s" "holds t = holds s"
  using assms
  by (simp_all add: binv_def busy_def dirty_def blk_def holds_def cached_def lru_def buf_ok_def
      nxt_def prv_def fun_eq_iff cong: option.case_cong)

lemma binvD:
  assumes "binv s"
  shows "\<exists>xs. lru s xs" "cached s n i \<Longrightarrow> cached s n j \<Longrightarrow> i = j"
    "i < NBUF \<Longrightarrow> buf_ok s (bufs s i)" "k < disksize s \<Longrightarrow> length (memdisk s k) = BSIZE"
  using assms unfolding binv_def by blast+

lemma blk_cached:
  assumes "binv s" "cached s n i" "B_VALID \<in> flags (bufs s i)"
  shows "blk s n = data (bufs s i)"
proof -
  have u: "\<forall>j\<in>set [0..<NBUF]. cached s n j \<and> B_VALID \<in> flags (bufs s j) \<longrightarrow> j = i"
    using binvD(2) [OF assms(1) _ assms(2)] by blast
  have "find (\<lambda>i. cached s n i \<and> B_VALID \<in> flags (bufs s i)) [0..<NBUF] = Some i"
    by (rule find_unique [OF _ _ u]) (use assms(2,3) in \<open>simp_all add: cached_def\<close>)
  then show ?thesis by (simp add: blk_def)
qed

lemma blk_uncached:
  assumes "\<And>i. cached s n i \<Longrightarrow> B_VALID \<notin> flags (bufs s i)"
  shows "blk s n = memdisk s (unat n)"
proof -
  have "find (\<lambda>i. cached s n i \<and> B_VALID \<in> flags (bufs s i)) [0..<NBUF] = None"
    using assms by (auto simp: find_None_iff)
  then show ?thesis by (simp add: blk_def)
qed

lemma blk_clean:
  assumes "binv s" "n \<notin> busy s" "n \<notin> dirty s"
  shows "blk s n = memdisk s (unat n)"
proof (cases "\<exists>i. cached s n i \<and> B_VALID \<in> flags (bufs s i)")
  case True
  then obtain i where i: "cached s n i" "B_VALID \<in> flags (bufs s i)" by blast
  have "flags (bufs s i) = {B_VALID}"
    using i assms(2,3) bflag.exhaust by (auto simp: busy_def dirty_def)
  then show ?thesis
    using i assms(1) binvD(3) [OF assms(1), of i] blk_cached [OF assms(1) i]
    by (auto simp: cached_def buf_ok_def)
qed (auto intro: blk_uncached)

lemma length_blk:
  assumes "binv s" "unat n < disksize s"
  shows "length (blk s n) = BSIZE"
proof (cases "\<exists>i. cached s n i \<and> B_VALID \<in> flags (bufs s i)")
  case True
  then obtain i where i: "cached s n i" "B_VALID \<in> flags (bufs s i)" by blast
  then show ?thesis
    using binvD(3) [OF assms(1), of i] blk_cached [OF assms(1) i] by (auto simp: cached_def buf_ok_def)
next
  case False
  then show ?thesis
    using binvD(4) [OF assms(1), of "unat n"] assms(2) by (subst blk_uncached) auto
qed

lemma holds_data: "binv s \<Longrightarrow> holds s n i \<Longrightarrow> data (bufs s i) = blk s n"
  using blk_cached [of s n i] by (simp add: holds_def)

lemma holds_busy: "holds s n i \<Longrightarrow> n \<in> busy s"
  by (auto simp: holds_def busy_def)

lemma holds_index: "holds s n i \<Longrightarrow> i < NBUF"
  by (simp add: holds_def cached_def)

lemma buf_flags_range:
  assumes "binv s" "cached s n i" "flags (bufs s i) \<noteq> {}"
  shows "unat n < disksize s"
proof -
  have i: "i < NBUF" "blockno (bufs s i) = n" using assms(2) by (simp_all add: cached_def)
  obtain f where "f \<in> flags (bufs s i)" using assms(3) by blast
  then have "B_VALID \<in> flags (bufs s i)"
    using binvD(3) [OF assms(1) i(1)] by (cases f) (auto simp: buf_ok_def)
  then show ?thesis
    using binvD(3) [OF assms(1) i(1)] i(2) by (auto simp: buf_ok_def)
qed

lemma holds_range: "binv s \<Longrightarrow> holds s n i \<Longrightarrow> unat n < disksize s"
  using buf_flags_range [of s n i] by (auto simp: holds_def)

lemma busy_range:
  assumes "binv s" "n \<in> busy s" shows "unat n < disksize s"
  using assms buf_flags_range [OF assms(1)] unfolding busy_def by blast

lemma dirty_range:
  assumes "binv s" "n \<in> dirty s" shows "unat n < disksize s"
  using assms buf_flags_range [OF assms(1)] unfolding dirty_def by blast

text \<open>
  When fewer blocks are held or pinned than there are buffers, some buffer can be recycled.
\<close>

lemma clean_buf_exists:
  assumes "binv s" "card (busy s \<union> dirty s) < NBUF"
  shows "\<exists>i<NBUF. B_BUSY \<notin> flags (bufs s i) \<and> B_DIRTY \<notin> flags (bufs s i)"
proof (rule ccontr)
  assume a: "\<not> ?thesis"
  have c: "cached s (blockno (bufs s i)) i" if "i < NBUF" for i
    using a that binvD(3) [OF assms(1) that] by (auto simp: cached_def buf_ok_def)
  have inj: "inj_on (\<lambda>i. blockno (bufs s i)) {..<NBUF}"
    using c binvD(2) [OF assms(1)] by (intro inj_onI) (metis lessThan_iff)
  have "(\<lambda>i. blockno (bufs s i)) ` {..<NBUF} \<subseteq> busy s \<union> dirty s"
    using a c by (fastforce simp: busy_def dirty_def)
  then have "card ((\<lambda>i. blockno (bufs s i)) ` {..<NBUF}) \<le> card (busy s \<union> dirty s)"
    by (rule card_mono [rotated]) simp
  then show False
    using assms(2) card_image [OF inj] by simp
qed

lemma lru_upd_buf:
  assumes "lru s xs" "bnext (f (bufs s i)) = bnext (bufs s i)" "bprev (f (bufs s i)) = bprev (bufs s i)"
  shows "lru (upd_buf i f s) xs"
  using assms by (simp add: lru_def)

lemma cached_upd_buf:
  "cached (upd_buf i f s) n j \<longleftrightarrow>
     (if j = i then i < NBUF \<and> dev (f (bufs s i)) = 1 \<and> blockno (f (bufs s i)) = n else cached s n j)"
  by (simp add: cached_def bufs_upd_buf)

lemma cached_upd_same [simp]:
  "dev (f (bufs s i)) = dev (bufs s i) \<Longrightarrow> blockno (f (bufs s i)) = blockno (bufs s i) \<Longrightarrow>
   cached (upd_buf i f s) n j \<longleftrightarrow> cached s n j"
  by (auto simp: cached_def bufs_upd_buf)

lemma buf_ok_cong [simp]: "buf_ok (upd_buf i f s) x \<longleftrightarrow> buf_ok s x"
  by (simp add: buf_ok_def)

lemma binv_upd_buf:
  assumes b: "binv s" and i: "i < NBUF"
    and links: "bnext (f (bufs s i)) = bnext (bufs s i)" "bprev (f (bufs s i)) = bprev (bufs s i)"
    and ok: "buf_ok s (f (bufs s i))"
    and uniq: "\<And>j. cached s (blockno (f (bufs s i))) j \<Longrightarrow> dev (f (bufs s i)) = 1 \<Longrightarrow> j = i"
  shows "binv (upd_buf i f s)"
  unfolding binv_def
proof (intro conjI allI impI)
  show "\<exists>xs. lru (upd_buf i f s) xs"
    using binvD(1) [OF b] lru_upd_buf links by blast
next
  fix j n k
  let ?x = "f (bufs s i)"
  assume j: "cached (upd_buf i f s) n j" and k: "cached (upd_buf i f s) n k"
  consider "j = i" "k = i" | "j = i" "k \<noteq> i" | "j \<noteq> i" "k = i" | "j \<noteq> i" "k \<noteq> i" by blast
  then show "j = k"
  proof cases
    case 2
    then have "dev ?x = 1" "blockno ?x = n" "cached s n k" using j k by (simp_all add: cached_upd_buf)
    with 2 show ?thesis using uniq [of k] by blast
  next
    case 3
    then have "dev ?x = 1" "blockno ?x = n" "cached s n j" using j k by (simp_all add: cached_upd_buf)
    with 3 show ?thesis using uniq [of j] by blast
  next
    case 4
    then have "cached s n j" "cached s n k" using j k by (simp_all add: cached_upd_buf)
    then show ?thesis by (rule binvD(2) [OF b])
  qed simp
next
  fix j assume "j < NBUF"
  then show "buf_ok (upd_buf i f s) (bufs (upd_buf i f s) j)"
    using ok binvD(3) [OF b, of j] by (simp add: bufs_upd_buf)
next
  fix n assume "n < disksize (upd_buf i f s)"
  then show "length (memdisk (upd_buf i f s) n) = BSIZE"
    using binvD(4) [OF b] by simp
qed

section \<open>What the operations do\<close>

text \<open>
  \<open>bget\<close> by cases: a cached block, a cached block another process holds, and a recycled buffer.
\<close>

lemma find_cached:
  assumes "binv s" "lru s xs" "cached s n i"
  shows "find (\<lambda>i. dev (bufs s i) = 1 \<and> blockno (bufs s i) = n) xs = Some i"
proof -
  have m: "set xs = {..<NBUF}" using assms(2) by (simp add: lru_def)
  have u: "\<forall>j\<in>set xs. dev (bufs s j) = 1 \<and> blockno (bufs s j) = n \<longrightarrow> j = i"
    using binvD(2) [OF assms(1) _ assms(3)] m by (auto simp: cached_def)
  show ?thesis
    by (rule find_unique [OF _ _ u]) (use assms(3) m in \<open>simp_all add: cached_def\<close>)
qed

lemma bget_walks:
  assumes "lru s xs"
  shows "walk (Suc NBUF) (nxt s) NBUF P (nxt s NBUF) = Done (find P xs)"
    and "walk (Suc NBUF) (prv s) NBUF P (prv s NBUF) = Done (find P (rev xs))"
  using assms lru_length [OF assms]
  by (auto simp: lru_def intro: ring_walk_forward ring_walk_backward)

lemma bget_hit:
  assumes "binv s" "cached s n i" "B_BUSY \<notin> flags (bufs s i)"
  shows "bget 1 n s = Done (i, upd_buf i (\<lambda>x. x\<lparr>flags := insert B_BUSY (flags x)\<rparr>) s)"
proof -
  obtain xs where l: "lru s xs" using binvD(1) [OF assms(1)] by blast
  show ?thesis
    using assms(3) by (simp add: bget_def bget_walks [OF l] find_cached [OF assms(1) l assms(2)])
qed

lemma bget_sleeps:
  assumes "binv s" "cached s n i" "B_BUSY \<in> flags (bufs s i)"
  shows "bget 1 n s = Sleep (Chan_Buf i)"
proof -
  obtain xs where l: "lru s xs" using binvD(1) [OF assms(1)] by blast
  show ?thesis
    using assms(3) by (simp add: bget_def bget_walks [OF l] find_cached [OF assms(1) l assms(2)])
qed

lemma bget_recycle:
  assumes "lru s xs" "\<And>i. \<not> cached s n i"
  shows "bget 1 n s =
    (case find (\<lambda>i. B_BUSY \<notin> flags (bufs s i) \<and> B_DIRTY \<notin> flags (bufs s i)) (rev xs) of
       Some b \<Rightarrow> Done (b, upd_buf b (\<lambda>x. x\<lparr>dev := 1, blockno := n, flags := {B_BUSY}\<rparr>) s)
     | None \<Rightarrow> Panic ''bget: no buffers'')"
proof -
  have m: "set xs = {..<NBUF}" using assms(1) by (simp add: lru_def)
  have f: "find (\<lambda>i. dev (bufs s i) = 1 \<and> blockno (bufs s i) = n) xs = None"
    using assms(2) m by (auto simp: find_None_iff cached_def)
  show ?thesis
    by (simp add: bget_def bget_walks [OF assms(1)] f)
qed

text \<open>
  Taking a buffer for block \<open>n\<close>: buffer \<open>i\<close> already has the block, or no buffer has it and \<open>i\<close> is
  neither busy nor dirty. Afterwards the buffer is held and nothing visible has changed.
\<close>

definition acquired :: "'a bio_scheme \<Rightarrow> u32 \<Rightarrow> nat \<Rightarrow> 'a bio_scheme \<Rightarrow> bool" where
  "acquired s n i t \<longleftrightarrow>
     binv t \<and> holds t n i \<and> blk t = blk s \<and> busy t = insert n (busy s) \<and> dirty t = dirty s \<and>
     (\<forall>m j. holds s m j \<longrightarrow> holds t m j) \<and>
     memdisk t = memdisk s \<and> disksize t = disksize s \<and> writes t = writes s \<and>
     bio.more t = bio.more s"

lemma acquire_buf:
  assumes b: "binv s" and i: "i < NBUF" and nb: "n \<notin> busy s" and r: "unat n < disksize s"
    and old: "cached s n i \<or>
      (\<forall>j. \<not> cached s n j) \<and> B_BUSY \<notin> flags (bufs s i) \<and> B_DIRTY \<notin> flags (bufs s i)"
    and x: "dev (f (bufs s i)) = 1" "blockno (f (bufs s i)) = n"
      "{B_BUSY, B_VALID} \<subseteq> flags (f (bufs s i))" "data (f (bufs s i)) = blk s n"
      "B_DIRTY \<in> flags (f (bufs s i)) \<longleftrightarrow> n \<in> dirty s"
      "bnext (f (bufs s i)) = bnext (bufs s i)" "bprev (f (bufs s i)) = bprev (bufs s i)"
  shows "acquired s n i (upd_buf i f s)"
proof -
  let ?t = "upd_buf i f s"
  have uniq: "j = i" if "cached s n j" for j
    using old that binvD(2) [OF b] by blast
  have bt: "binv ?t"
  proof (rule binv_upd_buf [where f = f, OF b i x(6,7)])
    show "buf_ok s (f (bufs s i))"
      using x(1-4) r length_blk [OF b r] by (auto simp: buf_ok_def)
    show "j = i" if "cached s (blockno (f (bufs s i))) j" for j
      using that uniq by (simp only: x(2))
  qed
  have ct: "cached ?t m j \<longleftrightarrow> (if j = i then m = n else cached s m j)" for m j
    using x(1,2) i by (auto simp: cached_upd_buf)
  have free: "B_BUSY \<notin> flags (bufs s i)"
    using old nb by (auto simp: busy_def)
  have other: "m = n \<or> B_DIRTY \<notin> flags (bufs s i)" if "cached s m i" for m
    using old that by (auto simp: cached_def)
  have blk: "blk ?t m = blk s m" for m
  proof (cases "m = n")
    case True
    then show ?thesis using blk_cached [OF bt, of n i] x by (simp add: ct)
  next
    case m: False
    show ?thesis
    proof (cases "\<exists>j. j \<noteq> i \<and> cached s m j \<and> B_VALID \<in> flags (bufs s j)")
      case True
      then obtain j where j: "j \<noteq> i" "cached s m j" "B_VALID \<in> flags (bufs s j)" by blast
      then show ?thesis
        using blk_cached [OF b j(2,3)] blk_cached [OF bt, of m j] by (simp add: ct)
    next
      case none: False
      have "blk ?t m = memdisk s (unat m)"
        using none m by (subst blk_uncached) (auto simp: ct split: if_splits)
      also have "\<dots> = blk s m"
      proof (cases "cached s m i \<and> B_VALID \<in> flags (bufs s i)")
        case True
        then have "flags (bufs s i) = {B_VALID}"
          using free other [of m] m bflag.exhaust by blast
        then show ?thesis
          using True binvD(3) [OF b i] blk_cached [OF b, of m i] by (auto simp: buf_ok_def cached_def)
      next
        case False
        then show ?thesis using none by (subst blk_uncached) auto
      qed
      finally show ?thesis .
    qed
  qed
  have "busy ?t = insert n (busy s)"
    using x(3) free by (force simp: busy_def ct bufs_upd_buf)
  moreover have "dirty ?t = dirty s"
  proof (rule set_eqI)
    fix m
    show "m \<in> dirty ?t \<longleftrightarrow> m \<in> dirty s"
    proof (cases "m = n")
      case True
      have "cached ?t n j \<longleftrightarrow> j = i" for j
        using ct uniq by metis
      then have "n \<in> dirty ?t \<longleftrightarrow> B_DIRTY \<in> flags (f (bufs s i))"
        by (simp add: dirty_def)
      then show ?thesis using True x(5) by simp
    next
      case False
      have "m \<in> dirty ?t \<longleftrightarrow> (\<exists>j. j \<noteq> i \<and> cached s m j \<and> B_DIRTY \<in> flags (bufs s j))"
        using False by (auto simp: dirty_def ct bufs_upd_buf split: if_splits)
      also have "\<dots> \<longleftrightarrow> (\<exists>j. cached s m j \<and> B_DIRTY \<in> flags (bufs s j))"
        using other [of m] False by metis
      finally show ?thesis by (simp add: dirty_def)
    qed
  qed
  moreover have "holds ?t n i" "holds s m j \<Longrightarrow> holds ?t m j" for m j
    using x(3) free by (auto simp: holds_def ct bufs_upd_buf)
  ultimately show ?thesis
    using bt blk by (auto simp: acquired_def)
qed

theorem bread_returns:
  assumes b: "binv s" and r: "unat n < disksize s" and nb: "n \<notin> busy s"
    and room: "n \<in> dirty s \<or> card (busy s \<union> dirty s) < NBUF"
  shows "returns (bread 1 n s) (\<lambda>(i, t). acquired s n i t)"
proof (cases "\<exists>i. cached s n i")
  case True
  then obtain i where c: "cached s n i" by blast
  then have i: "i < NBUF" "dev (bufs s i) = 1" "blockno (bufs s i) = n" by (simp_all add: cached_def)
  have f: "B_BUSY \<notin> flags (bufs s i)" using nb c by (auto simp: busy_def)
  have u: "cached s n j \<longleftrightarrow> j = i" for j
    using c binvD(2) [OF b _ c] by blast
  have d: "B_DIRTY \<in> flags (bufs s i) \<longleftrightarrow> n \<in> dirty s"
    by (simp add: dirty_def u)
  have ok: "buf_ok s (bufs s i)" using binvD(3) [OF b i(1)] .
  show ?thesis
  proof (cases "B_VALID \<in> flags (bufs s i)")
    case True
    have "acquired s n i (upd_buf i (\<lambda>x. x\<lparr>flags := insert B_BUSY (flags x)\<rparr>) s)"
      using True i d blk_cached [OF b c True] by (intro acquire_buf b nb r disjI1 c) auto
    then show ?thesis
      using True by (simp add: bread_def bget_hit [OF b c f])
  next
    case False
    then have nd: "B_DIRTY \<notin> flags (bufs s i)" using ok by (auto simp: buf_ok_def)
    have v: "blk s n = memdisk s (unat n)"
      using False by (intro blk_uncached) (simp add: u)
    have "acquired s n i (upd_buf i (\<lambda>x. x\<lparr>data := memdisk s (unat n),
        flags := insert B_VALID (insert B_BUSY (flags x))\<rparr>) s)"
      using i d nd v by (intro acquire_buf b nb r disjI1 c) auto
    then show ?thesis
      using False nd i r by (simp add: bread_def bget_hit [OF b c f] iderw_def Let_def upd_buf_def)
  qed
next
  case False
  then have nc: "\<And>i. \<not> cached s n i" by blast
  obtain xs where l: "lru s xs" using binvD(1) [OF b] by blast
  let ?P = "\<lambda>i. B_BUSY \<notin> flags (bufs s i) \<and> B_DIRTY \<notin> flags (bufs s i)"
  have "n \<notin> dirty s" using nc by (simp add: dirty_def)
  then obtain k where "k < NBUF" "?P k" using clean_buf_exists [OF b] room by blast
  then have "k \<in> set (rev xs)" using l by (simp add: lru_def)
  then obtain i where fi: "find ?P (rev xs) = Some i"
    using \<open>?P k\<close> by (cases "find ?P (rev xs)") (auto simp: find_None_iff)
  then have "i \<in> set (rev xs)" and p: "?P i" using find_SomeD [OF fi] by simp_all
  then have i: "i < NBUF" using l by (simp add: lru_def)
  have v: "blk s n = memdisk s (unat n)" using nc by (intro blk_uncached) blast
  have "acquired s n i (upd_buf i (\<lambda>x. x\<lparr>dev := 1, blockno := n, data := memdisk s (unat n),
      flags := {B_VALID, B_BUSY}\<rparr>) s)"
    using nc p v \<open>n \<notin> dirty s\<close> by (intro acquire_buf b i nb r) auto
  then show ?thesis
    using r by (simp add: bread_def bget_recycle [OF l nc] fi iderw_def Let_def upd_buf_def)
qed

text \<open>Changing a held buffer in place: its contents, or its dirty flag.\<close>

lemma holds_unique: "binv s \<Longrightarrow> holds s n i \<Longrightarrow> cached s n j \<longleftrightarrow> j = i"
  using binvD(2) [of s n i j] by (auto simp: holds_def)

lemma held_upd:
  assumes b: "binv s" and h: "holds s n i"
    and x: "dev (f (bufs s i)) = dev (bufs s i)" "blockno (f (bufs s i)) = blockno (bufs s i)"
      "bnext (f (bufs s i)) = bnext (bufs s i)" "bprev (f (bufs s i)) = bprev (bufs s i)"
      "{B_BUSY, B_VALID} \<subseteq> flags (f (bufs s i))" "length (data (f (bufs s i))) = BSIZE"
  defines "t \<equiv> upd_buf i f s"
  shows "binv t" "holds t = holds s" "busy t = busy s"
    "dirty t = (if B_DIRTY \<in> flags (f (bufs s i)) then insert n (dirty s) else dirty s - {n})"
    "blk t = (blk s)(n := data (f (bufs s i)))"
proof -
  have c: "cached s n i" "i < NBUF" "dev (bufs s i) = 1" "blockno (bufs s i) = n"
    "B_BUSY \<in> flags (bufs s i)" "B_VALID \<in> flags (bufs s i)"
    using h by (simp_all add: holds_def cached_def)
  have r: "unat n < disksize s" using holds_range [OF b h] .
  show bt: "binv t"
    unfolding t_def
  proof (rule binv_upd_buf [where f = f, OF b c(2) x(3,4)])
    show "buf_ok s (f (bufs s i))" using x c r by (auto simp: buf_ok_def)
    show "j = i" if "cached s (blockno (f (bufs s i))) j" for j
      using that holds_unique [OF b h] by (simp add: x(2) c(4))
  qed
  have ct: "cached t m j \<longleftrightarrow> cached s m j" for m j
    unfolding t_def using x(1,2) by simp
  have ci: "cached s m i \<longleftrightarrow> m = n" for m
    using c by (auto simp: cached_def)
  have bf: "bufs t j = (if j = i then f (bufs s i) else bufs s j)" for j
    by (simp add: t_def bufs_upd_buf)
  show "holds t = holds s"
    using x(5) c(5,6) by (auto simp: holds_def ct bf fun_eq_iff)
  show "busy t = busy s"
    using x(5) c(5) by (auto simp: busy_def ct bf)
  show "dirty t = (if B_DIRTY \<in> flags (f (bufs s i)) then insert n (dirty s) else dirty s - {n})"
  proof -
    have dt: "m \<in> dirty t \<longleftrightarrow> (if m = n then B_DIRTY \<in> flags (f (bufs s i)) else m \<in> dirty s)" for m
    proof (cases "m = n")
      case True
      then show ?thesis using holds_unique [OF b h] by (simp add: dirty_def ct bf)
    next
      case False
      then have "cached s m j \<Longrightarrow> j \<noteq> i" for j using ci by metis
      then show ?thesis using False by (auto simp: dirty_def ct bf)
    qed
    show ?thesis by (rule set_eqI) (simp add: dt)
  qed
  show "blk t = (blk s)(n := data (f (bufs s i)))"
  proof
    fix m
    show "blk t m = ((blk s)(n := data (f (bufs s i)))) m"
    proof (cases "m = n")
      case True
      then show ?thesis using blk_cached [OF bt, of n i] x(5) c(1) by (simp add: ct bf)
    next
      case False
      then have "cached s m j \<Longrightarrow> j \<noteq> i" for j using ci by metis
      then have "find (\<lambda>j. cached t m j \<and> B_VALID \<in> flags (bufs t j)) [0..<NBUF] =
          find (\<lambda>j. cached s m j \<and> B_VALID \<in> flags (bufs s j)) [0..<NBUF]"
        by (intro find_cong refl) (auto simp: ct bf)
      moreover have "bufs t j = bufs s j"
        if "find (\<lambda>j. cached s m j \<and> B_VALID \<in> flags (bufs s j)) [0..<NBUF] = Some j" for j
        using find_SomeD [OF that] \<open>cached s m j \<Longrightarrow> j \<noteq> i\<close> by (simp add: bf)
      ultimately show ?thesis
        using False by (auto simp: blk_def t_def split: option.splits)
    qed
  qed
qed

lemma set_data_spec:
  assumes "binv s" "holds s n i" "length d = BSIZE"
  shows "binv (set_data i d s)" "holds (set_data i d s) = holds s" "busy (set_data i d s) = busy s"
    "dirty (set_data i d s) = dirty s" "blk (set_data i d s) = (blk s)(n := d)"
proof -
  let ?f = "\<lambda>x. x\<lparr>data := d\<rparr>"
  have x: "{B_BUSY, B_VALID} \<subseteq> flags (?f (bufs s i))" using assms(2) by (simp add: holds_def)
  note u = held_upd [where f = ?f, OF assms(1,2) _ _ _ _ x]
  have "n \<in> dirty s \<longleftrightarrow> B_DIRTY \<in> flags (bufs s i)"
    by (simp add: dirty_def holds_unique [OF assms(1,2)])
  then show "dirty (set_data i d s) = dirty s"
    using u(4) assms(3) by (auto simp: set_data_def)
  show "binv (set_data i d s)" "holds (set_data i d s) = holds s" "busy (set_data i d s) = busy s"
    "blk (set_data i d s) = (blk s)(n := d)"
    using u(1,2,3,5) assms(3) by (simp_all add: set_data_def)
qed

text \<open>Writing a held block to the disk leaves every other buffer consistent with the disk.\<close>

lemma sync_disk:
  fixes s :: "'a bio_scheme" and w :: "(nat \<times> bytes) list"
  assumes b: "binv s" and h: "holds s n i" and d: "length d = BSIZE"
  defines "t \<equiv> s\<lparr>memdisk := (memdisk s)(unat n := d), writes := w\<rparr>"
  shows "binv t" "holds t = holds s" "busy t = busy s" "dirty t = dirty s" "blk t = blk s"
proof -
  have c: "cached t = cached s" by (simp add: t_def cached_def fun_eq_iff)
  have bf: "bufs t = bufs s" by (simp add: t_def)
  show "binv t"
    unfolding binv_def
  proof (intro conjI allI impI)
    show "\<exists>xs. lru t xs" using binvD(1) [OF b] by (simp add: lru_def t_def nxt_def prv_def)
    show "j = k" if "cached t m j" "cached t m k" for m j k
      using that unfolding c by (rule binvD(2) [OF b])
    show "length (memdisk t m) = BSIZE" if "m < disksize t" for m
      using that binvD(4) [OF b, of m] d by (simp add: t_def)
    show "buf_ok t (bufs t j)" if "j < NBUF" for j
    proof (cases "cached s n j")
      case True
      then have "j = i" using holds_unique [OF b h] by simp
      then show ?thesis
        using binvD(3) [OF b that] h by (auto simp: buf_ok_def t_def holds_def)
    next
      case False
      then have "dev (bufs s j) = 1 \<Longrightarrow> unat (blockno (bufs s j)) \<noteq> unat n"
        using that by (simp add: cached_def word_unat_eq_iff)
      then show ?thesis
        using binvD(3) [OF b that] by (auto simp: buf_ok_def t_def)
    qed
  qed
  show "holds t = holds s" "busy t = busy s" "dirty t = dirty s"
    by (simp_all add: holds_def busy_def dirty_def c bf fun_eq_iff)
  show "blk t = blk s"
  proof
    fix m
    show "blk t m = blk s m"
    proof (cases "m = n")
      case True
      then show ?thesis
        using blk_cached [OF b, of n i] blk_cached [OF \<open>binv t\<close>, of n i] h
        by (simp add: holds_def c bf)
    next
      case False
      then have "unat m \<noteq> unat n" by (simp add: word_unat_eq_iff)
      then have "memdisk t (unat m) = memdisk s (unat m)" by (simp add: t_def)
      then show ?thesis by (simp add: blk_def c bf split: option.split)
    qed
  qed
qed

definition written :: "'a bio_scheme \<Rightarrow> u32 \<Rightarrow> 'a bio_scheme \<Rightarrow> bool" where
  "written s n t \<longleftrightarrow>
     binv t \<and> holds t = holds s \<and> blk t = blk s \<and> busy t = busy s \<and> dirty t = dirty s - {n} \<and>
     memdisk t = (memdisk s)(unat n := blk s n) \<and> writes t = writes s @ [(unat n, blk s n)] \<and>
     disksize t = disksize s \<and> bio.more t = bio.more s"

theorem bwrite_returns:
  assumes b: "binv s" and h: "holds s n i"
  shows "returns (bwrite i s) (written s n)"
proof -
  have c: "i < NBUF" "dev (bufs s i) = 1" "blockno (bufs s i) = n" "B_BUSY \<in> flags (bufs s i)"
    "B_VALID \<in> flags (bufs s i)"
    using h by (simp_all add: holds_def cached_def)
  have dat: "data (bufs s i) = blk s n" "length (blk s n) = BSIZE"
    using holds_data [OF b h] length_blk [OF b holds_range [OF b h]] by simp_all
  let ?f = "\<lambda>x. x\<lparr>flags := insert B_DIRTY (flags x)\<rparr>"
  let ?g = "\<lambda>x. x\<lparr>flags := insert B_VALID (flags x - {B_DIRTY})\<rparr>"
  define s1 where "s1 = upd_buf i ?f s"
  note u1 = held_upd [where f = ?f, OF b h, folded s1_def]
  have h1: "binv s1" "holds s1 n i" "holds s1 = holds s" "busy s1 = busy s" "blk s1 = blk s"
    "dirty s1 = insert n (dirty s)"
    using u1 c h dat by (simp_all add: fun_upd_idem)
  define s2 where "s2 = s1\<lparr>memdisk := (memdisk s1)(unat n := blk s n),
    writes := writes s1 @ [(unat n, blk s n)]\<rparr>"
  note u2 = sync_disk [OF h1(1,2) dat(2), of "writes s1 @ [(unat n, blk s n)]", folded s2_def]
  have b2: "bufs s2 i = ?f (bufs s i)" by (simp add: s2_def s1_def)
  note u3 = held_upd [where f = ?g and s = s2, OF u2(1), of n i]
  have b1: "bufs s1 i = ?f (bufs s i)" "disksize s1 = disksize s" by (simp_all add: s1_def)
  have "bwrite i s = iderw i s1" using c(4) by (simp add: bwrite_def s1_def)
  also have "\<dots> = Done (upd_buf i ?g s2)"
    using c holds_range [OF b h] by (simp add: iderw_def Let_def b1 dat(1) s2_def not_le)
  finally have r: "bwrite i s = Done (upd_buf i ?g s2)" .
  have g: "?g (bufs s2 i) = (bufs s i)\<lparr>flags := insert B_VALID (flags (bufs s i) - {B_DIRTY})\<rparr>"
    by (simp add: b2)
  have "holds s2 n i" using u2(2) h1(2) by simp
  note u = u3 [OF this, unfolded g]
  have m: "memdisk (upd_buf i ?g s2) = (memdisk s)(unat n := blk s n)"
    "writes (upd_buf i ?g s2) = writes s @ [(unat n, blk s n)]"
    "disksize (upd_buf i ?g s2) = disksize s" "bio.more (upd_buf i ?g s2) = bio.more s"
    by (simp_all add: s2_def s1_def)
  have "written s n (upd_buf i ?g s2)"
    unfolding written_def m using u u2 h1 dat c by (simp add: b2 fun_upd_idem)
  then show ?thesis by (simp add: r)
qed

text \<open>Moving a buffer to the front of the ring changes nothing but the ring.\<close>

lemma blru_front_view:
  assumes b: "binv s" and i: "i < NBUF"
  shows "binv (blru_front i s)" "holds (blru_front i s) = holds s" "busy (blru_front i s) = busy s"
    "dirty (blru_front i s) = dirty s" "blk (blru_front i s) = blk s"
proof -
  let ?t = "blru_front i s"
  have c: "cached ?t = cached s" by (simp add: cached_def fun_eq_iff)
  have ok: "buf_ok ?t (bufs ?t j) \<longleftrightarrow> buf_ok s (bufs s j)" for j
    by (simp add: buf_ok_def)
  show "binv ?t"
    unfolding binv_def
  proof (intro conjI allI impI)
    show "\<exists>xs. lru ?t xs" using binvD(1) [OF b] lru_blru_front [OF _ i] by blast
    show "j = k" if "cached ?t m j" "cached ?t m k" for m j k
      using that unfolding c by (rule binvD(2) [OF b])
  qed (use binvD(3,4) [OF b] in \<open>simp_all only: ok blru_front_fields\<close>)
  show "holds ?t = holds s" "busy ?t = busy s" "dirty ?t = dirty s"
    by (simp_all add: holds_def busy_def dirty_def c fun_eq_iff)
  show "blk ?t = blk s"
    by (simp add: blk_def c fun_eq_iff split: option.split)
qed

definition released :: "'a bio_scheme \<Rightarrow> u32 \<Rightarrow> 'a bio_scheme \<Rightarrow> bool" where
  "released s n t \<longleftrightarrow>
     binv t \<and> blk t = blk s \<and> busy t = busy s - {n} \<and> dirty t = dirty s \<and>
     (\<forall>m j. m \<noteq> n \<longrightarrow> holds s m j \<longrightarrow> holds t m j) \<and>
     memdisk t = memdisk s \<and> disksize t = disksize s \<and> writes t = writes s \<and>
     bio.more t = bio.more s"

lemma unbusy:
  assumes b: "binv s" and h: "holds s n i" and clean: "n \<in> dirty s \<or> blk s n = memdisk s (unat n)"
  shows "released s n (upd_buf i (\<lambda>x. x\<lparr>flags := flags x - {B_BUSY}\<rparr>) s)"
proof -
  let ?f = "\<lambda>x. x\<lparr>flags := flags x - {B_BUSY}\<rparr>" and ?t = "upd_buf i (\<lambda>x. x\<lparr>flags := flags x - {B_BUSY}\<rparr>) s"
  have c: "i < NBUF" "dev (bufs s i) = 1" "blockno (bufs s i) = n" "B_VALID \<in> flags (bufs s i)"
    using h by (simp_all add: holds_def cached_def)
  have d: "n \<in> dirty s \<longleftrightarrow> B_DIRTY \<in> flags (bufs s i)"
    by (simp add: dirty_def holds_unique [OF b h])
  have ct: "cached ?t = cached s" by (simp add: fun_eq_iff)
  have bt: "binv ?t"
  proof (rule binv_upd_buf [where f = ?f, OF b c(1)])
    show "buf_ok s (?f (bufs s i))"
      using binvD(3) [OF b c(1)] clean d holds_data [OF b h] c by (auto simp: buf_ok_def)
    show "j = i" if "cached s (blockno (?f (bufs s i))) j" for j
      using that holds_unique [OF b h] by (simp add: c(3))
  qed simp_all
  have nx: "cached s m j \<Longrightarrow> m \<noteq> n \<Longrightarrow> j \<noteq> i" for m j
    using c by (auto simp: cached_def)
  have "m \<in> busy ?t \<longleftrightarrow> m \<in> busy s \<and> m \<noteq> n" for m
  proof (cases "m = n")
    case True
    then show ?thesis by (simp add: busy_def ct holds_unique [OF b h])
  next
    case False
    then show ?thesis using nx [of m] by (auto simp: busy_def ct bufs_upd_buf)
  qed
  moreover have "m \<in> dirty ?t \<longleftrightarrow> m \<in> dirty s" for m
    by (auto simp: dirty_def ct bufs_upd_buf)
  moreover have "holds ?t m j" if "m \<noteq> n" "holds s m j" for m j
    using that nx [of m j] by (simp add: holds_def ct)
  moreover have "blk ?t m = blk s m" for m
  proof -
    have "B_VALID \<in> flags (bufs ?t j) \<longleftrightarrow> B_VALID \<in> flags (bufs s j)"
      "data (bufs ?t j) = data (bufs s j)" for j
      by (simp_all add: bufs_upd_buf)
    then show ?thesis by (simp add: blk_def ct split: option.split)
  qed
  ultimately show ?thesis
    using bt unfolding released_def by (simp add: set_eq_iff fun_eq_iff)
qed

theorem brelse_returns:
  assumes b: "binv s" and h: "holds s n i" and clean: "n \<in> dirty s \<or> blk s n = memdisk s (unat n)"
  shows "returns (brelse i s) (released s n)"
proof -
  have i: "i < NBUF" "B_BUSY \<in> flags (bufs s i)" using h by (simp_all add: holds_def cached_def)
  note v = blru_front_view [OF b i(1)]
  have "released (blru_front i s) n
      (upd_buf i (\<lambda>x. x\<lparr>flags := flags x - {B_BUSY}\<rparr>) (blru_front i s))"
    using h clean by (intro unbusy) (simp_all add: v)
  then show ?thesis
    using i(2) by (simp add: brelse_def released_def v)
qed

lemma brelse_lru:
  assumes "lru s xs" "b < NBUF" "brelse b s = Done t"
  shows "lru t (b # remove1 b xs)"
proof -
  have "t = upd_buf b (\<lambda>x. x\<lparr>flags := flags x - {B_BUSY}\<rparr>) (blru_front b s)"
    using assms(3) by (simp add: brelse_def split: if_splits)
  then show ?thesis
    using lru_blru_front [OF assms(1,2)] by (simp add: lru_def)
qed

section \<open>Initialisation\<close>

lemma binit_link_links:
  assumes "b \<noteq> NBUF"
  shows "nxt (binit_link b s) = (nxt s)(b := nxt s NBUF, NBUF := b)"
    and "prv (binit_link b s) = (prv s)(b := NBUF, nxt s NBUF := b)"
proof -
  have e: "((nxt s)(b := nxt s NBUF)) NBUF = nxt s NBUF" using assms by simp
  have d: "nxt (upd_buf b (\<lambda>x. x\<lparr>dev := v\<rparr>) u) = nxt u" "prv (upd_buf b (\<lambda>x. x\<lparr>dev := v\<rparr>) u) = prv u"
    for v and u :: "'a bio_scheme" by simp_all
  show "nxt (binit_link b s) = (nxt s)(b := nxt s NBUF, NBUF := b)"
    by (simp only: binit_link_def Let_def links_upd_next d e)
  show "prv (binit_link b s) = (prv s)(b := NBUF, nxt s NBUF := b)"
    by (simp only: binit_link_def Let_def links_upd_next d e)
qed

lemma binit_fold_ring:
  assumes "ring (nxt s) (prv s) NBUF []" "k \<le> NBUF"
  shows "ring (nxt (fold binit_link [0..<k] s)) (prv (fold binit_link [0..<k] s)) NBUF (rev [0..<k])"
  using assms(2)
proof (induction k)
  case 0
  then show ?case using assms(1) by simp
next
  case (Suc k)
  let ?s = "fold binit_link [0..<k] s"
  have k: "k \<noteq> NBUF" "k \<notin> set (rev [0..<k])" using Suc.prems by auto
  have "ring (nxt ?s) (prv ?s) NBUF (rev [0..<k])" using Suc by simp
  then have "ring (nxt (binit_link k ?s)) (prv (binit_link k ?s)) NBUF (k # rev [0..<k])"
    unfolding binit_link_links [OF k(1)] by (rule ring_insert_front [OF _ k])
  moreover have "fold binit_link [0..<Suc k] s = binit_link k ?s" "rev [0..<Suc k] = k # rev [0..<k]"
    by simp_all
  ultimately show ?case by (simp only:)
qed

lemma binit_lru: "lru (binit s) (rev [0..<NBUF])"
proof -
  let ?s = "upd_buf NBUF (\<lambda>x. x\<lparr>bnext := NBUF\<rparr>) (upd_buf NBUF (\<lambda>x. x\<lparr>bprev := NBUF\<rparr>) s)"
  have "ring (nxt ?s) (prv ?s) NBUF []" by (simp add: ring_def)
  from binit_fold_ring [OF this order_refl] show ?thesis
    unfolding lru_def binit_def Let_def by auto
qed

lemma binit_link_fields:
  "flags (bufs (binit_link b s) i) = flags (bufs s i)"
  "blockno (bufs (binit_link b s) i) = blockno (bufs s i)"
  "data (bufs (binit_link b s) i) = data (bufs s i)"
  "dev (bufs (binit_link b s) i) = (if i = b then -1 else dev (bufs s i))"
  "memdisk (binit_link b s) = memdisk s"
  "disksize (binit_link b s) = disksize s"
  "writes (binit_link b s) = writes s"
  "bio.more (binit_link b s) = bio.more s"
proof -
  have d: "flags (bufs (upd_buf b (\<lambda>x. x\<lparr>dev := v\<rparr>) u) i) = flags (bufs u i)"
    "blockno (bufs (upd_buf b (\<lambda>x. x\<lparr>dev := v\<rparr>) u) i) = blockno (bufs u i)"
    "data (bufs (upd_buf b (\<lambda>x. x\<lparr>dev := v\<rparr>) u) i) = data (bufs u i)"
    "dev (bufs (upd_buf b (\<lambda>x. x\<lparr>dev := v\<rparr>) u) i) = (if i = b then v else dev (bufs u i))"
    for v and u :: "'a bio_scheme" by (simp_all add: bufs_upd_buf)
  show "flags (bufs (binit_link b s) i) = flags (bufs s i)"
    "blockno (bufs (binit_link b s) i) = blockno (bufs s i)"
    "data (bufs (binit_link b s) i) = data (bufs s i)"
    "dev (bufs (binit_link b s) i) = (if i = b then -1 else dev (bufs s i))"
    by (simp_all only: binit_link_def Let_def upd_links_proj d)
qed (simp_all only: binit_link_def Let_def upd_buf_other)

lemma binit_fold_fields:
  "flags (bufs (fold binit_link l s) i) = flags (bufs s i)"
  "blockno (bufs (fold binit_link l s) i) = blockno (bufs s i)"
  "data (bufs (fold binit_link l s) i) = data (bufs s i)"
  "dev (bufs (fold binit_link l s) i) = (if i \<in> set l then -1 else dev (bufs s i))"
  "memdisk (fold binit_link l s) = memdisk s"
  "disksize (fold binit_link l s) = disksize s"
  "writes (fold binit_link l s) = writes s"
  "bio.more (fold binit_link l s) = bio.more s"
  by (induction l arbitrary: s) (auto simp: binit_link_fields)

lemma binit_fields:
  "flags (bufs (binit s) i) = flags (bufs s i)"
  "data (bufs (binit s) i) = data (bufs s i)"
  "i < NBUF \<Longrightarrow> dev (bufs (binit s) i) = -1"
  "memdisk (binit s) = memdisk s"
  "disksize (binit s) = disksize s"
  "writes (binit s) = writes s"
  "bio.more (binit s) = bio.more s"
  by (simp_all add: binit_def Let_def binit_fold_fields upd_links_proj)

lemma binit_uncached: "\<not> cached (binit s) n i"
  using binit_fields(3) [of i s] by (auto simp: cached_def)

text \<open>After \<open>binit\<close> on zeroed memory the cache is empty and shows the disk.\<close>

definition bss_bufs :: "nat \<Rightarrow> buf" where
  "bss_bufs = (\<lambda>_. \<lparr>flags = {}, dev = 0, blockno = 0, bprev = 0, bnext = 0, data = replicate BSIZE 0\<rparr>)"

lemma binit_fresh:
  assumes "bufs s = bss_bufs" "\<And>n. n < disksize s \<Longrightarrow> length (memdisk s n) = BSIZE"
  shows "binv (binit s)" "busy (binit s) = {}" "dirty (binit s) = {}"
    "blk (binit s) n = memdisk s (unat n)"
proof -
  note c = binit_uncached
  have ok: "buf_ok (binit s) (bufs (binit s) i)" for i
    by (simp add: buf_ok_def binit_fields assms(1) bss_bufs_def)
  show "binv (binit s)"
    unfolding binv_def using binit_lru [of s] c ok assms(2) by (auto simp: binit_fields)
  show "busy (binit s) = {}" "dirty (binit s) = {}"
    by (simp_all add: busy_def dirty_def c)
  show "blk (binit s) n = memdisk s (unat n)"
    using c by (subst blk_uncached) (auto simp: binit_fields)
qed

section \<open>Operations as existential facts\<close>

lemma bread_Done:
  assumes "binv s" "unat n < disksize s" "n \<notin> busy s" "n \<in> dirty s \<or> card (busy s \<union> dirty s) < NBUF"
  obtains i t where "bread 1 n s = Done (i, t)" "acquired s n i t"
  using bread_returns [OF assms] by (auto simp: returns_iff)

lemma bwrite_Done:
  assumes "binv s" "holds s n i"
  obtains t where "bwrite i s = Done t" "written s n t"
  using bwrite_returns [OF assms] by (auto simp: returns_iff)

lemma brelse_Done:
  assumes "binv s" "holds s n i" "n \<in> dirty s \<or> blk s n = memdisk s (unat n)"
  obtains t where "brelse i s = Done t" "released s n t"
  using brelse_returns [OF assms] by (auto simp: returns_iff)

section \<open>Properties\<close>

definition demo_cache :: bio where
  "demo_cache = binit \<lparr>bufs = bss_bufs, memdisk = (\<lambda>_. replicate BSIZE 7), disksize = 40, writes = []\<rparr>"

lemma demo_cache_ok:
  "binv demo_cache" "busy demo_cache = {}" "dirty demo_cache = {}" "blk demo_cache n = replicate BSIZE 7"
  "disksize demo_cache = 40" "lru demo_cache (rev [0..<NBUF])" "flags (bufs demo_cache i) = {}"
  unfolding demo_cache_def
  by (simp_all add: binit_fresh binit_fields binit_lru) (simp add: bss_bufs_def)

text \<open>
  C17: \<open>bread\<close> of a block that nobody holds returns, whenever a buffer is free or the block is
  pinned in the cache. The buffer it returns is locked and has the current contents of the block; no block
  changes its contents, nothing is written to the disk, and the invariant of the cache is kept.
\<close>

theorem bread_current:
  assumes "binv s" "unat n < disksize s" "n \<notin> busy s" "n \<in> dirty s \<or> card (busy s \<union> dirty s) < NBUF"
  shows "\<exists>i t. bread 1 n s = Done (i, t) \<and> holds t n i \<and> data (bufs t i) = blk s n \<and> binv t \<and>
    blk t = blk s \<and> busy t = insert n (busy s) \<and> dirty t = dirty s \<and>
    memdisk t = memdisk s \<and> writes t = writes s"
proof -
  obtain i t where "bread 1 n s = Done (i, t)" and a: "acquired s n i t" by (rule bread_Done [OF assms])
  moreover have "data (bufs t i) = blk s n" using holds_data [of t n i] a by (simp add: acquired_def)
  ultimately show ?thesis by (auto simp: acquired_def)
qed

theorem bread_current_witness:
  "\<exists>i t. bread 1 3 demo_cache = Done (i, t) \<and> data (bufs t i) = replicate BSIZE 7 \<and> busy t = {3}"
  using bread_current [of demo_cache 3] by (auto simp: demo_cache_ok layout_defs)

text \<open>
  \<open>bwrite\<close> of a held buffer puts the contents of its block on the disk, as the next and only
  disk write, and changes nothing in the view of the blocks.
\<close>

theorem bwrite_through:
  assumes "binv s" "holds s n i"
  shows "\<exists>t. bwrite i s = Done t \<and> binv t \<and> holds t = holds s \<and> blk t = blk s \<and> dirty t = dirty s - {n} \<and>
    memdisk t = (memdisk s)(unat n := blk s n) \<and> writes t = writes s @ [(unat n, blk s n)]"
  by (rule bwrite_Done [OF assms]) (auto simp: written_def)

definition demo_held :: bio where
  "demo_held = upd_buf 0 (\<lambda>x. x\<lparr>dev := 1, blockno := 5, flags := {B_BUSY, B_VALID}, data := replicate BSIZE 9\<rparr>) demo_cache"

lemma demo_held_ok: "binv demo_held" "holds demo_held 5 0" "writes demo_held = []" "blk demo_held 5 = replicate BSIZE 9"
proof -
  let ?f = "\<lambda>x. x\<lparr>dev := 1, blockno := 5, flags := {B_BUSY, B_VALID}, data := replicate BSIZE 9\<rparr> :: buf"
  have c: "\<not> cached demo_cache n i" for n i
    by (simp add: demo_cache_def binit_uncached)
  show b: "binv demo_held"
    unfolding demo_held_def
    by (rule binv_upd_buf [where f = ?f, OF demo_cache_ok(1)])
      (use c in \<open>auto simp: buf_ok_def demo_cache_ok layout_defs\<close>)
  show h: "holds demo_held 5 0" by (simp add: holds_def cached_def demo_held_def layout_defs)
  show "writes demo_held = []" by (simp add: demo_held_def demo_cache_def binit_fields)
  show "blk demo_held 5 = replicate BSIZE 9" using holds_data [OF b h] by (simp add: demo_held_def)
qed

theorem bwrite_through_witness:
  "\<exists>t. bwrite 0 demo_held = Done t \<and> memdisk t 5 = replicate BSIZE 9 \<and> writes t = [(5, replicate BSIZE 9)]"
  using bwrite_through [OF demo_held_ok(1,2)] by (auto simp: demo_held_ok)

text \<open>
  C20: the cache recycles in least-recently-used order. With the buffers in the order \<open>xs\<close> of
  their last release, \<open>bget\<close> of an uncached block takes the last one of \<open>xs\<close> that is neither busy nor
  dirty, and \<open>brelse\<close> moves the buffer it releases to the front.
\<close>

theorem lru_policy:
  assumes "lru s xs" "\<forall>i. \<not> cached s n i" "b < NBUF"
  shows "bget 1 n s =
      (case find (\<lambda>i. B_BUSY \<notin> flags (bufs s i) \<and> B_DIRTY \<notin> flags (bufs s i)) (rev xs) of
         Some v \<Rightarrow> Done (v, upd_buf v (\<lambda>x. x\<lparr>dev := 1, blockno := n, flags := {B_BUSY}\<rparr>) s)
       | None \<Rightarrow> Panic ''bget: no buffers'') \<and>
    (\<forall>t. brelse b s = Done t \<longrightarrow> lru t (b # remove1 b xs))"
  using bget_recycle [OF assms(1)] brelse_lru [OF assms(1,3)] assms(2) by auto

theorem lru_policy_witness:
  "bget 1 3 demo_cache =
     Done (0, upd_buf 0 (\<lambda>x. x\<lparr>dev := 1, blockno := 3, flags := {B_BUSY}\<rparr>) demo_cache)"
proof -
  have "\<forall>i. \<not> cached demo_cache 3 i"
    by (simp add: demo_cache_def binit_uncached)
  from lru_policy [OF demo_cache_ok(6) this, of 0] show ?thesis
    by (simp add: demo_cache_ok layout_defs upt_conv_Cons)
qed

text \<open>
  A block that some process holds makes a second \<open>bget\<close> of it sleep on that buffer: two
  processes never hold the same block.
\<close>

theorem bget_excludes:
  assumes "binv s" "holds s n i"
  shows "bget 1 n s = Sleep (Chan_Buf i) \<and> (\<forall>j. holds s n j \<longrightarrow> j = i)"
  using bget_sleeps [OF assms(1), of n i] assms(2) holds_unique [OF assms] by (auto simp: holds_def)

theorem bget_excludes_witness: "bget 1 5 demo_held = Sleep (Chan_Buf 0)"
  using bget_excludes [OF demo_held_ok(1,2)] by simp

end
