(* ===== verification/Log.thy ===== *)
theory Log
  imports Bio
begin

text \<open>
  The redo log of \<open>kern/log.c\<close>, over the buffer cache. The state of the log extends the state of
  the cache. \<open>readsb\<close> and the superblock come from \<open>kern/fs.c\<close> and \<open>include/xv6/fs.h\<close>. The lock of the
  log makes each operation atomic with respect to the others, apart from \<open>commit\<close>, which runs while
  \<open>committing\<close> keeps every other operation out.
\<close>

section \<open>State\<close>

record superblock =
  sb_size :: u32
  sb_nblocks :: u32
  sb_ninodes :: u32
  sb_nlog :: u32
  sb_logstart :: u32
  sb_inodestart :: u32
  sb_bmapstart :: u32

record log_state = bio +
  log_start :: u32
  log_size :: int
  outstanding :: int
  committing :: bool
  log_dev :: u32
  lh_n :: int
  lh_block :: "nat \<Rightarrow> u32"

section \<open>Superblock\<close>

definition superblock_of :: "bytes \<Rightarrow> superblock" where
  "superblock_of d = \<lparr>sb_size = get32 0 d, sb_nblocks = get32 4 d, sb_ninodes = get32 8 d,
     sb_nlog = get32 12 d, sb_logstart = get32 16 d, sb_inodestart = get32 20 d,
     sb_bmapstart = get32 24 d\<rparr>"

definition readsb :: "u32 \<Rightarrow> 'a bio_scheme \<Rightarrow> (superblock \<times> 'a bio_scheme) outcome" where
  "readsb d s =
     obind (bread d 1 s) (\<lambda>(bp, s).
       let sb = superblock_of (data (bufs s bp)) in
       obind (brelse bp s) (\<lambda>s. Done (sb, s)))"

section \<open>Copying blocks between the log and their home locations\<close>

text \<open>
  The loops of \<open>install_trans\<close> and \<open>write_log\<close>: \<open>k\<close> more iterations, starting with \<open>tail\<close>.
\<close>

fun install_trans_loop :: "nat \<Rightarrow> nat \<Rightarrow> 'a log_state_scheme \<Rightarrow> 'a log_state_scheme outcome" where
  "install_trans_loop 0 tail s = Done s"
| "install_trans_loop (Suc k) tail s =
     obind (bread (log_dev s) (log_start s + of_nat tail + 1) s) (\<lambda>(lbuf, s).
     obind (bread (log_dev s) (lh_block s tail) s) (\<lambda>(dbuf, s).
       let s = set_data dbuf (data (bufs s lbuf)) s in
     obind (bwrite dbuf s) (\<lambda>s.
     obind (brelse lbuf s) (\<lambda>s.
     obind (brelse dbuf s) (\<lambda>s.
       install_trans_loop k (Suc tail) s)))))"

definition install_trans :: "'a log_state_scheme \<Rightarrow> 'a log_state_scheme outcome" where
  "install_trans s = install_trans_loop (nat (lh_n s)) 0 s"

fun write_log_loop :: "nat \<Rightarrow> nat \<Rightarrow> 'a log_state_scheme \<Rightarrow> 'a log_state_scheme outcome" where
  "write_log_loop 0 tail s = Done s"
| "write_log_loop (Suc k) tail s =
     obind (bread (log_dev s) (log_start s + of_nat tail + 1) s) (\<lambda>(to, s).
     obind (bread (log_dev s) (lh_block s tail) s) (\<lambda>(from, s).
       let s = set_data to (data (bufs s from)) s in
     obind (bwrite to s) (\<lambda>s.
     obind (brelse from s) (\<lambda>s.
     obind (brelse to s) (\<lambda>s.
       write_log_loop k (Suc tail) s)))))"

definition write_log :: "'a log_state_scheme \<Rightarrow> 'a log_state_scheme outcome" where
  "write_log s = write_log_loop (nat (lh_n s)) 0 s"

section \<open>The log header\<close>

text \<open>\<open>struct logheader\<close> as it lies in its block: the count, then the block numbers.\<close>

definition head_n :: "bytes \<Rightarrow> int" where
  "head_n d = sint (get32 0 d)"

definition head_block :: "bytes \<Rightarrow> nat \<Rightarrow> u32" where
  "head_block d i = get32 (4 + 4 * i) d"

definition put_head :: "int \<Rightarrow> (nat \<Rightarrow> u32) \<Rightarrow> bytes \<Rightarrow> bytes" where
  "put_head n bl d = fold (\<lambda>i d. put32 (4 + 4 * i) (bl i) d) [0..<nat n] (put32 0 (of_int n) d)"

definition read_head :: "'a log_state_scheme \<Rightarrow> 'a log_state_scheme outcome" where
  "read_head s =
     obind (bread (log_dev s) (log_start s) s) (\<lambda>(b, s).
       let d = data (bufs s b);
           s = s\<lparr>lh_n := head_n d\<rparr>;
           s = s\<lparr>lh_block := fold (\<lambda>i bl. bl(i := head_block d i)) [0..<nat (lh_n s)] (lh_block s)\<rparr>
       in brelse b s)"

definition write_head :: "'a log_state_scheme \<Rightarrow> 'a log_state_scheme outcome" where
  "write_head s =
     obind (bread (log_dev s) (log_start s) s) (\<lambda>(b, s).
       let s = set_data b (put_head (lh_n s) (lh_block s) (data (bufs s b))) s in
     obind (bwrite b s) (\<lambda>s. brelse b s))"

section \<open>Recovery, commit and the transaction interface\<close>

definition recover_from_log :: "'a log_state_scheme \<Rightarrow> 'a log_state_scheme outcome" where
  "recover_from_log s =
     obind (read_head s) (\<lambda>s.
     obind (install_trans s) (\<lambda>s.
     write_head (s\<lparr>lh_n := 0\<rparr>)))"

definition sizeof_logheader :: nat where
  "sizeof_logheader = 4 + 4 * LOGSIZE"

definition initlog :: "u32 \<Rightarrow> 'a log_state_scheme \<Rightarrow> 'a log_state_scheme outcome" where
  "initlog d s =
     (if sizeof_logheader \<ge> BSIZE then Panic ''initlog: too big logheader''
      else obind (readsb d s) (\<lambda>(sb, s).
        recover_from_log (s\<lparr>log_start := sb_logstart sb, log_size := sint (sb_nlog sb), log_dev := d\<rparr>)))"

definition commit :: "'a log_state_scheme \<Rightarrow> 'a log_state_scheme outcome" where
  "commit s =
     (if lh_n s > 0
      then obind (write_log s) (\<lambda>s.
           obind (write_head s) (\<lambda>s.
           obind (install_trans s) (\<lambda>s.
           write_head (s\<lparr>lh_n := 0\<rparr>))))
      else Done s)"

text \<open>
  \<open>begin_op\<close> sleeps while a commit is running or the log might run out of space; once woken it
  starts over.
\<close>

definition begin_op :: "'a log_state_scheme \<Rightarrow> 'a log_state_scheme outcome" where
  "begin_op s =
     (if committing s then Sleep Chan_Log
      else if lh_n s + (outstanding s + 1) * int MAXOPBLOCKS > int LOGSIZE then Sleep Chan_Log
      else Done (s\<lparr>outstanding := outstanding s + 1\<rparr>))"

definition end_op :: "'a log_state_scheme \<Rightarrow> 'a log_state_scheme outcome" where
  "end_op s =
     (let s = s\<lparr>outstanding := outstanding s - 1\<rparr> in
      if committing s then Panic ''log.committing''
      else if outstanding s = 0
      then obind (commit (s\<lparr>committing := True\<rparr>)) (\<lambda>s. Done (s\<lparr>committing := False\<rparr>))
      else Done s)"

definition log_index :: "'a log_state_scheme \<Rightarrow> u32 \<Rightarrow> nat" where
  "log_index s n =
     (case find (\<lambda>i. lh_block s i = n) [0..<nat (lh_n s)] of Some i \<Rightarrow> i | None \<Rightarrow> nat (lh_n s))"

definition log_write :: "nat \<Rightarrow> 'a log_state_scheme \<Rightarrow> 'a log_state_scheme outcome" where
  "log_write b s =
     (if lh_n s \<ge> int LOGSIZE \<or> lh_n s \<ge> log_size s - 1 then Panic ''too big a transaction''
      else if outstanding s < 1 then Panic ''log_write outside of trans''
      else
        let i = log_index s (blockno (bufs s b));
            s = s\<lparr>lh_block := (lh_block s)(i := blockno (bufs s b))\<rparr>;
            s = (if int i = lh_n s then s\<lparr>lh_n := lh_n s + 1\<rparr> else s)
        in Done (upd_buf b (\<lambda>x. x\<lparr>flags := insert B_DIRTY (flags x)\<rparr>) s))"

section \<open>Log fields under operations of the cache\<close>

lemma log_more:
  assumes "bio.more t = bio.more s"
  shows "log_start t = log_start s" "log_size t = log_size s" "outstanding t = outstanding s"
    "committing t = committing s" "log_dev t = log_dev s" "lh_n t = lh_n s" "lh_block t = lh_block s"
  using assms by (cases s; cases t; simp)+

lemma log_upd_buf [simp]:
  "log_start (upd_buf b f s) = log_start s" "log_size (upd_buf b f s) = log_size s"
  "outstanding (upd_buf b f s) = outstanding s" "committing (upd_buf b f s) = committing s"
  "log_dev (upd_buf b f s) = log_dev s" "lh_n (upd_buf b f s) = lh_n s"
  "lh_block (upd_buf b f s) = lh_block s"
  by (simp_all add: upd_buf_def)

lemma bio_log_update [simp]:
  "binv (s\<lparr>lh_n := v0\<rparr>) = binv s" "busy (s\<lparr>lh_n := v0\<rparr>) = busy s" "dirty (s\<lparr>lh_n := v0\<rparr>) = dirty s"
  "blk (s\<lparr>lh_n := v0\<rparr>) = blk s" "holds (s\<lparr>lh_n := v0\<rparr>) = holds s"
  "binv (s\<lparr>lh_block := v1\<rparr>) = binv s" "busy (s\<lparr>lh_block := v1\<rparr>) = busy s" "dirty (s\<lparr>lh_block := v1\<rparr>) = dirty s"
  "blk (s\<lparr>lh_block := v1\<rparr>) = blk s" "holds (s\<lparr>lh_block := v1\<rparr>) = holds s"
  "binv (s\<lparr>outstanding := v2\<rparr>) = binv s" "busy (s\<lparr>outstanding := v2\<rparr>) = busy s" "dirty (s\<lparr>outstanding := v2\<rparr>) = dirty s"
  "blk (s\<lparr>outstanding := v2\<rparr>) = blk s" "holds (s\<lparr>outstanding := v2\<rparr>) = holds s"
  "binv (s\<lparr>committing := v3\<rparr>) = binv s" "busy (s\<lparr>committing := v3\<rparr>) = busy s" "dirty (s\<lparr>committing := v3\<rparr>) = dirty s"
  "blk (s\<lparr>committing := v3\<rparr>) = blk s" "holds (s\<lparr>committing := v3\<rparr>) = holds s"
  "binv (s\<lparr>log_start := v4\<rparr>) = binv s" "busy (s\<lparr>log_start := v4\<rparr>) = busy s" "dirty (s\<lparr>log_start := v4\<rparr>) = dirty s"
  "blk (s\<lparr>log_start := v4\<rparr>) = blk s" "holds (s\<lparr>log_start := v4\<rparr>) = holds s"
  "binv (s\<lparr>log_size := v5\<rparr>) = binv s" "busy (s\<lparr>log_size := v5\<rparr>) = busy s" "dirty (s\<lparr>log_size := v5\<rparr>) = dirty s"
  "blk (s\<lparr>log_size := v5\<rparr>) = blk s" "holds (s\<lparr>log_size := v5\<rparr>) = holds s"
  "binv (s\<lparr>log_dev := v6\<rparr>) = binv s" "busy (s\<lparr>log_dev := v6\<rparr>) = busy s" "dirty (s\<lparr>log_dev := v6\<rparr>) = dirty s"
  "blk (s\<lparr>log_dev := v6\<rparr>) = blk s" "holds (s\<lparr>log_dev := v6\<rparr>) = holds s"
  by (intro bio_cong; simp)+

section \<open>Invariant of the log\<close>

definition in_log :: "'a log_state_scheme \<Rightarrow> u32 \<Rightarrow> bool" where
  "in_log s n \<longleftrightarrow> unat (log_start s) \<le> unat n \<and> int (unat n) < int (unat (log_start s)) + log_size s"

definition log_geometry :: "'a log_state_scheme \<Rightarrow> bool" where
  "log_geometry s \<longleftrightarrow>
     log_dev s = 1 \<and> 1 \<le> log_size s \<and> log_size s \<le> int LOGSIZE \<and> disksize s < 2 ^ 31 \<and>
     int (unat (log_start s)) + log_size s \<le> int (disksize s)"

definition logged :: "'a log_state_scheme \<Rightarrow> u32 list" where
  "logged s = map (lh_block s) [0..<nat (lh_n s)]"

text \<open>
  Between operations: the in-memory header lists, without repetition, exactly the pinned blocks,
  none of which is a block of the log; the header on disk says that the log is empty.
\<close>

definition linv :: "'a log_state_scheme \<Rightarrow> bool" where
  "linv s \<longleftrightarrow>
     binv s \<and> log_geometry s \<and> 0 \<le> lh_n s \<and> lh_n s < log_size s \<and>
     distinct (logged s) \<and> set (logged s) = dirty s \<and> (\<forall>n\<in>dirty s. \<not> in_log s n) \<and>
     head_n (memdisk s (unat (log_start s))) = 0"

lemma linv_update [simp]:
  "linv (s\<lparr>outstanding := k\<rparr>) = linv s" "linv (s\<lparr>committing := c\<rparr>) = linv s"
  "in_log (s\<lparr>outstanding := k\<rparr>) = in_log s" "in_log (s\<lparr>committing := c\<rparr>) = in_log s"
  by (simp_all add: linv_def log_geometry_def in_log_def logged_def fun_eq_iff)

lemma linvD:
  assumes "linv s"
  shows "binv s" "log_geometry s" "0 \<le> lh_n s" "lh_n s < log_size s" "distinct (logged s)"
    "set (logged s) = dirty s" "n \<in> dirty s \<Longrightarrow> \<not> in_log s n"
    "head_n (memdisk s (unat (log_start s))) = 0"
  using assms unfolding linv_def by blast+

lemma log_block_num:
  assumes "log_geometry s" "int tail + 1 < log_size s"
  shows "unat (log_start s + of_nat tail + 1) = unat (log_start s) + tail + 1"
    "in_log s (log_start s + of_nat tail + 1)" "unat (log_start s + of_nat tail + 1) < disksize s"
proof -
  have "unat (log_start s) + tail + 1 < 2 ^ 31"
    using assms unfolding log_geometry_def by linarith
  then have "unat (log_start s + of_nat (tail + 1)) = unat (log_start s) + (tail + 1)"
    by (intro unat_add_of_nat) simp
  then show u: "unat (log_start s + of_nat tail + 1) = unat (log_start s) + tail + 1"
    by (simp add: ac_simps)
  show "in_log s (log_start s + of_nat tail + 1)" "unat (log_start s + of_nat tail + 1) < disksize s"
    using assms unfolding in_log_def log_geometry_def u by linarith+
qed

lemma logged_card: "linv s \<Longrightarrow> card (dirty s) = nat (lh_n s)"
  using distinct_card [of "logged s"] by (simp add: linv_def logged_def)

lemma logged_room: "linv s \<Longrightarrow> card (dirty s) < NBUF"
  using logged_card [of s] by (auto simp: linv_def log_geometry_def layout_defs)

lemma linv_frame:
  assumes "linv s" "binv t" "dirty t = dirty s" "memdisk t = memdisk s" "disksize t = disksize s"
    "bio.more t = bio.more s"
  shows "linv t"
  using assms log_more [OF assms(6)] by (simp add: linv_def logged_def log_geometry_def in_log_def)

lemma linv_acquired: "linv s \<Longrightarrow> acquired s n i t \<Longrightarrow> linv t"
  using linv_frame [of s t] by (simp add: acquired_def)

lemma linv_released: "linv s \<Longrightarrow> released s n t \<Longrightarrow> linv t"
  using linv_frame [of s t] by (simp add: released_def)

section \<open>Copying one block\<close>

text \<open>
  \<open>stored s ws t\<close>: from \<open>s\<close> to \<open>t\<close> the blocks of \<open>ws\<close> were written through to the disk, in that order,
  and every buffer is released.
\<close>

definition stored :: "'a bio_scheme \<Rightarrow> (u32 \<times> bytes) list \<Rightarrow> 'a bio_scheme \<Rightarrow> bool" where
  "stored s ws t \<longleftrightarrow>
     binv t \<and> busy t = {} \<and> dirty t = dirty s - fst ` set ws \<and> blk t = upds ws (blk s) \<and>
     memdisk t = upds (map (map_prod unat id) ws) (memdisk s) \<and>
     writes t = writes s @ map (map_prod unat id) ws \<and>
     disksize t = disksize s \<and> bio.more t = bio.more s"

abbreviation copied :: "'a bio_scheme \<Rightarrow> u32 \<Rightarrow> bytes \<Rightarrow> 'a bio_scheme \<Rightarrow> bool" where
  "copied s x v t \<equiv> stored s [(x, v)] t"

lemma stored_Nil: "binv s \<Longrightarrow> busy s = {} \<Longrightarrow> stored s [] s"
  by (simp add: stored_def)

lemma stored_append: "stored s ws t \<Longrightarrow> stored t vs u \<Longrightarrow> stored s (ws @ vs) u"
  by (auto simp: stored_def upds_append)

lemma stored_Cons: "copied s x v t \<Longrightarrow> stored t vs u \<Longrightarrow> stored s ((x, v) # vs) u"
  using stored_append [of s "[(x, v)]" t vs u] by simp

lemma set_data_Done:
  assumes "binv s" "holds s n i" "length d = BSIZE"
  obtains t where "set_data i d s = t" "binv t" "holds t = holds s" "busy t = busy s" "dirty t = dirty s"
    "blk t = (blk s)(n := d)" "memdisk t = memdisk s" "disksize t = disksize s" "writes t = writes s"
    "bio.more t = bio.more s"
  using set_data_spec [OF assms] by simp

lemma write_log_step:
  fixes s :: "'a log_state_scheme"
  assumes b: "binv s" "busy s = {}" "card (dirty s) < NBUF" and d: "log_dev s = 1"
    and x: "x = log_start s + of_nat tail + 1" "unat x < disksize s" "x \<notin> dirty s"
    and y: "lh_block s tail \<in> dirty s"
  shows "\<exists>t. copied s x (blk s (lh_block s tail)) t \<and>
    write_log_loop (Suc k) tail s = write_log_loop k (Suc tail) t"
proof -
  let ?y = "lh_block s tail"
  have xy: "x \<noteq> ?y" using x y by auto
  obtain i s1 where r1: "bread 1 x s = Done (i, s1)" and a1: "acquired s x i s1"
    using bread_Done [OF b(1) x(2)] b(2,3) by auto
  have yr: "unat ?y < disksize s1" "?y \<notin> busy s1" "?y \<in> dirty s1"
    using a1 xy y b(2) dirty_range [OF b(1) y] by (auto simp: acquired_def)
  obtain j s2 where r2: "bread 1 ?y s1 = Done (j, s2)" and a2: "acquired s1 ?y j s2"
    using bread_Done [of s1 ?y] a1 yr by (auto simp: acquired_def)
  have h2: "binv s2" "holds s2 ?y j" "holds s2 x i" "blk s2 = blk s" "busy s2 = {?y, x}"
    "dirty s2 = dirty s" "memdisk s2 = memdisk s" "writes s2 = writes s" "disksize s2 = disksize s"
    "bio.more s2 = bio.more s"
    using a1 a2 b(2) by (auto simp: acquired_def)
  have dj: "data (bufs s2 j) = blk s ?y" using holds_data [OF h2(1,2)] h2(4) by simp
  have ly: "length (blk s ?y) = BSIZE" using length_blk [OF b(1) dirty_range [OF b(1) y]] .
  obtain s3 where r3: "set_data i (blk s ?y) s2 = s3" and h3: "binv s3" "holds s3 = holds s2"
    "busy s3 = {?y, x}" "dirty s3 = dirty s" "blk s3 = (blk s)(x := blk s ?y)" "memdisk s3 = memdisk s"
    "disksize s3 = disksize s" "writes s3 = writes s" "bio.more s3 = bio.more s"
    using set_data_Done [OF h2(1,3) ly] h2 by metis
  obtain s4 where r4: "bwrite i s3 = Done s4" and w4: "written s3 x s4"
    using bwrite_Done [OF h3(1), of x i] h3(2) h2(3) by auto
  have h4: "binv s4" "holds s4 = holds s2" "busy s4 = {?y, x}" "dirty s4 = dirty s"
    "blk s4 = (blk s)(x := blk s ?y)" "memdisk s4 = (memdisk s)(unat x := blk s ?y)"
    "writes s4 = writes s @ [(unat x, blk s ?y)]" "disksize s4 = disksize s" "bio.more s4 = bio.more s"
    using w4 h3 x(3) by (auto simp: written_def)
  obtain s5 where r5: "brelse j s4 = Done s5" and w5: "released s4 ?y s5"
    using brelse_Done [OF h4(1), of ?y j] h4(2,4) h2(2) y by auto
  have h5: "holds s5 x i" using w5 h4(2) h2(3) xy by (auto simp: released_def)
  obtain s6 where r6: "brelse i s5 = Done s6" and w6: "released s5 x s6"
    using brelse_Done [OF _ h5] w5 h4(5,6) by (auto simp: released_def)
  have "copied s x (blk s ?y) s6"
    using w5 w6 h4 x(3) xy by (auto simp: stored_def released_def)
  moreover have "write_log_loop (Suc k) tail s = write_log_loop k (Suc tail) s6"
    using d r1 r2 r4 r5 r6 a1 log_more [of s1 s]
    by (simp add: x(1) [symmetric] dj r3 acquired_def)
  ultimately show ?thesis by blast
qed

lemma install_trans_step:
  fixes s :: "'a log_state_scheme"
  assumes b: "binv s" "busy s = {}" "card (dirty s) < NBUF" and d: "log_dev s = 1"
    and x: "x = log_start s + of_nat tail + 1" "unat x < disksize s" "x \<notin> dirty s"
    and y: "y = lh_block s tail" "unat y < disksize s" "y \<noteq> x"
    and room: "y \<in> dirty s \<or> Suc (card (dirty s)) < NBUF"
  shows "\<exists>t. copied s y (blk s x) t \<and> install_trans_loop (Suc k) tail s = install_trans_loop k (Suc tail) t"
proof -
  obtain i s1 where r1: "bread 1 x s = Done (i, s1)" and a1: "acquired s x i s1"
    using bread_Done [OF b(1) x(2)] b(2,3) by auto
  have "finite (dirty s)" using finite_subset [of "dirty s" "{n. unat n < disksize s}"] by simp
  then have yr: "unat y < disksize s1" "y \<notin> busy s1" "y \<in> dirty s1 \<or> card (busy s1 \<union> dirty s1) < NBUF"
    using a1 y b(2) room x(3) by (auto simp: acquired_def)
  obtain j s2 where r2: "bread 1 y s1 = Done (j, s2)" and a2: "acquired s1 y j s2"
    using bread_Done [of s1 y] a1 yr by (auto simp: acquired_def)
  have h2: "binv s2" "holds s2 y j" "holds s2 x i" "blk s2 = blk s" "busy s2 = {y, x}"
    "dirty s2 = dirty s" "memdisk s2 = memdisk s" "writes s2 = writes s" "disksize s2 = disksize s"
    "bio.more s2 = bio.more s"
    using a1 a2 b(2) by (auto simp: acquired_def)
  have dj: "data (bufs s2 i) = blk s x" using holds_data [OF h2(1,3)] h2(4) by simp
  have lx: "length (blk s x) = BSIZE" using length_blk [OF b(1) x(2)] .
  obtain s3 where r3: "set_data j (blk s x) s2 = s3" and h3: "binv s3" "holds s3 = holds s2"
    "busy s3 = {y, x}" "dirty s3 = dirty s" "blk s3 = (blk s)(y := blk s x)" "memdisk s3 = memdisk s"
    "disksize s3 = disksize s" "writes s3 = writes s" "bio.more s3 = bio.more s"
    using set_data_Done [OF h2(1,2) lx] h2 by metis
  obtain s4 where r4: "bwrite j s3 = Done s4" and w4: "written s3 y s4"
    using bwrite_Done [OF h3(1), of y j] h3(2) h2(2) by auto
  have h4: "binv s4" "holds s4 = holds s2" "busy s4 = {y, x}" "dirty s4 = dirty s - {y}"
    "blk s4 = (blk s)(y := blk s x)" "memdisk s4 = (memdisk s)(unat y := blk s x)"
    "writes s4 = writes s @ [(unat y, blk s x)]" "disksize s4 = disksize s" "bio.more s4 = bio.more s"
    using w4 h3 x(3) by (auto simp: written_def)
  have "blk s4 x = memdisk s4 (unat x)"
    using blk_clean [OF b(1) _ x(3)] b(2) h4(5,6) y(3) by (simp add: word_unat_eq_iff)
  then obtain s5 where r5: "brelse i s4 = Done s5" and w5: "released s4 x s5"
    using brelse_Done [OF h4(1), of x i] h4(2) h2(3) by auto
  have h5: "holds s5 y j" using w5 h4(2) h2(2) y(3) by (auto simp: released_def)
  obtain s6 where r6: "brelse j s5 = Done s6" and w6: "released s5 y s6"
    using brelse_Done [OF _ h5] w5 h4(5,6) by (auto simp: released_def)
  have "copied s y (blk s x) s6"
    using w5 w6 h4 x(3) y by (auto simp: stored_def released_def)
  moreover have "install_trans_loop (Suc k) tail s = install_trans_loop k (Suc tail) s6"
    using d r1 r2 r4 r5 r6 a1 log_more [of s1 s]
    by (simp add: x(1) [symmetric] y(1) [symmetric] dj r3 acquired_def)
  ultimately show ?thesis by blast
qed

section \<open>The two loops\<close>

definition log_ws :: "'a log_state_scheme \<Rightarrow> nat list \<Rightarrow> (u32 \<times> bytes) list" where
  "log_ws s is = map (\<lambda>i. (log_start s + of_nat i + 1, blk s (lh_block s i))) is"

definition home_ws :: "'a log_state_scheme \<Rightarrow> nat list \<Rightarrow> (u32 \<times> bytes) list" where
  "home_ws s is = map (\<lambda>i. (lh_block s i, blk s (log_start s + of_nat i + 1))) is"

lemma ws_Cons:
  "log_ws s (i # is) = (log_start s + of_nat i + 1, blk s (lh_block s i)) # log_ws s is"
  "home_ws s (i # is) = (lh_block s i, blk s (log_start s + of_nat i + 1)) # home_ws s is"
  by (simp_all add: log_ws_def home_ws_def)

lemma stored_log:
  assumes "stored s ws t"
  shows "log_start t = log_start s" "log_size t = log_size s" "outstanding t = outstanding s"
    "committing t = committing s" "log_dev t = log_dev s" "lh_n t = lh_n s" "lh_block t = lh_block s"
    "log_geometry t = log_geometry s" "in_log t = in_log s"
  using assms log_more [of t s] by (auto simp: stored_def log_geometry_def in_log_def fun_eq_iff)

lemma write_log_loop_stored:
  assumes "binv s" "busy s = {}" "card (dirty s) < NBUF" "log_geometry s"
    "int (tail + k) < log_size s" "\<And>i. i < tail + k \<Longrightarrow> lh_block s i \<in> dirty s"
    "\<And>n. n \<in> dirty s \<Longrightarrow> \<not> in_log s n"
  shows "\<exists>t. write_log_loop k tail s = Done t \<and> stored s (log_ws s [tail..<tail + k]) t"
  using assms
proof (induction k arbitrary: tail s)
  case 0
  then show ?case by (simp add: stored_Nil log_ws_def)
next
  case (Suc k)
  let ?x = "log_start s + of_nat tail + 1" and ?v = "blk s (lh_block s tail)"
  have x: "unat ?x < disksize s" "in_log s ?x"
    using log_block_num [of s tail] Suc.prems(4,5) by auto
  then have xd: "?x \<notin> dirty s" using Suc.prems(7) by blast
  obtain t where t: "copied s ?x ?v t" "write_log_loop (Suc k) tail s = write_log_loop k (Suc tail) t"
    using write_log_step [OF Suc.prems(1-3) _ refl x(1) xd Suc.prems(6) [of tail]] Suc.prems(4)
    by (auto simp: log_geometry_def)
  note l = stored_log [OF t(1)]
  have d: "dirty t = dirty s" using t(1) xd by (simp add: stored_def)
  obtain u where u: "write_log_loop k (Suc tail) t = Done u" "stored t (log_ws t [Suc tail..<Suc tail + k]) u"
    using Suc.IH [of t "Suc tail"] Suc.prems t(1) l d by (auto simp: stored_def)
  have "\<And>i. i < Suc tail + k \<Longrightarrow> lh_block s i \<noteq> ?x" using Suc.prems(6) xd by force
  then have "log_ws t [Suc tail..<Suc tail + k] = log_ws s [Suc tail..<Suc tail + k]"
    using t(1) by (auto simp: log_ws_def l stored_def)
  moreover have "[tail..<tail + Suc k] = tail # [Suc tail..<Suc tail + k]"
    by (simp add: upt_conv_Cons)
  ultimately show ?case
    using t(2) u stored_Cons [OF t(1)] by (metis ws_Cons(1))
qed

lemma install_trans_loop_stored:
  assumes "binv s" "busy s = {}" "card (dirty s) < NBUF" "log_geometry s"
    "int (tail + k) < log_size s" "\<And>n. n \<in> dirty s \<Longrightarrow> \<not> in_log s n"
    "\<And>i. i < tail + k \<Longrightarrow> unat (lh_block s i) < disksize s \<and> \<not> in_log s (lh_block s i)"
    "Suc (card (dirty s)) < NBUF \<or>
     distinct (map (lh_block s) [tail..<tail + k]) \<and> lh_block s ` {tail..<tail + k} \<subseteq> dirty s"
  shows "\<exists>t. install_trans_loop k tail s = Done t \<and> stored s (home_ws s [tail..<tail + k]) t"
  using assms
proof (induction k arbitrary: tail s)
  case 0
  then show ?case by (simp add: stored_Nil home_ws_def)
next
  case (Suc k)
  let ?x = "log_start s + of_nat tail + 1" and ?y = "lh_block s tail"
  have x: "unat ?x < disksize s" "in_log s ?x"
    using log_block_num [of s tail] Suc.prems(4,5) by auto
  then have xd: "?x \<notin> dirty s" using Suc.prems(6) by blast
  have y: "unat ?y < disksize s" "\<not> in_log s ?y" "?y \<noteq> ?x" using Suc.prems(7) [of tail] x(2) by auto
  have upt: "[tail..<tail + Suc k] = tail # [Suc tail..<Suc tail + k]"
    by (simp add: upt_conv_Cons)
  have room: "?y \<in> dirty s \<or> Suc (card (dirty s)) < NBUF"
    using Suc.prems(8) by auto
  obtain t where t: "copied s ?y (blk s ?x) t"
    "install_trans_loop (Suc k) tail s = install_trans_loop k (Suc tail) t"
    using install_trans_step [OF Suc.prems(1-3) _ refl x(1) xd refl y(1,3) room] Suc.prems(4)
    by (auto simp: log_geometry_def)
  note l = stored_log [OF t(1)]
  have fin: "finite (dirty s)" using finite_subset [of "dirty s" "UNIV :: u32 set"] by simp
  have d: "dirty t = dirty s - {?y}" "disksize t = disksize s" using t(1) by (simp_all add: stored_def)
  have c: "card (dirty t) \<le> card (dirty s)" using card_mono [OF fin, of "dirty t"] d by auto
  have r: "Suc (card (dirty t)) < NBUF \<or>
     distinct (map (lh_block t) [Suc tail..<Suc tail + k]) \<and> lh_block t ` {Suc tail..<Suc tail + k} \<subseteq> dirty t"
    using Suc.prems(8)
  proof
    assume "distinct (map (lh_block s) [tail..<tail + Suc k]) \<and> lh_block s ` {tail..<tail + Suc k} \<subseteq> dirty s"
    then have "lh_block s tail \<notin> lh_block s ` {Suc tail..<Suc tail + k}"
      "distinct (map (lh_block s) [Suc tail..<Suc tail + k])" "lh_block s ` {tail..<tail + Suc k} \<subseteq> dirty s"
      unfolding upt by (simp_all del: upt_Suc)
    moreover have "{Suc tail..<Suc tail + k} \<subseteq> {tail..<tail + Suc k}" by auto
    ultimately show ?thesis unfolding l d by blast
  qed (use c in simp)
  obtain u where u: "install_trans_loop k (Suc tail) t = Done u"
    "stored t (home_ws t [Suc tail..<Suc tail + k]) u"
    using Suc.IH [of t "Suc tail", OF _ _ _ _ _ _ _ r] Suc.prems(3-7) t(1) l d c by (auto simp: stored_def)
  have "log_start s + of_nat i + 1 \<noteq> ?y" if "i < Suc tail + k" for i
  proof -
    have "int i + 1 < log_size s" using that Suc.prems(5) by simp
    from log_block_num(2) [OF Suc.prems(4) this] show ?thesis using y(2) by auto
  qed
  then have "home_ws t [Suc tail..<Suc tail + k] = home_ws s [Suc tail..<Suc tail + k]"
    using t(1) by (auto simp: home_ws_def l stored_def)
  then show ?case
    using t(2) u stored_Cons [OF t(1)] upt by (metis ws_Cons(2))
qed

section \<open>The header on disk\<close>

lemma length_put_head_fold:
  "4 + 4 * n \<le> length d \<Longrightarrow> length (fold (\<lambda>i d. put32 (4 + 4 * i) (bl i) d) [0..<n] d) = length d"
  by (induction n) (simp_all add: length_put32)

lemma get32_put_head_fold:
  assumes "4 + 4 * n \<le> length d"
  shows "get32 0 (fold (\<lambda>i d. put32 (4 + 4 * i) (bl i) d) [0..<n] d) = get32 0 d"
    "i < n \<Longrightarrow> get32 (4 + 4 * i) (fold (\<lambda>i d. put32 (4 + 4 * i) (bl i) d) [0..<n] d) = bl i"
  using assms
proof (induction n)
  case (Suc n)
  note [simp] = length_put_head_fold
  {
    case 1
    then show ?case using Suc.IH by (simp add: get32_put32_other)
  next
    case 2
    then show ?case
      using Suc.IH by (cases "i = n") (simp_all add: get32_put32_other get32_put32_same)
  }
qed simp_all

lemma put_head_ok:
  assumes "0 \<le> n" "n < 2 ^ 31" "4 + 4 * nat n \<le> length d"
  shows "length (put_head n bl d) = length d" "head_n (put_head n bl d) = n"
    "i < nat n \<Longrightarrow> head_block (put_head n bl d) i = bl i"
proof -
  have l: "length (put32 0 (of_int n) d) = length d" using assms by (simp add: length_put32)
  note f = length_put_head_fold [of "nat n" "put32 0 (of_int n) d" bl]
    get32_put_head_fold [of "nat n" "put32 0 (of_int n) d"]
  show "length (put_head n bl d) = length d" using f(1) l assms by (simp add: put_head_def)
  have "sint (of_int n :: u32) = n" using assms by (simp add: sint_word_of_int_eq)
  then show "head_n (put_head n bl d) = n"
    using f(2) l assms by (simp add: put_head_def head_n_def get32_put32_same)
  show "i < nat n \<Longrightarrow> head_block (put_head n bl d) i = bl i"
    using f(3) l assms by (simp add: put_head_def head_block_def)
qed

lemma write_head_stored:
  fixes s :: "'a log_state_scheme"
  assumes b: "binv s" "busy s = {}" "card (dirty s) < NBUF" and g: "log_geometry s"
    and n: "0 \<le> lh_n s" "lh_n s \<le> int LOGSIZE" and d: "\<And>n. n \<in> dirty s \<Longrightarrow> \<not> in_log s n"
  defines "h \<equiv> put_head (lh_n s) (lh_block s) (blk s (log_start s))"
  shows "\<exists>t. write_head s = Done t \<and> copied s (log_start s) h t"
proof -
  let ?x = "log_start s"
  have x: "unat ?x < disksize s" "log_dev s = 1" using g unfolding log_geometry_def by linarith+
  have "in_log s ?x" using g by (simp add: in_log_def log_geometry_def)
  then have xd: "?x \<notin> dirty s" using d by blast
  obtain i s1 where r1: "bread 1 ?x s = Done (i, s1)" and a1: "acquired s ?x i s1"
    using bread_Done [OF b(1) x(1)] b(2,3) by auto
  have h1: "binv s1" "holds s1 ?x i" using a1 by (auto simp: acquired_def)
  have dj: "data (bufs s1 i) = blk s ?x" using holds_data [OF h1] a1 by (simp add: acquired_def)
  have "length (blk s ?x) = BSIZE" using length_blk [OF b(1) x(1)] .
  then have "length h = BSIZE"
    using put_head_ok(1) [of "lh_n s" "blk s ?x"] n by (simp add: h_def layout_defs)
  from set_data_Done [OF h1 this] obtain s2 where r2: "set_data i h s1 = s2"
    and h2: "binv s2" "holds s2 = holds s1" "busy s2 = busy s1" "dirty s2 = dirty s1"
    "blk s2 = (blk s1)(?x := h)" "memdisk s2 = memdisk s1" "disksize s2 = disksize s1"
    "writes s2 = writes s1" "bio.more s2 = bio.more s1" by metis
  obtain s3 where r3: "bwrite i s2 = Done s3" and w3: "written s2 ?x s3"
    using bwrite_Done [OF h2(1), of ?x i] h2(2) h1(2) by auto
  obtain s4 where r4: "brelse i s3 = Done s4" and w4: "released s3 ?x s4"
    using brelse_Done [of s3 ?x i] w3 h2 h1(2) by (auto simp: written_def)
  have "copied s ?x h s4"
    using w3 w4 h2 a1 b(2) by (auto simp: stored_def written_def released_def acquired_def)
  moreover have "write_head s = Done s4"
    using r1 r2 r3 r4 x(2) log_more [of s1 s] a1
    by (simp add: write_head_def dj h_def [symmetric] acquired_def)
  ultimately show ?thesis by blast
qed

section \<open>Commit\<close>

text \<open>The blocks a commit writes, in order: the log, the header, the home locations, the empty header.\<close>

definition commit_header :: "'a log_state_scheme \<Rightarrow> bytes" where
  "commit_header s = put_head (lh_n s) (lh_block s) (blk s (log_start s))"

definition commit_ws :: "'a log_state_scheme \<Rightarrow> (u32 \<times> bytes) list" where
  "commit_ws s =
     log_ws s [0..<nat (lh_n s)] @ [(log_start s, commit_header s)] @
     map (\<lambda>n. (n, blk s n)) (logged s) @ [(log_start s, put_head 0 (lh_block s) (commit_header s))]"

lemma more_lh_n:
  "bio.more t = bio.more s \<Longrightarrow> bio.more (t\<lparr>lh_n := v\<rparr>) = bio.more (s\<lparr>lh_n := v\<rparr>)"
  by (cases s; cases t) simp

lemma stored_lh_n: "stored s ws t \<Longrightarrow> stored (s\<lparr>lh_n := v\<rparr>) ws (t\<lparr>lh_n := v\<rparr>)"
  using more_lh_n [of t s] by (simp add: stored_def)

lemma log_ws_keys:
  assumes "linv s"
  shows "fst ` set (log_ws s [0..<nat (lh_n s)]) \<subseteq> {n. in_log s n \<and> n \<noteq> log_start s}"
    "inj_on (\<lambda>i. log_start s + of_nat i + 1) {0..<nat (lh_n s)}"
proof -
  have r: "int i + 1 < log_size s" if "i < nat (lh_n s)" for i using that linvD(3,4) [OF assms] by linarith
  note u = log_block_num [OF linvD(2) [OF assms] r]
  show "fst ` set (log_ws s [0..<nat (lh_n s)]) \<subseteq> {n. in_log s n \<and> n \<noteq> log_start s}"
  proof
    fix n assume "n \<in> fst ` set (log_ws s [0..<nat (lh_n s)])"
    then obtain i where i: "i < nat (lh_n s)" "n = log_start s + of_nat i + 1" by (auto simp: log_ws_def)
    have "unat n \<noteq> unat (log_start s)" unfolding i(2) u(1) [OF i(1)] by simp
    then have "n \<noteq> log_start s" by metis
    with u(2) [OF i(1), folded i(2)] show "n \<in> {n. in_log s n \<and> n \<noteq> log_start s}" by simp
  qed
  show "inj_on (\<lambda>i. log_start s + of_nat i + 1) {0..<nat (lh_n s)}"
  proof (rule inj_onI)
    fix i j assume ij: "i \<in> {0..<nat (lh_n s)}" "j \<in> {0..<nat (lh_n s)}"
      and "log_start s + of_nat i + 1 = log_start s + of_nat j + 1"
    then have "unat (log_start s + of_nat i + 1) = unat (log_start s + of_nat j + 1)" by (simp only:)
    then show "i = j" using ij unfolding atLeastLessThan_iff by (simp only: u(1))
  qed
qed

lemma in_log_start: "log_geometry s \<Longrightarrow> in_log s (log_start s)"
  by (simp add: in_log_def log_geometry_def)

lemma commit_stored:
  fixes s :: "'a log_state_scheme"
  assumes l: "linv s" and b: "busy s = {}" and n: "0 < lh_n s"
  shows "\<exists>t. commit s = Done t \<and> stored (s\<lparr>lh_n := 0\<rparr>) (commit_ws s) t"
proof -
  let ?is = "[0..<nat (lh_n s)]" and ?x = "log_start s"
  note li = linvD [OF l] and keys = log_ws_keys [OF l]
  have mem: "lh_block s i \<in> dirty s" if "i < nat (lh_n s)" for i
    using that li(6) by (auto simp: logged_def)
  then have sub: "lh_block s ` {0..<nat (lh_n s)} \<subseteq> dirty s" by auto
  have nL: "lh_n s \<le> int LOGSIZE" using li(2,4) by (simp add: log_geometry_def)
  have xl: "in_log s ?x" by (rule in_log_start [OF li(2)])
  obtain s1 where r1: "write_log s = Done s1" and w1: "stored s (log_ws s ?is) s1"
    using write_log_loop_stored [OF li(1) b logged_room [OF l] li(2), of 0 "nat (lh_n s)"] li(3,4,7) mem
    by (auto simp: write_log_def)
  note l1 = stored_log [OF w1]
  have d1: "dirty s1 = dirty s" using w1 keys(1) li(7) by (auto simp: stored_def)
  have x1: "blk s1 ?x = blk s ?x" using w1 keys(1) by (auto simp: stored_def intro!: upds_other)
  have p1: "binv s1" "busy s1 = {}" using w1 by (auto simp: stored_def)
  obtain s2 where r2: "write_head s1 = Done s2" and w2: "copied s1 ?x (commit_header s) s2"
    using write_head_stored [OF p1] logged_room [OF l] li(2,3,7) nL
    by (auto simp: l1 d1 x1 commit_header_def)
  note l2 = stored_log [OF w2]
  have d2: "dirty s2 = dirty s" using w2 d1 xl li(7) by (auto simp: stored_def)
  have p2: "binv s2" "busy s2 = {}" "disksize s2 = disksize s" using w1 w2 by (auto simp: stored_def)
  obtain s3 where r3: "install_trans s2 = Done s3" and w3': "stored s2 (home_ws s2 ?is) s3"
    using install_trans_loop_stored [OF p2(1,2), of 0 "nat (lh_n s)"] logged_room [OF l] li(2-5,7) mem
      dirty_range [OF li(1)] sub
    by (auto simp: install_trans_def l1 l2 d2 p2 logged_def)
  have "blk s2 (log_start s + of_nat i + 1) = blk s (lh_block s i)" if "i < nat (lh_n s)" for i
  proof -
    have "log_start s + of_nat i + 1 \<in> fst ` set (log_ws s ?is)" using that by (simp add: log_ws_def image_image)
    then have "log_start s + of_nat i + 1 \<noteq> ?x" using keys(1) by blast
    then show ?thesis
      using w1 w2 upds_map [of i ?is "\<lambda>i. log_start s + of_nat i + 1"] that keys(2)
      by (simp add: stored_def log_ws_def)
  qed
  then have "home_ws s2 ?is = map (\<lambda>n. (n, blk s n)) (logged s)"
    by (simp add: home_ws_def l1 l2 logged_def)
  with w3' have w3: "stored s2 (map (\<lambda>n. (n, blk s n)) (logged s)) s3" by simp
  note l3 = stored_log [OF w3]
  have nl: "\<not> in_log s y" if "y \<in> set (logged s)" for y using that li(6,7) by blast
  have d3: "dirty s3 = {}" using w3 d2 li(6) by (auto simp: stored_def image_image)
  have "?x \<notin> set (logged s)" using nl xl by blast
  then have x3: "blk s3 ?x = commit_header s"
    using w2 w3 upds_other [of ?x "map (\<lambda>n. (n, blk s n)) (logged s)"]
    by (auto simp: stored_def image_image)
  have g3: "log_geometry (s3\<lparr>lh_n := 0\<rparr>)" using li(2) l1 l2 l3 by (simp add: log_geometry_def stored_log)
  obtain t where r4: "write_head (s3\<lparr>lh_n := 0\<rparr>) = Done t"
    and w4: "copied (s3\<lparr>lh_n := 0\<rparr>) ?x (put_head 0 (lh_block s) (commit_header s)) t"
    using write_head_stored [OF _ _ _ g3] w3 by (auto simp: l1 l2 l3 d3 x3 stored_def layout_defs)
  have "stored (s\<lparr>lh_n := 0\<rparr>) (commit_ws s) t"
    unfolding commit_ws_def
    by (intro stored_append [OF stored_lh_n [OF w1]] stored_append [OF stored_lh_n [OF w2]]
        stored_append [OF stored_lh_n [OF w3]] w4)
  moreover have "commit s = Done t"
    using n r1 r2 r3 r4 by (simp add: commit_def)
  ultimately show ?thesis by blast
qed

section \<open>Writes of a transaction\<close>

text \<open>\<open>room s k\<close>: the transaction may still log \<open>k\<close> blocks that are not in the log yet.\<close>

definition room :: "'a log_state_scheme \<Rightarrow> nat \<Rightarrow> bool" where
  "room s k \<longleftrightarrow> lh_n s + int k < log_size s"

definition logged_write :: "'a log_state_scheme \<Rightarrow> u32 \<Rightarrow> 'a log_state_scheme \<Rightarrow> bool" where
  "logged_write s n t \<longleftrightarrow>
     linv t \<and> holds t = holds s \<and> busy t = busy s \<and> dirty t = insert n (dirty s) \<and> blk t = blk s \<and>
     memdisk t = memdisk s \<and> disksize t = disksize s \<and> writes t = writes s \<and>
     log_start t = log_start s \<and> log_size t = log_size s \<and> log_dev t = log_dev s \<and>
     outstanding t = outstanding s \<and> committing t = committing s \<and>
     lh_n t = lh_n s + (if n \<in> dirty s then 0 else 1) \<and> log_state.more t = log_state.more s"

lemma log_index_logged:
  assumes "0 \<le> lh_n s"
  shows "if n \<in> set (logged s) then log_index s n < nat (lh_n s) \<and> lh_block s (log_index s n) = n
         else log_index s n = nat (lh_n s)"
proof (cases "find (\<lambda>i. lh_block s i = n) [0..<nat (lh_n s)]")
  case None
  then have "log_index s n = nat (lh_n s)" by (simp add: log_index_def)
  moreover have "n \<notin> set (logged s)" using None by (auto simp: logged_def find_None_iff)
  ultimately show ?thesis by simp
next
  case (Some i)
  then have "i < nat (lh_n s)" "lh_block s i = n" by (auto dest: find_SomeD)
  then show ?thesis using Some by (auto simp: log_index_def logged_def)
qed

lemma log_write_logged:
  fixes s :: "'a log_state_scheme"
  assumes l: "linv s" and h: "holds s n i" and o: "1 \<le> outstanding s" and nl: "\<not> in_log s n"
    and rm: "room s 1"
  shows "\<exists>t. log_write i s = Done t \<and> logged_write s n t"
proof -
  note li = linvD [OF l]
  let ?f = "\<lambda>x. x\<lparr>flags := insert B_DIRTY (flags x)\<rparr>" and ?j = "log_index s n"
  define u where "u = s\<lparr>lh_block := (lh_block s)(?j := n)\<rparr>"
  define v where "v = (if int ?j = lh_n s then u\<lparr>lh_n := lh_n u + 1\<rparr> else u)"
  have bn: "blockno (bufs s i) = n" using h by (simp add: holds_def cached_def)
  have cv: "binv v" "holds v = holds s" "busy v = busy s" "dirty v = dirty s" "blk v = blk s"
    "bufs v = bufs s" "memdisk v = memdisk s" "disksize v = disksize s" "writes v = writes s"
    "log_start v = log_start s" "log_size v = log_size s" "log_dev v = log_dev s"
    "outstanding v = outstanding s" "committing v = committing s" "log_state.more v = log_state.more s"
    using li(1) by (simp_all add: v_def u_def)
  have hv: "holds v n i" using h cv by simp
  have fl: "{B_BUSY, B_VALID} \<subseteq> flags (?f (bufs v i))" "length (data (?f (bufs v i))) = BSIZE"
    using hv holds_index [OF hv] binvD(3) [OF cv(1)] by (auto simp: holds_def buf_ok_def)
  define t where "t = upd_buf i ?f v"
  note up = held_upd [where f = ?f, OF cv(1) hv _ _ _ _ fl]
  have tv: "binv t" "holds t = holds s" "busy t = busy s" "dirty t = insert n (dirty s)" "blk t = blk s"
    using up holds_data [OF cv(1) hv] cv by (simp_all add: t_def)
  have lg: "logged t = (if n \<in> dirty s then logged s else logged s @ [n])"
    "lh_n t = lh_n s + (if n \<in> dirty s then 0 else 1)"
    using log_index_logged [OF li(3), of n] li(3,6)
    by (auto simp: t_def v_def u_def logged_def nat_add_distrib)
  have fr: "log_start t = log_start s" "log_size t = log_size s" "memdisk t = memdisk s" "disksize t = disksize s"
    "log_dev t = log_dev s" "writes t = writes s" "outstanding t = outstanding s" "committing t = committing s"
    "log_state.more t = log_state.more s"
    using cv by (simp_all add: t_def upd_buf_def)
  have "linv t"
    unfolding linv_def using tv(1,4) lg fr li nl rm
    by (auto simp: log_geometry_def in_log_def room_def)
  then have "logged_write s n t" unfolding logged_write_def using tv lg fr by simp
  moreover have "log_write i s = Done t"
    using o rm li(2) by (auto simp: log_write_def bn t_def v_def u_def room_def log_geometry_def Let_def)
  ultimately show ?thesis by blast
qed

lemma log_write_errors:
  "lh_n s \<ge> log_size s - 1 \<Longrightarrow> log_write i s = Panic ''too big a transaction''"
  "room s 1 \<Longrightarrow> lh_n s < int LOGSIZE \<Longrightarrow> outstanding s < 1 \<Longrightarrow>
   log_write i s = Panic ''log_write outside of trans''"
  by (simp_all add: log_write_def room_def)

end
