(* ===== verification/Recovery.thy ===== *)
theory Recovery
  imports Log
begin

text \<open>
  Crash recovery of \<open>kern/log.c\<close>: what \<open>initlog\<close> makes of the disk it finds, and the atomicity of a
  commit with respect to a crash between any two of its disk writes.
\<close>

section \<open>Reading the superblock and the header\<close>

lemma readsb_stored:
  assumes b: "binv s" "busy s = {}" "dirty s = {}" and r: "1 < disksize s"
  shows "\<exists>t. readsb 1 s = Done (superblock_of (blk s 1), t) \<and> stored s [] t"
proof -
  obtain i s1 where r1: "bread 1 1 s = Done (i, s1)" and a1: "acquired s 1 i s1"
    using bread_Done [OF b(1), of 1] b(2,3) r by (auto simp: layout_defs)
  have h1: "binv s1" "holds s1 1 i" using a1 by (auto simp: acquired_def)
  have dj: "data (bufs s1 i) = blk s 1" using holds_data [OF h1] a1 by (simp add: acquired_def)
  have "blk s1 1 = memdisk s1 (unat 1)" using blk_clean [OF b(1), of 1] a1 b by (simp add: acquired_def)
  then obtain s2 where r2: "brelse i s1 = Done s2" and w2: "released s1 1 s2"
    using brelse_Done [OF h1] by auto
  have "stored s [] s2" using a1 w2 b by (auto simp: stored_def acquired_def released_def)
  moreover have "readsb 1 s = Done (superblock_of (blk s 1), s2)"
    using r1 r2 by (simp add: readsb_def dj)
  ultimately show ?thesis by blast
qed

lemma fold_fun_upd: "fold (\<lambda>i f. f(i := g i)) [0..<n] f = (\<lambda>i. if i < n then g i else f i)"
  by (induction n) (auto simp: fun_eq_iff less_Suc_eq)

text \<open>The log fields as the header on disk sets them.\<close>

definition with_header :: "bytes \<Rightarrow> 'a log_state_scheme \<Rightarrow> 'a log_state_scheme" where
  "with_header h s = s\<lparr>lh_n := head_n h, lh_block := (\<lambda>i. if i < nat (head_n h) then head_block h i else lh_block s i)\<rparr>"

lemma with_header_simps [simp]:
  "binv (with_header h s) = binv s" "busy (with_header h s) = busy s" "dirty (with_header h s) = dirty s"
  "blk (with_header h s) = blk s" "holds (with_header h s) = holds s"
  "memdisk (with_header h s) = memdisk s" "disksize (with_header h s) = disksize s"
  "writes (with_header h s) = writes s" "lh_n (with_header h s) = head_n h"
  "log_start (with_header h s) = log_start s" "log_size (with_header h s) = log_size s"
  "outstanding (with_header h s) = outstanding s" "committing (with_header h s) = committing s"
  "log_dev (with_header h s) = log_dev s"
  "in_log (with_header h s) = in_log s" "log_geometry (with_header h s) = log_geometry s"
  "lh_block (with_header h s) i = (if i < nat (head_n h) then head_block h i else lh_block s i)"
  by (simp_all add: with_header_def in_log_def log_geometry_def fun_eq_iff)

lemma with_header_more: "bio.more t = bio.more s \<Longrightarrow> bio.more (with_header h t) = bio.more (with_header h s)"
  by (cases s; cases t) (simp add: with_header_def cong: if_cong)

lemma read_head_stored:
  fixes s :: "'a log_state_scheme"
  assumes b: "binv s" "busy s = {}" "dirty s = {}" and g: "log_geometry s"
  shows "\<exists>t. read_head s = Done t \<and> stored (with_header (blk s (log_start s)) s) [] t"
proof -
  let ?x = "log_start s"
  have x: "unat ?x < disksize s" "log_dev s = 1" using g unfolding log_geometry_def by linarith+
  obtain i s1 where r1: "bread 1 ?x s = Done (i, s1)" and a1: "acquired s ?x i s1"
    using bread_Done [OF b(1) x(1)] b(2,3) by (auto simp: layout_defs)
  have h1: "binv s1" "holds s1 ?x i" using a1 by (auto simp: acquired_def)
  have dj: "data (bufs s1 i) = blk s ?x" using holds_data [OF h1] a1 by (simp add: acquired_def)
  let ?s2 = "with_header (blk s ?x) s1"
  have "blk ?s2 ?x = memdisk ?s2 (unat ?x)" using blk_clean [OF b(1), of ?x] a1 b by (simp add: acquired_def)
  then obtain s3 where r3: "brelse i ?s2 = Done s3" and w3: "released ?s2 ?x s3"
    using brelse_Done [of ?s2 ?x i] h1 by auto
  have "stored (with_header (blk s ?x) s) [] s3"
    using a1 w3 b with_header_more [of s1 s] by (auto simp: stored_def acquired_def released_def)
  moreover have "read_head s = Done s3"
    using r1 r3 x(2) by (simp add: read_head_def dj with_header_def fold_fun_upd Let_def cong: if_cong)
  ultimately show ?thesis by blast
qed

section \<open>Recovery\<close>

text \<open>A header that recovery can act on: a count that fits the log and home blocks outside it.\<close>

definition header_ok :: "'a log_state_scheme \<Rightarrow> bytes \<Rightarrow> bool" where
  "header_ok s h \<longleftrightarrow>
     0 \<le> head_n h \<and> head_n h < log_size s \<and>
     (\<forall>i<nat (head_n h). unat (head_block h i) < disksize s \<and> \<not> in_log s (head_block h i))"

definition replay :: "bytes \<Rightarrow> u32 \<Rightarrow> (u32 \<Rightarrow> bytes) \<Rightarrow> u32 \<Rightarrow> bytes" where
  "replay h start B = upds (map (\<lambda>i. (head_block h i, B (start + of_nat i + 1))) [0..<nat (head_n h)]) B"

lemma recover_from_log_view:
  fixes s :: "'a log_state_scheme"
  assumes b: "binv s" "busy s = {}" "dirty s = {}" and g: "log_geometry s"
    and h: "h = blk s (log_start s)" "header_ok s h"
  shows "\<exists>t. recover_from_log s = Done t \<and> linv t \<and> busy t = {} \<and> dirty t = {} \<and> lh_n t = 0 \<and>
    log_start t = log_start s \<and> log_size t = log_size s \<and> disksize t = disksize s \<and>
    outstanding t = outstanding s \<and> committing t = committing s \<and>
    (\<forall>n. \<not> in_log s n \<longrightarrow> blk t n = replay h (log_start s) (blk s) n)"
proof -
  let ?x = "log_start s" and ?n = "nat (head_n h)"
  obtain s1 where r1: "read_head s = Done s1" and w1: "stored (with_header h s) [] s1"
    using read_head_stored [OF b g] h(1) by auto
  note l1 = stored_log [OF w1]
  have p1: "binv s1" "busy s1 = {}" "dirty s1 = {}" "disksize s1 = disksize s" "blk s1 = blk s"
    using w1 b by (auto simp: stored_def)
  obtain s2 where r2: "install_trans s1 = Done s2" and w2: "stored s1 (home_ws s1 [0..<?n]) s2"
    using install_trans_loop_stored [OF p1(1,2), of 0 ?n] g h(2)
    by (auto simp: install_trans_def l1 p1 header_ok_def layout_defs)
  note l2 = stored_log [OF w2]
  have p2: "binv s2" "busy s2 = {}" "dirty s2 = {}" "disksize s2 = disksize s"
    using w2 p1 by (auto simp: stored_def)
  have g2: "log_geometry (s2\<lparr>lh_n := 0\<rparr>)" using g l1 l2 by (simp add: log_geometry_def stored_log p2)
  obtain t e where r3: "write_head (s2\<lparr>lh_n := 0\<rparr>) = Done t" and w3: "copied (s2\<lparr>lh_n := 0\<rparr>) ?x e t"
    and e: "e = put_head 0 (lh_block s2) (blk s2 ?x)"
    using write_head_stored [OF _ _ _ g2] by (auto simp: l1 l2 p2 layout_defs)
  note l3 = stored_log [OF w3]
  have "unat ?x < disksize s" using g unfolding log_geometry_def by linarith
  then have "length (blk s2 ?x) = BSIZE" using length_blk [OF p2(1)] p2(4) by simp
  then have e0: "head_n e = 0" using put_head_ok(2) [of 0 "blk s2 ?x"] by (simp add: e layout_defs)
  have t: "binv t" "busy t = {}" "dirty t = {}" "disksize t = disksize s" "memdisk t (unat ?x) = e"
    using w3 p2 by (auto simp: stored_def)
  have lt: "log_start t = ?x" "log_size t = log_size s" "lh_n t = 0" "outstanding t = outstanding s"
    "committing t = committing s" "log_geometry t"
    using l1 l2 l3 g2 by simp_all
  have "linv t" using t lt e0 g by (simp add: linv_def logged_def log_geometry_def)
  moreover have "blk t n = replay h ?x (blk s) n" if "\<not> in_log s n" for n
  proof -
    have "n \<noteq> ?x" using that in_log_start [OF g] by blast
    moreover have "home_ws s1 [0..<?n] = map (\<lambda>i. (head_block h i, blk s (?x + of_nat i + 1))) [0..<?n]"
      by (simp add: home_ws_def l1 p1)
    ultimately show ?thesis using w2 w3 by (simp add: stored_def p1 replay_def)
  qed
  moreover have "recover_from_log s = Done t" using r1 r2 r3 by (simp add: recover_from_log_def)
  ultimately show ?thesis using t lt by blast
qed

lemma initlog_view:
  fixes s :: "'a log_state_scheme"
  assumes b: "binv s" "busy s = {}" "dirty s = {}" and r: "1 < disksize s"
    and sb: "sb = superblock_of (blk s 1)"
    and l: "l = s\<lparr>log_start := sb_logstart sb, log_size := sint (sb_nlog sb), log_dev := 1\<rparr>"
    and g: "log_geometry l" and h: "h = blk s (sb_logstart sb)" "header_ok l h"
  shows "\<exists>t. initlog 1 s = Done t \<and> linv t \<and> busy t = {} \<and> dirty t = {} \<and> lh_n t = 0 \<and>
    log_start t = sb_logstart sb \<and> log_size t = sint (sb_nlog sb) \<and> disksize t = disksize s \<and>
    outstanding t = outstanding s \<and> committing t = committing s \<and>
    (\<forall>n. \<not> in_log l n \<longrightarrow> blk t n = replay h (sb_logstart sb) (blk s) n)"
proof -
  obtain s1 where r1: "readsb 1 s = Done (sb, s1)" and w1: "stored s [] s1"
    using readsb_stored [OF b r] sb by auto
  let ?u = "s1\<lparr>log_start := sb_logstart sb, log_size := sint (sb_nlog sb), log_dev := 1\<rparr>"
  have p: "binv ?u" "busy ?u = {}" "dirty ?u = {}" "blk ?u = blk s" "disksize ?u = disksize s"
    using w1 b by (simp_all add: stored_def)
  have q: "in_log ?u = in_log l" "log_geometry ?u" "header_ok ?u h"
    using g h(2) p(5) by (simp_all add: l in_log_def log_geometry_def header_ok_def fun_eq_iff)
  have "initlog 1 s = recover_from_log ?u"
    using r1 by (simp add: initlog_def sizeof_logheader_def layout_defs)
  moreover have "h = blk ?u (log_start ?u)" using h(1) p(4) by simp
  note recover_from_log_view [OF p(1-3) q(2) this q(3)]
  moreover have "outstanding s1 = outstanding s" "committing s1 = committing s" by (rule stored_log [OF w1])+
  moreover have "blk s1 = blk s" using w1 by (simp add: stored_def)
  ultimately show ?thesis by (simp add: q(1) p(5))
qed

section \<open>Crashes\<close>

lemma upds_unat: "upds (map (map_prod unat id) ws) M (unat n) = upds ws (\<lambda>n. M (unat n)) (n :: u32)"
proof (induction ws arbitrary: M)
  case (Cons w ws)
  obtain k v where w: "w = (k, v)" by (cases w)
  have "(\<lambda>n. (M(unat k := v)) (unat n)) = (\<lambda>n. M (unat n))(k := v)" by (auto simp: fun_eq_iff word_unat_eq_iff)
  then show ?case using Cons.IH by (simp add: w)
qed simp

lemma replay_empty: "head_n h = 0 \<Longrightarrow> replay h x B = B"
  by (simp add: replay_def)

text \<open>Before the header is written the log is empty and the home locations are untouched.\<close>

lemma crash_before_header:
  assumes l: "linv s" and k: "k \<le> nat (lh_n s)"
    and B: "B = upds (take k (commit_ws s)) (\<lambda>n. memdisk s (unat n))"
  shows "head_n (B (log_start s)) = 0" "\<not> in_log s n \<Longrightarrow> B n = memdisk s (unat n)"
proof -
  have "take k (commit_ws s) = take k (log_ws s [0..<nat (lh_n s)])"
    using k by (simp add: commit_ws_def log_ws_def)
  then have "fst ` set (take k (commit_ws s)) \<subseteq> {n. in_log s n \<and> n \<noteq> log_start s}"
    using subset_trans [OF image_mono [OF set_take_subset] log_ws_keys(1) [OF l]] by simp
  then have "B m = memdisk s (unat m)" if "\<not> in_log s m \<or> m = log_start s" for m
    unfolding B using that by (intro upds_other) blast
  then show "head_n (B (log_start s)) = 0" "\<not> in_log s n \<Longrightarrow> B n = memdisk s (unat n)"
    using linvD(8) [OF l] by simp_all
qed

lemma home_upds:
  "(n \<notin> set xs \<Longrightarrow> f n = g n) \<Longrightarrow> upds (map (\<lambda>n. (n, g n)) xs) f n = g n"
  using upds_map [of n xs "\<lambda>n. n" g f] by (cases "n \<in> set xs") (auto simp: upds_other image_image)

text \<open>
  The disk once the header is written: the header and the log blocks are in place, whatever part of
  the home locations has been written so far.
\<close>

lemma committed_image:
  fixes s :: "'a log_state_scheme"
  assumes l: "linv s" and b: "busy s = {}" and ys: "set ys \<subseteq> set (logged s)"
    and B: "B = upds (log_ws s [0..<nat (lh_n s)] @ [(log_start s, commit_header s)] @ map (\<lambda>n. (n, blk s n)) ys)
      (\<lambda>n. memdisk s (unat n))"
  shows "B (log_start s) = commit_header s"
    "i < nat (lh_n s) \<Longrightarrow> B (log_start s + of_nat i + 1) = blk s (lh_block s i)"
    "\<not> in_log s n \<Longrightarrow> n \<notin> set (logged s) \<Longrightarrow> B n = blk s n"
proof -
  let ?L = "log_ws s [0..<nat (lh_n s)]" and ?Y = "map (\<lambda>n. (n, blk s n)) ys"
  note li = linvD [OF l] and keys = log_ws_keys [OF l]
  have y: "fst ` set ?Y = set ys" "\<And>n. n \<in> set ys \<Longrightarrow> \<not> in_log s n"
    using ys li(6,7) by (auto simp: image_image)
  have xl: "in_log s (log_start s)" by (rule in_log_start [OF li(2)])
  have e: "B n = upds ?Y ((upds ?L (\<lambda>n. memdisk s (unat n)))(log_start s := commit_header s)) n" for n
    by (simp add: B upds_append)
  show "B (log_start s) = commit_header s"
    unfolding e using xl y by (subst upds_other) auto
  show "B (log_start s + of_nat i + 1) = blk s (lh_block s i)" if i: "i < nat (lh_n s)"
  proof -
    have "log_start s + of_nat i + 1 \<in> fst ` set ?L" using i by (simp add: log_ws_def image_image)
    then have k: "in_log s (log_start s + of_nat i + 1)" "log_start s + of_nat i + 1 \<noteq> log_start s"
      using keys(1) by blast+
    have "B (log_start s + of_nat i + 1) = upds ?L (\<lambda>n. memdisk s (unat n)) (log_start s + of_nat i + 1)"
      unfolding e using k y by (subst upds_other) auto
    also have "\<dots> = blk s (lh_block s i)"
      unfolding log_ws_def using i keys(2) by (intro upds_map) simp_all
    finally show ?thesis .
  qed
  show "B n = blk s n" if n: "\<not> in_log s n" "n \<notin> set (logged s)"
  proof -
    have "n \<noteq> log_start s" "n \<notin> fst ` set ?L" "n \<notin> set ys" using n xl keys(1) ys by auto
    then have "B n = memdisk s (unat n)" unfolding e using y(1) by (simp add: upds_other)
    also have "\<dots> = blk s n" using blk_clean [OF li(1)] b n(2) li(6) by simp
    finally show ?thesis .
  qed
qed

lemma commit_header_ok:
  assumes l: "linv s"
  shows "length (commit_header s) = BSIZE" "head_n (commit_header s) = lh_n s"
    "i < nat (lh_n s) \<Longrightarrow> head_block (commit_header s) i = lh_block s i"
    "length (put_head 0 bl (commit_header s)) = BSIZE" "head_n (put_head 0 bl (commit_header s)) = 0"
proof -
  note li = linvD [OF l]
  have "unat (log_start s) < disksize s" using li(2) unfolding log_geometry_def by linarith
  then have len: "length (blk s (log_start s)) = BSIZE" by (rule length_blk [OF li(1)])
  have lhn: "0 \<le> lh_n s" "lh_n s \<le> 30" using li(2-4) by (simp_all add: log_geometry_def layout_defs)
  note ph = put_head_ok [OF lhn(1), of "blk s (log_start s)"]
  show c: "length (commit_header s) = BSIZE" "head_n (commit_header s) = lh_n s"
    "i < nat (lh_n s) \<Longrightarrow> head_block (commit_header s) i = lh_block s i"
    using ph len lhn by (simp_all add: commit_header_def layout_defs)
  show "length (put_head 0 bl (commit_header s)) = BSIZE" "head_n (put_head 0 bl (commit_header s)) = 0"
    using put_head_ok [of 0 "commit_header s"] c(1) by (simp_all add: layout_defs)
qed

lemma crash_after_header:
  fixes s :: "'a log_state_scheme"
  assumes l: "linv s" and b: "busy s = {}" and k: "nat (lh_n s) < k"
    and B: "B = upds (take k (commit_ws s)) (\<lambda>n. memdisk s (unat n))" and h: "h = B (log_start s)"
  shows "head_n h = lh_n s \<and> (\<forall>i<nat (lh_n s). head_block h i = lh_block s i) \<or> head_n h = 0"
    "\<not> in_log s n \<Longrightarrow> replay h (log_start s) B n = blk s n"
proof -
  let ?m = "nat (lh_n s)" and ?H = "map (\<lambda>n. (n, blk s n)) (logged s)"
  let ?L = "log_ws s [0..<?m]" and ?C = "(log_start s, commit_header s)"
  note li = linvD [OF l]
  define e where "e = put_head 0 (lh_block s) (commit_header s)"
  obtain j where j: "k = ?m + 1 + j" using k by (metis less_iff_Suc_add add_Suc_shift plus_1_eq_Suc add.assoc add.commute)
  have len: "length ?L = ?m" "length ?H = ?m" by (simp_all add: log_ws_def logged_def)
  have tk: "take k (commit_ws s) = ?L @ [?C] @ take j (?H @ [(log_start s, e)])"
    by (simp add: commit_ws_def j len e_def)
  note ch = commit_header_ok [OF l]
  have he: "head_n e = 0" using ch(5) by (simp add: e_def)
  have goal: "(head_n h = lh_n s \<and> (\<forall>i<?m. head_block h i = lh_block s i) \<or> head_n h = 0) \<and>
    (\<not> in_log s n \<longrightarrow> replay h (log_start s) B n = blk s n)"
  proof (cases "j \<le> ?m")
    case True
    have B': "B = upds (?L @ [?C] @ map (\<lambda>n. (n, blk s n)) (take j (logged s))) (\<lambda>n. memdisk s (unat n))"
      unfolding B tk using True len by (simp add: take_map)
    note im = committed_image [OF l b set_take_subset B']
    have hh: "h = commit_header s" using im(1) h by simp
    have "map (\<lambda>i. (head_block h i, B (log_start s + of_nat i + 1))) [0..<nat (head_n h)] = ?H"
      using im(2) ch by (simp add: hh logged_def)
    then show ?thesis using home_upds [of n "logged s" B] im(3) ch by (simp add: replay_def hh)
  next
    case False
    define B1 where "B1 = upds (?L @ [?C] @ map (\<lambda>n. (n, blk s n)) []) (\<lambda>n. memdisk s (unat n))"
    have "B = (upds ?H B1)(log_start s := e)"
      unfolding B tk using False len by (simp add: upds_append B1_def)
    moreover from this have "head_n h = 0" using h he by simp
    moreover have "upds ?H B1 n = blk s n" if "\<not> in_log s n"
      using that by (intro home_upds committed_image(3) [OF l b _ B1_def]) auto
    ultimately show ?thesis using in_log_start [OF li(2)] by (auto simp: replay_empty)
  qed
  then show "head_n h = lh_n s \<and> (\<forall>i<nat (lh_n s). head_block h i = lh_block s i) \<or> head_n h = 0"
    "\<not> in_log s n \<Longrightarrow> replay h (log_start s) B n = blk s n"
    by blast+
qed

text \<open>Without a crash: everything the transaction wrote is on the disk and the view is unchanged.\<close>

lemma commit_view:
  fixes s :: "'a log_state_scheme"
  assumes l: "linv s" and b: "busy s = {}"
  shows "\<exists>t. commit s = Done t \<and> linv t \<and> busy t = {} \<and> dirty t = {} \<and> lh_n t = 0 \<and>
    log_start t = log_start s \<and> log_size t = log_size s \<and> disksize t = disksize s \<and>
    outstanding t = outstanding s \<and> committing t = committing s \<and> log_state.more t = log_state.more s \<and>
    (\<forall>n. \<not> in_log s n \<longrightarrow> blk t n = blk s n \<and> memdisk t (unat n) = blk s n)"
proof (cases "lh_n s = 0")
  case True
  note li = linvD [OF l]
  have "dirty s = {}" using li(6) True by (simp add: logged_def)
  moreover from this have "memdisk s (unat n) = blk s n" for n using blk_clean [OF li(1)] b by simp
  ultimately show ?thesis using l b True by (simp add: commit_def)
next
  case False
  note li = linvD [OF l] and keys = log_ws_keys [OF l]
  have n: "0 < lh_n s" using False li(3) by simp
  obtain t where t: "commit s = Done t" "stored (s\<lparr>lh_n := 0\<rparr>) (commit_ws s) t"
    using commit_stored [OF l b n] by blast
  note lt = stored_log [OF t(2)]
  have d: "dirty t = {}"
    using t(2) li(6) by (auto simp: stored_def commit_ws_def image_Un image_image)
  have v: "blk t n = blk s n" if "\<not> in_log s n" for n
  proof -
    have "n \<noteq> log_start s" "n \<notin> fst ` set (log_ws s [0..<nat (lh_n s)])"
      using that in_log_start [OF li(2)] keys(1) by auto
    then show ?thesis
      using t(2) by (simp add: stored_def commit_ws_def upds_append upds_other home_upds)
  qed
  have bt: "binv t" "busy t = {}" using t(2) by (simp_all add: stored_def)
  have m: "memdisk t (unat n) = blk t n" for n using blk_clean [OF bt(1)] bt(2) d by simp
  have "head_n (blk t (log_start s)) = 0"
    using t(2) commit_header_ok(5) [OF l] by (simp add: stored_def commit_ws_def upds_append)
  then have "linv t" using bt d lt li(2) by (simp add: linv_def logged_def m log_geometry_def stored_log)
  moreover have "disksize t = disksize s" "log_state.more t = log_state.more s"
    using t(2) by (cases s; cases t; simp add: stored_def)+
  ultimately show ?thesis using t(1) bt d lt v m by simp
qed

lemma upds_all: "P (f n) \<Longrightarrow> (\<And>v. v \<in> snd ` set ws \<Longrightarrow> P v) \<Longrightarrow> P (upds ws f n)"
proof (induction ws arbitrary: f)
  case (Cons w ws)
  obtain k v where "w = (k, v)" by (cases w)
  then show ?case using Cons.prems Cons.IH [of "f(k := v)"] by (simp add: fun_upd_def)
qed simp

lemma commit_ws_length:
  assumes l: "linv s" and v: "(x, v) \<in> set (commit_ws s)"
  shows "length v = BSIZE"
proof -
  note li = linvD [OF l]
  have "length (blk s n) = BSIZE" if "n \<in> dirty s" for n
    using length_blk [OF li(1) dirty_range [OF li(1) that]] .
  moreover have "lh_block s i \<in> dirty s" if "i < nat (lh_n s)" for i
    using li(6) that by (auto simp: logged_def)
  ultimately show ?thesis using v commit_header_ok(1,4) [OF l] by (auto simp: commit_ws_def log_ws_def logged_def)
qed

text \<open>
  The machine after a crash: the cache is empty memory again and the disk holds what the first \<open>k\<close>
  block writes of the commit left there.
\<close>

lemma crash_recovers:
  fixes s r :: "'a log_state_scheme"
  assumes l: "linv s" and b: "busy s = {}" and n: "0 < lh_n s"
    and sb: "1 < disksize s" "1 \<notin> dirty s" "\<not> in_log s 1"
      "sb_logstart (superblock_of (memdisk s 1)) = log_start s"
      "sint (sb_nlog (superblock_of (memdisk s 1))) = log_size s"
    and r: "bufs r = bss_bufs" "disksize r = disksize s"
      "memdisk r = upds (take k (map (map_prod unat id) (commit_ws s))) (memdisk s)"
  shows "\<exists>t. initlog 1 (binit r) = Done t \<and> linv t \<and> busy t = {} \<and> dirty t = {} \<and> lh_n t = 0 \<and>
    (\<forall>n. \<not> in_log s n \<longrightarrow> blk t n = (if k \<le> nat (lh_n s) then memdisk s (unat n) else blk s n))"
proof -
  note li = linvD [OF l]
  define B where "B = upds (take k (commit_ws s)) (\<lambda>n. memdisk s (unat n))"
  have M: "memdisk r (unat n) = B n" for n :: u32 by (simp add: r(3) B_def take_map upds_unat)
  have "length (memdisk r n) = BSIZE" if "n < disksize r" for n
    unfolding r(3) by (rule upds_all)
      (use that r(2) binvD(4) [OF li(1)] commit_ws_length [OF l] in \<open>auto simp: take_map dest: in_set_takeD\<close>)
  note fresh = binit_fresh [OF r(1) this]
  have blkr: "blk (binit r) = B" using fresh(4) M by auto
  define h where "h = B (log_start s)"
  let ?l = "(binit r)\<lparr>log_start := log_start s, log_size := log_size s, log_dev := 1\<rparr>"
  have lf: "disksize ?l = disksize s" "in_log ?l = in_log s" "log_geometry ?l"
    using li(2) by (simp_all add: binit_fields r(2) in_log_def log_geometry_def fun_eq_iff)
  have hk: "header_ok ?l h \<and> (\<forall>n. \<not> in_log s n \<longrightarrow>
    replay h (log_start s) B n = (if k \<le> nat (lh_n s) then memdisk s (unat n) else blk s n))"
  proof (cases "k \<le> nat (lh_n s)")
    case True
    then show ?thesis
      using crash_before_header [OF l True B_def] n li(4) by (simp add: header_ok_def replay_empty h_def)
  next
    case False
    then have "nat (lh_n s) < k" by simp
    note c = crash_after_header [OF l b this B_def h_def]
    have "lh_block s i \<in> dirty s" if "i < nat (lh_n s)" for i using li(6) that by (auto simp: logged_def)
    then have "header_ok ?l h"
      using c(1) li(3,4,7) dirty_range [OF li(1)] n by (auto simp: header_ok_def lf)
    then show ?thesis using c(2) False by simp
  qed
  have "B 1 = memdisk s 1"
  proof (cases "k \<le> nat (lh_n s)")
    case True
    then show ?thesis using crash_before_header(2) [OF l True B_def sb(3)] by simp
  next
    case False
    have "fst ` set (take k (commit_ws s)) \<subseteq> fst ` set (commit_ws s)" using set_take_subset by fast
    moreover have "1 \<notin> fst ` set (commit_ws s)"
      using log_ws_keys(1) [OF l] sb(2,3) in_log_start [OF li(2)] li(6)
      by (auto simp: commit_ws_def image_Un image_image)
    ultimately show ?thesis unfolding B_def by (subst upds_other) auto
  qed
  then have "superblock_of (blk (binit r) 1) = superblock_of (memdisk s 1)" by (simp add: blkr)
  then obtain t where "initlog 1 (binit r) = Done t" "linv t" "busy t = {}" "dirty t = {}" "lh_n t = 0"
    "\<forall>n. \<not> in_log s n \<longrightarrow> blk t n = replay h (log_start s) B n"
    using initlog_view [OF fresh(1-3) _ refl refl, of h] conjunct1 [OF hk] lf sb
    by (auto simp: binit_fields r(2) blkr h_def)
  then show ?thesis using hk by auto
qed

section \<open>A small file system with a pending transaction\<close>

text \<open>
  Forty blocks, the log in blocks 2 to 31; a finished system call has logged one block, number 35,
  which is dirty in buffer 0.
\<close>

definition demo_disk :: "nat \<Rightarrow> bytes" where
  "demo_disk n = (if n = 1 then put32 16 2 (put32 12 30 (replicate BSIZE 0)) else replicate BSIZE 0)"

definition demo_boot :: log_state where
  "demo_boot = \<lparr>bufs = bss_bufs, memdisk = demo_disk, disksize = 40, writes = [], log_start = 0, log_size = 0,
     outstanding = 0, committing = False, log_dev = 0, lh_n = 0, lh_block = (\<lambda>_. 0)\<rparr>"

definition demo_pending :: log_state where
  "demo_pending =
     upd_buf 0 (\<lambda>x. x\<lparr>flags := {B_VALID, B_DIRTY}, dev := 1, blockno := 35, data := replicate BSIZE 7\<rparr>)
       ((binit demo_boot)\<lparr>log_start := 2, log_size := 30, log_dev := 1, lh_n := 1, lh_block := (\<lambda>_. 35)\<rparr>)"

lemma demo_disk_length: "length (demo_disk n) = BSIZE"
  by (simp add: demo_disk_def layout_defs)

lemma demo_superblock:
  "sb_logstart (superblock_of (demo_disk 1)) = 2" "sb_nlog (superblock_of (demo_disk 1)) = 30"
  by (simp_all add: demo_disk_def superblock_of_def get32_put32_other layout_defs)

lemma demo_pending_fields [simp]:
  "memdisk demo_pending = demo_disk" "disksize demo_pending = 40" "writes demo_pending = []"
  "log_start demo_pending = 2" "log_size demo_pending = 30" "log_dev demo_pending = 1"
  "lh_n demo_pending = 1" "logged demo_pending = [35]"
  by (simp_all add: demo_pending_def upd_buf_def binit_fields demo_boot_def logged_def)

lemma demo_pending_in_log: "in_log demo_pending n \<longleftrightarrow> 2 \<le> unat n \<and> unat n < 32"
proof -
  have "int (unat n) < int 2 + 30 \<longleftrightarrow> unat n < 32" by linarith
  then show ?thesis by (simp add: in_log_def)
qed

lemma demo_pending_view:
  "binv demo_pending" "busy demo_pending = {}" "dirty demo_pending = {35}"
  "blk demo_pending n = (if n = 35 then replicate BSIZE 7 else demo_disk (unat n))"
proof -
  let ?b = "(binit demo_boot)\<lparr>log_start := 2, log_size := 30, log_dev := 1, lh_n := 1, lh_block := (\<lambda>_. 35)\<rparr>"
  let ?f = "\<lambda>x. x\<lparr>flags := {B_VALID, B_DIRTY}, dev := 1, blockno := 35, data := replicate BSIZE 7\<rparr> :: buf"
  have boot: "bufs demo_boot = bss_bufs" "disksize demo_boot = 40" "memdisk demo_boot = demo_disk"
    by (simp_all add: demo_boot_def)
  note f = binit_fresh [OF boot(1), simplified boot demo_disk_length]
  have c: "\<not> cached ?b n i" for n i using binit_fields(3) [of i demo_boot] by (auto simp: cached_def)
  have d: "cached demo_pending n i \<longleftrightarrow> i = 0 \<and> n = 35" for n i
    by (auto simp: demo_pending_def cached_def bufs_upd_buf binit_fields layout_defs)
  have fl: "flags (bufs demo_pending 0) = {B_VALID, B_DIRTY}" "data (bufs demo_pending 0) = replicate BSIZE 7"
    by (simp_all add: demo_pending_def)
  show b: "binv demo_pending"
    unfolding demo_pending_def
  proof (rule binv_upd_buf [where f = ?f])
    show "binv ?b" using f(1) by simp
    show "buf_ok ?b (?f (bufs ?b 0))"
      by (auto simp: buf_ok_def binit_fields boot)
  qed (use c in \<open>auto simp: layout_defs\<close>)
  show "busy demo_pending = {}" "dirty demo_pending = {35}" by (auto simp: busy_def dirty_def d fl)
  show "blk demo_pending n = (if n = 35 then replicate BSIZE 7 else demo_disk (unat n))"
    using blk_cached [OF b, of 35 0] blk_uncached [of demo_pending n] by (auto simp: d fl)
qed

lemma demo_pending_linv: "linv demo_pending"
proof -
  have "head_n (demo_disk 2) = 0" by (simp add: demo_disk_def head_n_def get32_replicate_0 layout_defs)
  then show ?thesis by (simp add: linv_def demo_pending_view demo_pending_in_log log_geometry_def layout_defs)
qed

section \<open>Properties\<close>

text \<open>
  C1: a commit is atomic with respect to crashes. Take a file system whose log holds the writes of
  a finished transaction and let the machine stop after the first \<open>k\<close> disk writes of \<open>commit\<close>. After the
  reboot (\<open>binit\<close>, then \<open>initlog\<close>, which returns) every block outside the log has its contents from
  before the transaction if the header was not yet written, and its contents from after the whole
  transaction otherwise; nothing in between is ever seen.
\<close>

theorem commit_crash_atomic:
  fixes s r :: "'a log_state_scheme"
  assumes "linv s" "busy s = {}" "0 < lh_n s" "commit s = Done u"
    and "1 < disksize s" "1 \<notin> dirty s" "\<not> in_log s 1"
      "sb_logstart (superblock_of (memdisk s 1)) = log_start s"
      "sint (sb_nlog (superblock_of (memdisk s 1))) = log_size s"
    and "bufs r = bss_bufs" "disksize r = disksize s"
      "memdisk r = upds (take k (drop (length (writes s)) (writes u))) (memdisk s)"
  shows "\<exists>t. initlog 1 (binit r) = Done t \<and> linv t \<and> busy t = {} \<and> dirty t = {} \<and> lh_n t = 0 \<and>
    (\<forall>n. \<not> in_log s n \<longrightarrow> blk t n = (if k \<le> nat (lh_n s) then memdisk s (unat n) else blk s n))"
proof -
  obtain u' where "commit s = Done u'" "stored (s\<lparr>lh_n := 0\<rparr>) (commit_ws s) u'"
    using commit_stored [OF assms(1-3)] by blast
  then have "drop (length (writes s)) (writes u) = map (map_prod unat id) (commit_ws s)"
    using assms(4) by (simp add: stored_def)
  then show ?thesis using crash_recovers [OF assms(1-3,5-11)] assms(12) by simp
qed

theorem commit_crash_atomic_witness:
  "\<exists>u. commit demo_pending = Done u \<and>
    (\<forall>k. \<exists>t. initlog 1 (binit (demo_boot\<lparr>memdisk := upds (take k (writes u)) demo_disk\<rparr>)) = Done t \<and>
       blk t 35 = (if k \<le> 1 then replicate BSIZE 0 else replicate BSIZE 7))"
proof -
  obtain u where u: "commit demo_pending = Done u"
    using commit_stored [OF demo_pending_linv demo_pending_view(2)] by auto
  have v: "(if k \<le> nat 1 then demo_disk (unat (35 :: u32)) else blk demo_pending 35) =
    (if k \<le> 1 then replicate BSIZE 0 else replicate BSIZE 7)" for k
    by (simp add: demo_disk_def demo_pending_view)
  have "\<exists>t. initlog 1 (binit (demo_boot\<lparr>memdisk := upds (take k (writes u)) demo_disk\<rparr>)) = Done t \<and>
       blk t 35 = (if k \<le> 1 then replicate BSIZE 0 else replicate BSIZE 7)" for k
  proof -
    let ?r = "demo_boot\<lparr>memdisk := upds (take k (writes u)) demo_disk\<rparr>"
    have "\<exists>t. initlog 1 (binit ?r) = Done t \<and> linv t \<and> busy t = {} \<and> dirty t = {} \<and> lh_n t = 0 \<and>
      (\<forall>n. \<not> in_log demo_pending n \<longrightarrow>
        blk t n = (if k \<le> nat (lh_n demo_pending) then memdisk demo_pending (unat n) else blk demo_pending n))"
      by (rule commit_crash_atomic [OF demo_pending_linv demo_pending_view(2) _ u])
        (simp_all add: demo_pending_view demo_pending_in_log demo_boot_def demo_superblock [simplified])
    then show ?thesis using v [of k] by (auto simp: demo_pending_in_log)
  qed
  then show ?thesis using u by blast
qed

text \<open>
  C9: \<open>commit\<close> returns whenever no buffer is held. It leaves an empty log, every block of the
  transaction is on the disk at its home location, and the contents of no block outside the log
  change.
\<close>

theorem commit_durable:
  fixes s :: "'a log_state_scheme"
  assumes "linv s" "busy s = {}"
  shows "\<exists>t. commit s = Done t \<and> linv t \<and> busy t = {} \<and> dirty t = {} \<and> lh_n t = 0 \<and>
    (\<forall>n. \<not> in_log s n \<longrightarrow> blk t n = blk s n \<and> memdisk t (unat n) = blk s n)"
  using commit_view [OF assms] by blast

theorem commit_durable_witness:
  "\<exists>t. commit demo_pending = Done t \<and> memdisk t 35 = replicate BSIZE 7"
proof -
  have "\<not> in_log demo_pending 35" by (simp add: demo_pending_in_log)
  then show ?thesis
    using commit_durable [OF demo_pending_linv demo_pending_view(2)]
    by (auto simp: demo_pending_view dest!: spec [where x = "35 :: u32"])
qed

text \<open>
  C18: \<open>log_write\<close> of a held buffer inside a transaction with room in the log records its block
  exactly once: the buffer is pinned, the header lists it without repetition, a second write of the
  same block does not use another slot, and the invariant of the log is kept. Nothing is written to
  the disk.
\<close>

theorem log_write_absorbs:
  fixes s :: "'a log_state_scheme"
  assumes "linv s" "holds s n i" "1 \<le> outstanding s" "\<not> in_log s n" "lh_n s + 1 < log_size s"
  shows "\<exists>t. log_write i s = Done t \<and> linv t \<and> dirty t = insert n (dirty s) \<and> set (logged t) = insert n (set (logged s)) \<and>
    lh_n t = (if n \<in> dirty s then lh_n s else lh_n s + 1) \<and> blk t = blk s \<and> memdisk t = memdisk s \<and> writes t = writes s"
proof -
  obtain t where "log_write i s = Done t" "logged_write s n t"
    using log_write_logged [OF assms(1-4)] assms(5) by (auto simp: room_def)
  then show ?thesis using linvD(6) [OF assms(1)] linvD(6) [of t] by (auto simp: logged_write_def)
qed

theorem log_write_absorbs_witness:
  "\<exists>i s t. bread 1 35 (demo_pending\<lparr>outstanding := 1\<rparr>) = Done (i, s) \<and> log_write i s = Done t \<and> lh_n t = 1"
proof -
  let ?s = "demo_pending\<lparr>outstanding := 1\<rparr>"
  have l: "linv ?s" by (simp add: demo_pending_linv)
  obtain i s where r: "bread 1 35 ?s = Done (i, s)" and a: "acquired ?s 35 i s"
    using bread_Done [OF linvD(1) [OF l], of 35] by (auto simp: demo_pending_view)
  have "outstanding s = 1" "in_log s = in_log ?s" "lh_n s = 1" "log_size s = 30"
    using a log_more [of s ?s] by (simp_all add: acquired_def in_log_def fun_eq_iff)
  moreover have "holds s 35 i" "dirty s = {35}" using a by (simp_all add: acquired_def demo_pending_view)
  ultimately show ?thesis
    using r log_write_absorbs [OF linv_acquired [OF l a], of 35 i] by (auto simp: demo_pending_in_log)
qed

end
