(* ===== verification/Txn.thy ===== *)
theory Txn
  imports Log
begin

text \<open>
  What code inside a transaction may assume of the cache and the log: the pattern \<open>bread\<close>, change the
  data, \<open>log_write\<close>, \<open>brelse\<close> of \<open>kern/fs.c\<close> changes the contents of one block as the kernel sees
  them and nothing else, provided the log has room for one more block. The file system is verified
  against these facts only.
\<close>

section \<open>Steps of a transaction\<close>

text \<open>
  \<open>edits s ws B t\<close>: from \<open>s\<close> to \<open>t\<close> the blocks of \<open>ws\<close> were changed in the cache and logged, in this
  order; the blocks \<open>B\<close> are held afterwards; the disk has not changed.
\<close>

definition edits :: "'a log_state_scheme \<Rightarrow> (u32 \<times> bytes) list \<Rightarrow> u32 set \<Rightarrow> 'a log_state_scheme \<Rightarrow> bool" where
  "edits s ws B t \<longleftrightarrow>
     linv t \<and> busy t = B \<and> (\<forall>m j. m \<in> B \<longrightarrow> holds s m j \<longrightarrow> holds t m j) \<and>
     dirty t = dirty s \<union> fst ` set ws \<and> blk t = upds ws (blk s) \<and>
     memdisk t = memdisk s \<and> disksize t = disksize s \<and> writes t = writes s \<and>
     log_start t = log_start s \<and> log_size t = log_size s \<and> log_dev t = log_dev s \<and>
     outstanding t = outstanding s \<and> committing t = committing s \<and> log_state.more t = log_state.more s"

abbreviation wrote :: "'a log_state_scheme \<Rightarrow> (u32 \<times> bytes) list \<Rightarrow> 'a log_state_scheme \<Rightarrow> bool" where
  "wrote s ws t \<equiv> edits s ws (busy s) t"

text \<open>\<open>txn s\<close>: some operation is in progress, so that \<open>log_write\<close> is allowed.\<close>

definition txn :: "'a log_state_scheme \<Rightarrow> bool" where
  "txn s \<longleftrightarrow> linv s \<and> 1 \<le> outstanding s"

lemma wrote_Nil: "linv s \<Longrightarrow> wrote s [] s"
  by (simp add: edits_def)

lemma edits_trans: "edits s ws B t \<Longrightarrow> edits t vs C u \<Longrightarrow> C \<subseteq> B \<Longrightarrow> edits s (ws @ vs) C u"
  by (auto simp: edits_def upds_append)

lemma wrote_trans: "wrote s ws t \<Longrightarrow> wrote t vs u \<Longrightarrow> wrote s (ws @ vs) u"
  using edits_trans [of s ws "busy s" t vs "busy t" u] by (simp add: edits_def)

lemma edits_txn: "edits s ws B t \<Longrightarrow> txn s \<Longrightarrow> txn t"
  by (simp add: edits_def txn_def)

lemma edits_log:
  assumes "edits s ws B t"
  shows "in_log t = in_log s" "disksize t = disksize s" "log_state.more t = log_state.more s" "busy t = B"
    "blk t = upds ws (blk s)" "linv t"
  using assms by (simp_all add: edits_def in_log_def fun_eq_iff)

lemma log_state_more: "bio.more t = bio.more s \<Longrightarrow> log_state.more t = log_state.more s"
  by (cases s; cases t) simp

lemma acquired_edits: "linv s \<Longrightarrow> acquired s n i t \<Longrightarrow> edits s [] (insert n (busy s)) t"
  using linv_acquired [of s n i t] log_more [of t s] log_state_more [of t s]
  by (auto simp: edits_def acquired_def)

lemma released_edits: "linv s \<Longrightarrow> released s n t \<Longrightarrow> edits s [] (busy s - {n}) t"
  using linv_released [of s n t] log_more [of t s] log_state_more [of t s]
  by (auto simp: edits_def released_def)

lemma room_less: "room s k \<Longrightarrow> j \<le> k \<Longrightarrow> room s j"
  by (simp add: room_def)

lemma edits_room:
  assumes "linv s" "edits s ws B t" "room s (card (fst ` set ws - dirty s) + k)"
  shows "room t k"
proof -
  have "dirty t = dirty s \<union> (fst ` set ws - dirty s)" using assms(2) by (auto simp: edits_def)
  then have "card (dirty t) \<le> card (dirty s) + card (fst ` set ws - dirty s)" by (metis card_Un_le)
  moreover have "lh_n t = int (card (dirty t))" "lh_n s = int (card (dirty s))" "log_size t = log_size s"
    using assms(1,2) logged_card [of s] logged_card [of t] linvD(3) [of s] linvD(3) [of t]
    by (simp_all add: edits_def)
  ultimately show ?thesis using assms(3) by (simp add: room_def)
qed

lemma edits_room_length:
  assumes "linv s" "edits s ws B t" "room s (length ws + k)"
  shows "room t k"
proof -
  have "card (fst ` set ws - dirty s) \<le> card (fst ` set ws)" by (intro card_mono) auto
  also have "\<dots> \<le> length ws" by (metis card_length length_map list.set_map)
  finally show ?thesis using edits_room [OF assms(1,2), of k] room_less [OF assms(3)] by simp
qed

lemma room_cache:
  assumes "linv s" "room s (card (busy s))"
  shows "card (busy s \<union> dirty s) < NBUF"
proof -
  have "card (busy s \<union> dirty s) \<le> card (busy s) + nat (lh_n s)"
    using card_Un_le [of "busy s" "dirty s"] logged_card [OF assms(1)] by simp
  then show ?thesis
    using assms(2) linvD(2,3) [OF assms(1)] unfolding room_def log_geometry_def layout_defs by linarith
qed

section \<open>Reading a block\<close>

lemma brelse_edits:
  assumes "linv s" "holds s n i" "n \<in> dirty s \<or> blk s n = memdisk s (unat n)"
  obtains t where "brelse i s = Done t" "edits s [] (busy s - {n}) t"
  using brelse_Done [OF linvD(1) [OF assms(1)] assms(2,3)] released_edits [OF assms(1)] by metis

lemma bread_edits:
  assumes l: "linv s" and n: "n \<notin> busy s" "unat n < disksize s" and r: "room s (card (busy s))"
  obtains i t where "bread 1 n s = Done (i, t)" "edits s [] (insert n (busy s)) t" "holds t n i"
    "data (bufs t i) = blk s n" "n \<in> dirty t \<or> blk t n = memdisk t (unat n)"
proof -
  obtain i t where t: "bread 1 n s = Done (i, t)" "acquired s n i t"
    using bread_Done [OF linvD(1) [OF l] n(2,1)] room_cache [OF l r] by blast
  have h: "binv t" "holds t n i" "blk t = blk s" "dirty t = dirty s" "memdisk t = memdisk s"
    using t(2) by (auto simp: acquired_def)
  have c: "n \<in> dirty t \<or> blk t n = memdisk t (unat n)"
    using blk_clean [OF linvD(1) [OF l] n(1)] h(3-5) by auto
  show ?thesis
    using that [OF t(1) acquired_edits [OF l t(2)] h(2) _ c] holds_data [OF h(1,2)] h(3) by simp
qed

lemma peek_block:
  assumes l: "linv s" and n: "n \<notin> busy s" "unat n < disksize s" and r: "room s (card (busy s))"
  obtains i t u where "bread 1 n s = Done (i, t)" "data (bufs t i) = blk s n"
    "log_state.more t = log_state.more s" "brelse i t = Done u" "wrote s [] u"
proof -
  obtain i t where t: "bread 1 n s = Done (i, t)" "edits s [] (insert n (busy s)) t" "holds t n i"
    "data (bufs t i) = blk s n" "n \<in> dirty t \<or> blk t n = memdisk t (unat n)"
    using bread_edits [OF assms] by blast
  have lt: "linv t" "busy t = insert n (busy s)" using t(2) by (simp_all add: edits_def)
  obtain u where u: "brelse i t = Done u" "edits t [] (busy t - {n}) u"
    using brelse_edits [OF lt(1) t(3,5)] by blast
  have "busy t - {n} = busy s" using lt(2) n(1) by auto
  then have "wrote s [] u" using edits_trans [OF t(2) u(2)] by auto
  then show ?thesis using that t u t(2) by (simp add: edits_def)
qed

section \<open>Changing a block\<close>

lemma edit_held:
  fixes s :: "'a log_state_scheme"
  assumes t: "txn s" and h: "holds s n i" and nl: "\<not> in_log s n" and r: "room s 1" and d: "length d = BSIZE"
  obtains u v where "log_write i (set_data i d s) = Done u" "brelse i u = Done v"
    "edits s [(n, d)] (busy s - {n}) v" "log_state.more u = log_state.more s"
proof -
  have l: "linv s" "1 \<le> outstanding s" using t by (simp_all add: txn_def)
  obtain s1 where r1: "set_data i d s = s1" and h1: "binv s1" "holds s1 = holds s" "busy s1 = busy s"
    "dirty s1 = dirty s" "blk s1 = (blk s)(n := d)" "memdisk s1 = memdisk s" "disksize s1 = disksize s"
    "writes s1 = writes s" "bio.more s1 = bio.more s"
    using set_data_Done [OF linvD(1) [OF l(1)] h d] by metis
  note m1 = log_more [OF h1(9)] log_state_more [OF h1(9)]
  have l1: "linv s1" using linv_frame [OF l(1) h1(1,4,6,7,9)] .
  have "holds s1 n i" "1 \<le> outstanding s1" "\<not> in_log s1 n" "room s1 1"
    using h l(2) nl r h1 m1 by (simp_all add: in_log_def room_def)
  then obtain u where u: "log_write i s1 = Done u" "logged_write s1 n u"
    using log_write_logged [OF l1] by blast
  have lu: "linv u" "holds u n i" "n \<in> dirty u" using u(2) h h1(2) by (simp_all add: logged_write_def)
  obtain v where v: "brelse i u = Done v" "edits u [] (busy u - {n}) v"
    using brelse_edits [OF lu(1,2)] lu(3) by blast
  have su: "edits s [(n, d)] (busy s) u"
    using u(2) h1 m1 by (auto simp: edits_def logged_write_def)
  have bu: "busy u = busy s" using su by (simp add: edits_def)
  have "edits s [(n, d)] (busy s - {n}) v"
    using edits_trans [OF su v(2)] bu by auto
  then show ?thesis using that r1 u(1) v(1) su by (simp add: edits_def)
qed

lemma edit_block:
  fixes s :: "'a log_state_scheme"
  assumes t: "txn s" and n: "n \<notin> busy s" "unat n < disksize s" "\<not> in_log s n" and r: "room s (Suc (card (busy s)))"
  obtains i t where "bread 1 n s = Done (i, t)" "data (bufs t i) = blk s n" "log_state.more t = log_state.more s"
    "\<And>d. length d = BSIZE \<Longrightarrow>
       \<exists>u v. log_write i (set_data i d t) = Done u \<and> brelse i u = Done v \<and> wrote s [(n, d)] v \<and>
         log_state.more u = log_state.more s"
    "\<exists>v. brelse i t = Done v \<and> wrote s [] v"
proof -
  have l: "linv s" using t by (simp add: txn_def)
  have r0: "room s (card (busy s))" by (rule room_less [OF r]) simp
  obtain i t where a: "bread 1 n s = Done (i, t)" "edits s [] (insert n (busy s)) t" "holds t n i"
    "data (bufs t i) = blk s n" "n \<in> dirty t \<or> blk t n = memdisk t (unat n)"
    by (rule bread_edits [OF l n(1,2) r0])
  have lt: "linv t" "busy t = insert n (busy s)" using a(2) by (simp_all add: edits_def)
  have b: "busy t - {n} = busy s" using lt(2) n(1) by auto
  have "room t 1" using edits_room_length [OF l a(2), of 1] room_less [OF r, of 1] by simp
  note e = edit_held [OF edits_txn [OF a(2) t] a(3) _ this]
  have w: "\<exists>u v. log_write i (set_data i d t) = Done u \<and> brelse i u = Done v \<and> wrote s [(n, d)] v \<and>
      log_state.more u = log_state.more s"
    if d: "length d = BSIZE" for d
  proof -
    obtain u v where u: "log_write i (set_data i d t) = Done u" "brelse i u = Done v"
      "edits t [(n, d)] (busy t - {n}) v" "log_state.more u = log_state.more t"
      using e [OF _ d] n(3) edits_log(1) [OF a(2)] by auto
    have "edits t [(n, d)] (busy s) v" using u(3) unfolding b .
    from edits_trans [OF a(2) this subset_insertI] have "wrote s [(n, d)] v" unfolding append_Nil .
    then show ?thesis using u(1,2,4) edits_log(3) [OF a(2)] by auto
  qed
  obtain v where v: "brelse i t = Done v" "edits t [] (busy t - {n}) v"
    using brelse_edits [OF lt(1) a(3,5)] by blast
  have "edits t [] (busy s) v" using v(2) unfolding b .
  from edits_trans [OF a(2) this subset_insertI] have "wrote s [] v" unfolding append_Nil .
  then show ?thesis using that [OF a(1,4) edits_log(3) [OF a(2)] w] v(1) by blast
qed

end
