(* ===== verification/Kstring.thy ===== *)
theory Kstring
  imports Xv6_Prelude
begin

text \<open>
  \<open>kern/string.c\<close>. The functions that write through a pointer work on a flat 32-bit memory; pointer
  arithmetic wraps. A pointer that is only read is the function from its index to the byte there,
  and the buffer that \<open>strncpy\<close> and \<open>safestrcpy\<close> fill is the list of the bytes they store, from the
  first on. The string instructions of \<open>include/xv6/x86.h\<close> are loops over memory.
\<close>

type_synonym mem = "u32 \<Rightarrow> u8"

section \<open>Filling memory\<close>

text \<open>\<open>rep stosb\<close> and \<open>rep stosl\<close>.\<close>

primrec stosb :: "u32 \<Rightarrow> u8 \<Rightarrow> nat \<Rightarrow> mem \<Rightarrow> mem" where
  "stosb d c 0 m = m"
| "stosb d c (Suc k) m = stosb (d + 1) c k (m(d := c))"

definition store32 :: "u32 \<Rightarrow> u32 \<Rightarrow> mem \<Rightarrow> mem" where
  "store32 a v m = m(a := ucast v, a + 1 := ucast (drop_bit 8 v), a + 2 := ucast (drop_bit 16 v),
     a + 3 := ucast (drop_bit 24 v))"

primrec stosl :: "u32 \<Rightarrow> u32 \<Rightarrow> nat \<Rightarrow> mem \<Rightarrow> mem" where
  "stosl d v 0 m = m"
| "stosl d v (Suc k) m = stosl (d + 4) v k (store32 d v m)"

definition memset :: "u32 \<Rightarrow> u32 \<Rightarrow> u32 \<Rightarrow> mem \<Rightarrow> mem" where
  "memset dst c n m =
     (if unat dst mod 4 = 0 \<and> unat n mod 4 = 0
      then let c = c AND 0xFF in
        stosl dst (push_bit 24 c OR push_bit 16 c OR push_bit 8 c OR c) (unat n div 4) m
      else stosb dst (ucast c) (unat n) m)"

section \<open>Copying and comparing memory\<close>

primrec copy_up :: "u32 \<Rightarrow> u32 \<Rightarrow> nat \<Rightarrow> mem \<Rightarrow> mem" where
  "copy_up d s 0 m = m"
| "copy_up d s (Suc k) m = copy_up (d + 1) (s + 1) k (m(d := m s))"

primrec copy_down :: "u32 \<Rightarrow> u32 \<Rightarrow> nat \<Rightarrow> mem \<Rightarrow> mem" where
  "copy_down d s 0 m = m"
| "copy_down d s (Suc k) m = copy_down (d - 1) (s - 1) k (m(d - 1 := m (s - 1)))"

definition memmove :: "u32 \<Rightarrow> u32 \<Rightarrow> u32 \<Rightarrow> mem \<Rightarrow> mem" where
  "memmove dst src n m =
     (if src < dst \<and> src + n > dst then copy_down (dst + n) (src + n) (unat n) m
      else copy_up dst src (unat n) m)"

definition memcpy :: "u32 \<Rightarrow> u32 \<Rightarrow> u32 \<Rightarrow> mem \<Rightarrow> mem" where
  "memcpy dst src n m = memmove dst src n m"

primrec memcmp :: "(nat \<Rightarrow> u8) \<Rightarrow> (nat \<Rightarrow> u8) \<Rightarrow> nat \<Rightarrow> int" where
  "memcmp s1 s2 0 = 0"
| "memcmp s1 s2 (Suc n) =
     (if s1 0 \<noteq> s2 0 then uint (s1 0) - uint (s2 0)
      else memcmp (\<lambda>i. s1 (Suc i)) (\<lambda>i. s2 (Suc i)) n)"

section \<open>Strings\<close>

primrec strncmp :: "(nat \<Rightarrow> u8) \<Rightarrow> (nat \<Rightarrow> u8) \<Rightarrow> nat \<Rightarrow> int" where
  "strncmp p q 0 = 0"
| "strncmp p q (Suc n) =
     (if p 0 \<noteq> 0 \<and> p 0 = q 0 then strncmp (\<lambda>i. p (Suc i)) (\<lambda>i. q (Suc i)) n
      else uint (p 0) - uint (q 0))"

primrec strncpy_loop :: "(nat \<Rightarrow> u8) \<Rightarrow> nat \<Rightarrow> bytes" where
  "strncpy_loop t 0 = []"
| "strncpy_loop t (Suc k) =
     (if t 0 = 0 then 0 # replicate k 0 else t 0 # strncpy_loop (\<lambda>i. t (Suc i)) k)"

definition strncpy :: "(nat \<Rightarrow> u8) \<Rightarrow> int \<Rightarrow> bytes" where
  "strncpy t n = strncpy_loop t (nat n)"

text \<open>
  The loop of \<open>safestrcpy\<close> steps over a NUL that it copied before it stores the final NUL, so a
  short string gets two.
\<close>

primrec safestrcpy_loop :: "(nat \<Rightarrow> u8) \<Rightarrow> nat \<Rightarrow> bytes" where
  "safestrcpy_loop t 0 = [0]"
| "safestrcpy_loop t (Suc k) =
     (if t 0 = 0 then [0, 0] else t 0 # safestrcpy_loop (\<lambda>i. t (Suc i)) k)"

definition safestrcpy :: "(nat \<Rightarrow> u8) \<Rightarrow> int \<Rightarrow> bytes" where
  "safestrcpy t n = (if n \<le> 0 then [] else safestrcpy_loop t (nat (n - 1)))"

text \<open>\<open>strlen\<close> runs until it finds a NUL; on memory without one it does not return.\<close>

partial_function (option) strlen_from :: "(nat \<Rightarrow> u8) \<Rightarrow> nat \<Rightarrow> nat option" where
  "strlen_from s n = (if s n = 0 then Some n else strlen_from s (Suc n))"

definition strlen :: "(nat \<Rightarrow> u8) \<Rightarrow> nat option" where
  "strlen s = strlen_from s 0"

section \<open>Memory after a fill\<close>

lemma unat_pred: "(x :: u32) \<noteq> 0 \<Longrightarrow> unat (x - 1) = unat x - 1"
  by (simp add: unat_minus_one)

lemma unat_minus_Suc: "a \<noteq> d \<Longrightarrow> unat (a - (d + 1)) < k \<longleftrightarrow> unat (a - d :: u32) < Suc k"
proof -
  assume "a \<noteq> d"
  then have "a - d \<noteq> 0" by simp
  then have "unat (a - d - 1) = unat (a - d) - 1" "0 < unat (a - d)"
    using unat_pred [of "a - d"] unat_gt_0 [of "a - d"] by blast+
  moreover have e: "a - (d + 1) = a - d - 1" by (simp add: algebra_simps)
  ultimately show ?thesis unfolding e by linarith
qed

lemma stosb_mem:
  assumes "k < 2 ^ 32"
  shows "stosb d c k m a = (if unat (a - d) < k then c else m a)"
  using assms
proof (induction k arbitrary: d m)
  case (Suc k)
  have IH: "stosb (d + 1) c k (m(d := c)) a = (if unat (a - (d + 1)) < k then c else (m(d := c)) a)"
    using Suc by simp
  show ?case
  proof (cases "a = d")
    case True
    then show ?thesis using IH by simp
  next
    case False
    have "unat (a - (d + 1)) < k \<longleftrightarrow> unat (a - d) < Suc k" by (rule unat_minus_Suc [OF False])
    then show ?thesis using IH False by simp
  qed
qed simp

lemma stosb_add: "stosb d c (j + k) m = stosb (d + of_nat j) c k (stosb d c j m)"
  by (induction j arbitrary: d m) (simp_all add: ac_simps)

lemma rep_byte:
  fixes c :: u32
  defines "v \<equiv> push_bit 24 (c AND 0xFF) OR push_bit 16 (c AND 0xFF) OR push_bit 8 (c AND 0xFF) OR (c AND 0xFF)"
  shows "ucast v = (ucast c :: u8)" "ucast (drop_bit 8 v) = (ucast c :: u8)"
    "ucast (drop_bit 16 v) = (ucast c :: u8)" "ucast (drop_bit 24 v) = (ucast c :: u8)"
proof -
  have m: "(0xFF :: u32) = mask 8" by (simp add: mask_eq_exp_minus_1)
  show "ucast v = (ucast c :: u8)" "ucast (drop_bit 8 v) = (ucast c :: u8)"
    "ucast (drop_bit 16 v) = (ucast c :: u8)" "ucast (drop_bit 24 v) = (ucast c :: u8)"
    unfolding v_def m by (auto intro!: bit_word_eqI simp: bit_simps)
qed

lemma stosl_stosb:
  assumes "ucast v = b" "ucast (drop_bit 8 v) = b" "ucast (drop_bit 16 v) = b" "ucast (drop_bit 24 v) = b"
  shows "stosl d v k m = stosb d b (4 * k) m"
proof (induction k arbitrary: d m)
  case (Suc k)
  have "stosb d b (Suc (Suc (Suc (Suc 0)))) m = store32 d v m"
    by (simp add: store32_def assms add.assoc)
  moreover have "4 = Suc (Suc (Suc (Suc 0)))" by simp
  ultimately have "store32 d v m = stosb d b 4 m" by (simp only:)
  then show ?case using Suc stosb_add [of d b 4 "4 * k" m] by simp
qed simp

section \<open>Memory after a copy\<close>

lemma copy_up_mem:
  assumes "k < 2 ^ 32" "d = s \<or> k \<le> unat (d - s)"
  shows "copy_up d s k m a = (if unat (a - d) < k then m (s + (a - d)) else m a)"
  using assms
proof (induction k arbitrary: d s m)
  case (Suc k)
  let ?m = "m(d := m s)"
  have IH: "copy_up (d + 1) (s + 1) k ?m a =
      (if unat (a - (d + 1)) < k then ?m (s + 1 + (a - (d + 1))) else ?m a)"
    using Suc.prems by (intro Suc.IH) auto
  show ?case
  proof (cases "a = d")
    case True
    then show ?thesis using IH Suc.prems(1) by simp
  next
    case False
    have e: "unat (a - (d + 1)) < k \<longleftrightarrow> unat (a - d) < Suc k" by (rule unat_minus_Suc [OF False])
    have "s + (a - d) \<noteq> d \<or> d = s" if "unat (a - d) < Suc k"
      using that Suc.prems(2) by (metis add_diff_cancel_left' not_le)
    then show ?thesis using IH False e by (auto simp: algebra_simps)
  qed
qed simp

lemma copy_down_mem:
  assumes "k < 2 ^ 32" "d = s \<or> k \<le> unat (s - d)"
  shows "copy_down (d + of_nat k) (s + of_nat k) k m a = (if unat (a - d) < k then m (s + (a - d)) else m a)"
  using assms
proof (induction k arbitrary: m)
  case (Suc k)
  let ?m = "m(d + of_nat k := m (s + of_nat k))"
  have "copy_down (d + of_nat (Suc k)) (s + of_nat (Suc k)) (Suc k) m a =
      copy_down (d + of_nat k) (s + of_nat k) k ?m a"
    by (simp add: add.commute add.left_commute)
  also have "\<dots> = (if unat (a - d) < k then ?m (s + (a - d)) else ?m a)"
    using Suc.prems by (intro Suc.IH) auto
  also have "\<dots> = (if unat (a - d) < Suc k then m (s + (a - d)) else m a)"
  proof -
    have k: "unat (of_nat k :: u32) = k" using Suc.prems(1) by (simp add: unat_of_nat)
    have a: "a = d + of_nat k \<longleftrightarrow> unat (a - d) = k"
      using k by (metis add_diff_cancel_left' add.commute diff_add_cancel word_unat_eq_iff)
    have "s + (a - d) \<noteq> d + of_nat k \<or> d = s" if "unat (a - d) < k"
    proof (rule ccontr)
      assume c: "\<not> (s + (a - d) \<noteq> d + of_nat k \<or> d = s)"
      then have "s - d = of_nat k - (a - d)" by (simp add: algebra_simps)
      moreover have "unat (of_nat k - (a - d)) = k - unat (a - d)"
        using that k by (subst unat_sub) (auto simp: word_le_nat_alt)
      ultimately have "unat (s - d) = k - unat (a - d)" by (simp only:)
      moreover have "Suc k \<le> unat (s - d)" using Suc.prems(2) c by blast
      ultimately show False by linarith
    qed
    then show ?thesis using a by (auto simp: less_Suc_eq)
  qed
  finally show ?case .
qed simp

lemma unat_sub_wrap: "(b :: u32) < a \<Longrightarrow> unat (b - a) = 2 ^ 32 + unat b - unat a"
  by (simp add: unat_sub_if_size word_less_nat_alt word_le_nat_alt word_size)

lemma memmove_mem:
  assumes "unat src + unat n < 2 ^ 32" "unat dst + unat n \<le> 2 ^ 32"
  shows "memmove dst src n m = (\<lambda>a. if unat (a - dst) < unat n then m (src + (a - dst)) else m a)"
proof (cases "src < dst \<and> dst < src + n")
  case True
  then have "unat n \<le> unat (src - dst)" using assms(2) unat_sub_wrap [of src dst] by simp
  then show ?thesis
    using True copy_down_mem [of "unat n" dst src m] unsigned_less [of n] by (auto simp: memmove_def)
next
  case False
  have "unat (src + n) = unat src + unat n" using assms(1) unat_add_of_nat [of src "unat n"] by simp
  then have nov: "\<not> (src < dst \<and> unat dst < unat src + unat n)" using False by (simp add: word_less_nat_alt)
  have "dst = src \<or> unat n \<le> unat (dst - src)"
  proof (cases dst src rule: linorder_cases)
    case less
    then show ?thesis using assms(1) unat_sub_wrap [of dst src] by linarith
  next
    case greater
    then have "unat (dst - src) = unat dst - unat src" by (simp add: unat_sub)
    then show ?thesis using nov greater by linarith
  qed simp
  then show ?thesis
    using False copy_up_mem [of "unat n" dst src m] unsigned_less [of n] by (auto simp: memmove_def)
qed

lemma memset_mem:
  "memset dst c n m = (\<lambda>a. if unat (a - dst) < unat n then ucast c else m a)"
proof
  fix a
  have n: "unat n < 2 ^ 32" using unsigned_less [of n] by simp
  show "memset dst c n m a = (if unat (a - dst) < unat n then ucast c else m a)"
  proof (cases "unat dst mod 4 = 0 \<and> unat n mod 4 = 0")
    case True
    then have "4 * (unat n div 4) = unat n" by auto
    then show ?thesis
      using True stosl_stosb [OF rep_byte, of dst c "unat n div 4" m] stosb_mem [OF n]
      by (simp add: memset_def Let_def)
  next
    case False
    then have "memset dst c n m = stosb dst (ucast c) (unat n) m" by (simp only: memset_def if_False)
    then show ?thesis by (simp only: stosb_mem [OF n])
  qed
qed

section \<open>Properties\<close>

text \<open>
  C26: \<open>memmove\<close> copies correctly whether or not the two ranges overlap: afterwards the destination
  holds what the source held before, and no other byte has changed. Neither range may run past the end of memory.
\<close>

theorem memmove_moves:
  assumes "unat src + unat n < 2 ^ 32" "unat dst + unat n \<le> 2 ^ 32"
  shows "memmove dst src n m = (\<lambda>a. if unat (a - dst) < unat n then m (src + (a - dst)) else m a)"
  using assms by (rule memmove_mem)

text \<open>Two overlapping ranges: eight bytes moved up by four.\<close>

theorem memmove_moves_witness:
  "memmove 0x1004 0x1000 8 (\<lambda>a. ucast a) 0x100B = 7"
proof -
  have "memmove 0x1004 0x1000 8 (\<lambda>a. ucast a) =
    (\<lambda>a. if unat (a - 0x1004 :: u32) < unat (8 :: u32) then ucast (0x1000 + (a - 0x1004)) else ucast a)"
    by (rule memmove_moves) simp_all
  then show ?thesis by simp
qed

text \<open>
  The word-at-a-time fast path of \<open>memset\<close> and its byte loop do the same: \<open>n\<close> bytes from
  \<open>dst\<close> on hold the low byte of \<open>c\<close>, every other byte keeps its value.
\<close>

theorem memset_fills:
  "memset dst c n m = (\<lambda>a. if unat (a - dst) < unat n then ucast c else m a)"
  by (rule memset_mem)

lemma strncmp_zero: "strncmp p q n = 0 \<longleftrightarrow> (\<forall>i<n. (\<forall>j<i. p j \<noteq> 0) \<longrightarrow> p i = q i)"
proof (induction n arbitrary: p q)
  case (Suc n)
  show ?case
  proof (cases "p 0 = q 0")
    case True
    have "(\<forall>i<Suc n. (\<forall>j<i. p j \<noteq> 0) \<longrightarrow> p i = q i) \<longleftrightarrow>
        (p 0 \<noteq> 0 \<longrightarrow> (\<forall>i<n. (\<forall>j<i. p (Suc j) \<noteq> 0) \<longrightarrow> p (Suc i) = q (Suc i)))"
      using True by (auto simp: All_less_Suc2)
    then show ?thesis using True Suc [of "\<lambda>i. p (Suc i)" "\<lambda>i. q (Suc i)"] by simp
  qed (auto simp: word_uint_eq_iff)
qed simp

lemma safestrcpy_loop_spec:
  "\<exists>k<length (safestrcpy_loop t n). safestrcpy_loop t n ! k = 0 \<and> k \<le> n \<and>
     (\<forall>i<k. safestrcpy_loop t n ! i = t i \<and> t i \<noteq> 0) \<and> (k = n \<or> t k = 0)"
  "length (safestrcpy_loop t n) \<le> Suc n"
proof (induction n arbitrary: t)
  case (Suc n)
  {
    case 1
    show ?case
    proof (cases "t 0 = 0")
      case True
      then show ?thesis by (intro exI [of _ 0]) simp
    next
      case False
      obtain k where "k < length (safestrcpy_loop (\<lambda>i. t (Suc i)) n)" "safestrcpy_loop (\<lambda>i. t (Suc i)) n ! k = 0"
        "k \<le> n" "\<forall>i<k. safestrcpy_loop (\<lambda>i. t (Suc i)) n ! i = t (Suc i) \<and> t (Suc i) \<noteq> 0" "k = n \<or> t (Suc k) = 0"
        using Suc.IH(1) [of "\<lambda>i. t (Suc i)"] by blast
      then show ?thesis using False by (intro exI [of _ "Suc k"]) (auto simp: All_less_Suc2)
    qed
  next
    case 2
    show ?case using Suc.IH(2) [of "\<lambda>i. t (Suc i)"] by simp
  }
qed simp_all

text \<open>
  \<open>safestrcpy\<close> into a buffer of \<open>n > 0\<close> bytes stores at most \<open>n\<close> bytes and always terminates the
  string: the copy is the longest prefix of the source string that fits.
\<close>

theorem safestrcpy_fits:
  assumes "0 < n"
  shows "length (safestrcpy t n) \<le> nat n \<and>
    (\<exists>k<length (safestrcpy t n). safestrcpy t n ! k = 0 \<and>
       (\<forall>i<k. safestrcpy t n ! i = t i \<and> t i \<noteq> 0) \<and> (k = nat (n - 1) \<or> t k = 0))"
proof -
  have e: "safestrcpy t n = safestrcpy_loop t (nat (n - 1))" using assms by (simp add: safestrcpy_def)
  have "length (safestrcpy_loop t (nat (n - 1))) \<le> nat n"
    using safestrcpy_loop_spec(2) [of t "nat (n - 1)"] assms by linarith
  then show ?thesis unfolding e using safestrcpy_loop_spec(1) [of t "nat (n - 1)"] by blast
qed

theorem safestrcpy_fits_witness: "length (safestrcpy (\<lambda>i. 65) 4) \<le> 4 \<and> safestrcpy (\<lambda>i. 65) 4 = [65, 65, 65, 0]"
  using safestrcpy_fits [of 4 "\<lambda>i. 65"] by (simp add: safestrcpy_def numeral_3_eq_3)

lemma strncpy_loop_nth:
  "length (strncpy_loop t n) = n"
  "i < n \<Longrightarrow> strncpy_loop t n ! i = (if \<forall>j\<le>i. t j \<noteq> 0 then t i else 0)"
proof (induction n arbitrary: t i)
  case (Suc n)
  {
    case 1
    show ?case using Suc.IH(1) [of "\<lambda>i. t (Suc i)"] by simp
  next
    case 2
    then show ?case
      using Suc.IH(2) [of _ "\<lambda>i. t (Suc i)"]
      by (cases i) (auto simp: nth_Cons' less_Suc_eq_le [symmetric] All_less_Suc2)
  }
qed simp_all

lemma strlen_from_least:
  assumes "s k = 0" "\<And>j. n \<le> j \<Longrightarrow> j < k \<Longrightarrow> s j \<noteq> 0" "n \<le> k"
  shows "strlen_from s n = Some k"
  using assms(3,2)
proof (induction "k - n" arbitrary: n)
  case 0
  then show ?case using assms(1) by (simp add: strlen_from.simps)
next
  case (Suc d)
  then have "s n \<noteq> 0" "strlen_from s (Suc n) = Some k" by (auto intro: Suc.hyps(1))
  then show ?case by (subst strlen_from.simps) simp
qed

lemma strlen_string: "s k = 0 \<Longrightarrow> (\<And>j. j < k \<Longrightarrow> s j \<noteq> 0) \<Longrightarrow> strlen s = Some k"
  unfolding strlen_def by (rule strlen_from_least) auto

end
