(* ===== verification/Fs_Block.thy ===== *)
theory Fs_Block
  imports Txn Kstring
begin

text \<open>
  The state of \<open>kern/fs.c\<close> and its block layer: the superblock in memory, the free-block bitmap and
  the allocator on it. The in-memory inodes of \<open>icache\<close> are part of the state; their operations follow
  in the next theory. The device number is that of the root disk throughout the proofs.
\<close>

section \<open>State\<close>

definition NDIRECT :: nat where [layout_defs]: "NDIRECT = 11"
definition NINDIRECT :: nat where [layout_defs]: "NINDIRECT = BSIZE div 4"
definition MAXFILE :: nat where [layout_defs]: "MAXFILE = NDIRECT + NINDIRECT"
definition sizeof_dinode :: nat where [layout_defs]: "sizeof_dinode = 2 + 2 + 2 + 2 + 4 + 4 + 4 * (NDIRECT + 1)"
definition IPB :: nat where [layout_defs]: "IPB = BSIZE div sizeof_dinode"
definition BPB :: nat where [layout_defs]: "BPB = BSIZE * 8"
definition ROOTINO :: u32 where "ROOTINO = 1"

datatype iflag = I_BUSY | I_VALID

record inode =
  i_dev :: u32
  i_inum :: u32
  i_ref :: int
  i_flags :: "iflag set"
  i_type :: u16
  i_major :: u16
  i_minor :: u16
  i_nlink :: u16
  i_size :: u32
  i_mtime :: u32
  i_addrs :: "nat \<Rightarrow> u32"

text \<open>\<open>now\<close> is what \<open>sys_time\<close> returns: the reading of the real-time clock.\<close>

record fs_state = log_state +
  sb :: superblock
  icache :: "nat \<Rightarrow> inode"
  now :: u32

definition IBLOCK :: "u32 \<Rightarrow> superblock \<Rightarrow> u32" where
  "IBLOCK i b = of_nat (unat i div IPB) + sb_inodestart b"

definition BBLOCK :: "nat \<Rightarrow> superblock \<Rightarrow> u32" where
  "BBLOCK n b = of_nat (n div BPB) + sb_bmapstart b"

section \<open>Operations\<close>

definition bzero :: "u32 \<Rightarrow> u32 \<Rightarrow> 'a log_state_scheme \<Rightarrow> 'a log_state_scheme outcome" where
  "bzero d bno s =
     obind (bread d bno s) (\<lambda>(bp, s).
     obind (log_write bp (set_data bp (replicate BSIZE 0) s)) (\<lambda>s.
     brelse bp s))"

text \<open>
  The inner loop of \<open>balloc\<close> looks for a clear bit in one block of the bitmap, the outer loop goes
  through the blocks of the bitmap: \<open>k\<close> more of them, the next one starting with block \<open>b\<close>.
\<close>

definition bit_of :: "bytes \<Rightarrow> nat \<Rightarrow> bool" where
  "bit_of d bi \<longleftrightarrow> (d ! (bi div 8)) AND push_bit (bi mod 8) 1 \<noteq> 0"

definition set_bit_of :: "bytes \<Rightarrow> nat \<Rightarrow> bytes" where
  "set_bit_of d bi = d[bi div 8 := (d ! (bi div 8)) OR push_bit (bi mod 8) 1]"

definition clear_bit_of :: "bytes \<Rightarrow> nat \<Rightarrow> bytes" where
  "clear_bit_of d bi = d[bi div 8 := (d ! (bi div 8)) AND NOT (push_bit (bi mod 8) 1)]"

primrec balloc_loop :: "nat \<Rightarrow> u32 \<Rightarrow> nat \<Rightarrow> 'a fs_state_scheme \<Rightarrow> (u32 \<times> 'a fs_state_scheme) outcome" where
  "balloc_loop 0 d b s = Panic ''balloc: out of blocks''"
| "balloc_loop (Suc k) d b s =
     obind (bread d (BBLOCK b (sb s)) s) (\<lambda>(bp, s).
       case find (\<lambda>bi. \<not> bit_of (data (bufs s bp)) bi) [0..<min BPB (unat (sb_size (sb s)) - b)] of
         Some bi \<Rightarrow>
           obind (log_write bp (set_data bp (set_bit_of (data (bufs s bp)) bi) s)) (\<lambda>s.
           obind (brelse bp s) (\<lambda>s.
           obind (bzero d (of_nat (b + bi)) s) (\<lambda>s.
             Done (of_nat (b + bi), s))))
       | None \<Rightarrow> obind (brelse bp s) (\<lambda>s. balloc_loop k d (b + BPB) s))"

definition balloc :: "u32 \<Rightarrow> 'a fs_state_scheme \<Rightarrow> (u32 \<times> 'a fs_state_scheme) outcome" where
  "balloc d s = balloc_loop ((unat (sb_size (sb s)) + BPB - 1) div BPB) d 0 s"

definition bfree :: "u32 \<Rightarrow> u32 \<Rightarrow> 'a fs_state_scheme \<Rightarrow> 'a fs_state_scheme outcome" where
  "bfree d b s =
     obind (readsb d s) (\<lambda>(sb', s).
       let s = s\<lparr>sb := sb'\<rparr> in
     obind (bread d (BBLOCK (unat b) (sb s)) s) (\<lambda>(bp, s).
       let bi = unat b mod BPB in
       if \<not> bit_of (data (bufs s bp)) bi then Panic ''freeing free block''
       else
         obind (log_write bp (set_data bp (clear_bit_of (data (bufs s bp)) bi) s)) (\<lambda>s.
         brelse bp s)))"

section \<open>Bits of a block\<close>

lemma bit_of_bit: "bit_of d bi \<longleftrightarrow> bit (d ! (bi div 8)) (bi mod 8)"
  by (simp add: bit_of_def push_bit_of_1 and_exp_eq_0_iff_not_bit)

lemma div_mod_eqD: "a div 8 = b div 8 \<Longrightarrow> a mod 8 = b mod 8 \<Longrightarrow> a = (b :: nat)"
  by (metis div_mult_mod_eq)

lemma length_bit_of [simp]: "length (set_bit_of d bi) = length d" "length (clear_bit_of d bi) = length d"
  by (simp_all add: set_bit_of_def clear_bit_of_def)

lemma bit_of_set: "bi div 8 < length d \<Longrightarrow> bit_of (set_bit_of d bi) bj \<longleftrightarrow> bj = bi \<or> bit_of d bj"
  by (auto simp: bit_of_bit set_bit_of_def nth_list_update bit_simps dest: div_mod_eqD)

lemma bit_of_clear: "bi div 8 < length d \<Longrightarrow> bit_of (clear_bit_of d bi) bj \<longleftrightarrow> bj \<noteq> bi \<and> bit_of d bj"
  by (auto simp: bit_of_bit clear_bit_of_def nth_list_update bit_simps dest: div_mod_eqD)

section \<open>Layout of the disk\<close>

text \<open>
  The layout \<open>mkfs\<close> produces: boot block, superblock, log, inode blocks, bitmap, data. Every block up to
  the end of the bitmap is marked in use, so that \<open>balloc\<close> never hands out one of them.
\<close>

definition datastart :: "'a fs_state_scheme \<Rightarrow> nat" where
  "datastart s = unat (sb_bmapstart (sb s)) + unat (sb_size (sb s)) div BPB + 1"

definition fs_layout :: "'a fs_state_scheme \<Rightarrow> bool" where
  "fs_layout s \<longleftrightarrow>
     superblock_of (blk s 1) = sb s \<and> 1 < unat (log_start s) \<and> 0 \<le> log_size s \<and>
     int (unat (log_start s)) + log_size s \<le> int (unat (sb_inodestart (sb s))) \<and>
     unat (sb_inodestart (sb s)) + unat (sb_ninodes (sb s)) div IPB < unat (sb_bmapstart (sb s)) \<and>
     datastart s \<le> unat (sb_size (sb s)) \<and> unat (sb_size (sb s)) \<le> disksize s \<and> disksize s < 2 ^ 31"

definition used :: "'a fs_state_scheme \<Rightarrow> nat \<Rightarrow> bool" where
  "used s b \<longleftrightarrow> bit_of (blk s (BBLOCK b (sb s))) (b mod BPB)"

definition fs_inv :: "'a fs_state_scheme \<Rightarrow> bool" where
  "fs_inv s \<longleftrightarrow> txn s \<and> fs_layout s \<and> (\<forall>b<datastart s. used s b)"

text \<open>While a block is allocated or freed, only data blocks that are in use may be held.\<close>

definition held_ok :: "'a fs_state_scheme \<Rightarrow> bool" where
  "held_ok s \<longleftrightarrow> (\<forall>n\<in>busy s. datastart s \<le> unat n \<and> unat n < unat (sb_size (sb s)) \<and> used s (unat n))"

lemma fs_more:
  assumes "log_state.more t = log_state.more s"
  shows "sb t = sb s" "icache t = icache s" "now t = now s" "fs_state.more t = fs_state.more s"
  using assms by (cases s; cases t; simp)+

lemma fs_invD:
  assumes "fs_inv s"
  shows "txn s" "linv s" "fs_layout s" "b < datastart s \<Longrightarrow> used s b"
  using assms by (auto simp: fs_inv_def txn_def)

lemma wrote_same:
  assumes "edits s [] B t"
  shows "used t = used s" "datastart t = datastart s" "sb t = sb s" "fs_layout t = fs_layout s"
    "fs_inv s \<Longrightarrow> fs_inv t" "icache t = icache s" "now t = now s"
  using assms fs_more [of t s] edits_txn [OF assms]
  by (auto simp: edits_def used_def datastart_def fs_layout_def fs_inv_def fun_eq_iff)

lemma held_ok_same: "wrote s [] t \<Longrightarrow> held_ok s \<Longrightarrow> held_ok t"
  using wrote_same [of s "busy s" t] by (simp add: held_ok_def edits_def)

lemma bitmap_block:
  assumes "fs_layout s" "b < unat (sb_size (sb s))"
  shows "unat (BBLOCK b (sb s)) = unat (sb_bmapstart (sb s)) + b div BPB"
    "unat (BBLOCK b (sb s)) < datastart s" "unat (BBLOCK b (sb s)) < disksize s"
    "\<not> in_log s (BBLOCK b (sb s))"
proof -
  have d: "b div BPB \<le> unat (sb_size (sb s)) div BPB" using assms(2) by (intro div_le_mono) simp
  then have "unat (sb_bmapstart (sb s)) + b div BPB < 2 ^ 31"
    using assms unfolding fs_layout_def datastart_def by linarith
  then have "unat (sb_bmapstart (sb s)) + b div BPB < 2 ^ 32" by simp
  then have "unat (sb_bmapstart (sb s) + of_nat (b div BPB)) = unat (sb_bmapstart (sb s)) + b div BPB"
    by (rule unat_add_of_nat)
  then show u: "unat (BBLOCK b (sb s)) = unat (sb_bmapstart (sb s)) + b div BPB"
    by (simp add: BBLOCK_def add.commute)
  show "unat (BBLOCK b (sb s)) < datastart s" "unat (BBLOCK b (sb s)) < disksize s"
    "\<not> in_log s (BBLOCK b (sb s))"
    using assms d unfolding u fs_layout_def datastart_def in_log_def by linarith+
qed

lemma data_block:
  assumes "fs_layout s" "datastart s \<le> b" "b < unat (sb_size (sb s))"
  shows "unat (of_nat b :: u32) = b" "unat (of_nat b :: u32) < disksize s" "\<not> in_log s (of_nat b)"
    "c < unat (sb_size (sb s)) \<Longrightarrow> BBLOCK c (sb s) \<noteq> of_nat b"
proof -
  have "b < 2 ^ 31" using assms unfolding fs_layout_def by linarith
  then show u: "unat (of_nat b :: u32) = b" by (simp add: unat_of_nat)
  show "unat (of_nat b :: u32) < disksize s" "\<not> in_log s (of_nat b)"
    using assms unfolding u fs_layout_def datastart_def in_log_def by linarith+
  assume "c < unat (sb_size (sb s))"
  from bitmap_block(2) [OF assms(1) this] show "BBLOCK c (sb s) \<noteq> of_nat b" using assms(2) u by auto
qed

lemma length_block: "fs_inv s \<Longrightarrow> unat n < disksize s \<Longrightarrow> length (blk s n) = BSIZE"
  using length_blk [of s n] fs_invD(2) [of s] by (simp add: linv_def)

section \<open>Allocation\<close>

lemma bzero_wrote:
  assumes "txn s" "n \<notin> busy s" "unat n < disksize s" "\<not> in_log s n" "room s (Suc (card (busy s)))"
  obtains t where "bzero 1 n s = Done t" "wrote s [(n, replicate BSIZE 0)] t"
proof -
  obtain i t where e: "bread 1 n s = Done (i, t)"
    "\<And>d. length d = BSIZE \<Longrightarrow>
       \<exists>u v. log_write i (set_data i d t) = Done u \<and> brelse i u = Done v \<and> wrote s [(n, d)] v \<and>
         log_state.more u = log_state.more s"
    using edit_block [OF assms] by metis
  obtain u v where "log_write i (set_data i (replicate BSIZE 0) t) = Done u" "brelse i u = Done v"
    "wrote s [(n, replicate BSIZE 0)] v"
    using e(2) [of "replicate BSIZE 0"] by auto
  with e(1) show ?thesis using that by (simp add: bzero_def)
qed

definition balloc_ws :: "'a fs_state_scheme \<Rightarrow> nat \<Rightarrow> (u32 \<times> bytes) list" where
  "balloc_ws s b =
     [(BBLOCK b (sb s), set_bit_of (blk s (BBLOCK b (sb s))) (b mod BPB)), (of_nat b, replicate BSIZE 0)]"

lemma find_upt_Some: "find P [0..<n] = Some i \<Longrightarrow> i < n \<and> P i \<and> (\<forall>j<i. \<not> P j)"
  by (auto simp: find_Some_iff)

lemma balloc_found:
  assumes f: "fs_inv s" and h: "held_ok s" and r: "room s (Suc (Suc (card (busy s))))"
    and b: "b < unat (sb_size (sb s))" "\<not> used s b"
  obtains i t u v w where "bread 1 (BBLOCK b (sb s)) s = Done (i, t)" "data (bufs t i) = blk s (BBLOCK b (sb s))"
    "sb t = sb s"
    "log_write i (set_data i (set_bit_of (data (bufs t i)) (b mod BPB)) t) = Done u" "brelse i u = Done v"
    "bzero 1 (of_nat b) v = Done w" "wrote s (balloc_ws s b) w"
proof -
  note fi = fs_invD [OF f]
  let ?n = "BBLOCK b (sb s)" and ?m = "of_nat b :: u32"
  note n = bitmap_block [OF fi(3) b(1)]
  have ds: "datastart s \<le> b" using fi(4) b(2) by (meson not_le)
  note m = data_block [OF fi(3) ds b(1)]
  have nb: "?n \<notin> busy s" "?m \<notin> busy s" using h n(2) m(1) b(2) by (auto simp: held_ok_def)
  obtain i t where e: "bread 1 ?n s = Done (i, t)" "data (bufs t i) = blk s ?n" "log_state.more t = log_state.more s"
    "\<And>d. length d = BSIZE \<Longrightarrow>
       \<exists>u v. log_write i (set_data i d t) = Done u \<and> brelse i u = Done v \<and> wrote s [(?n, d)] v \<and>
         log_state.more u = log_state.more s"
    using edit_block [OF fi(1) nb(1) n(3,4) room_less [OF r]] by (metis le_SucI order_refl)
  let ?d = "set_bit_of (blk s ?n) (b mod BPB)"
  obtain u v where u: "log_write i (set_data i ?d t) = Done u" "brelse i u = Done v" "wrote s [(?n, ?d)] v"
    using e(4) [of ?d] length_block [OF f n(3)] by auto
  note lv = edits_log [OF u(3)]
  have rv: "room v (Suc (card (busy v)))"
    using edits_room_length [OF fi(2) u(3), of "Suc (card (busy s))"] r lv(4) by simp
  obtain w where w: "bzero 1 ?m v = Done w" "wrote v [(?m, replicate BSIZE 0)] w"
    using bzero_wrote [OF edits_txn [OF u(3) fi(1)] _ _ _ rv] m nb lv by metis
  have "wrote s (balloc_ws s b) w" using wrote_trans [OF u(3) w(2)] by (simp add: balloc_ws_def)
  then show ?thesis using that [OF e(1,2) _ _ u(2) w(1)] u(1) e(2) fs_more(1) [OF e(3)] by simp
qed

lemma used_in_block:
  assumes "bi < BPB"
  shows "used s (BPB * j + bi) \<longleftrightarrow> bit_of (blk s (BBLOCK (BPB * j) (sb s))) bi"
    "BBLOCK (BPB * j + bi) (sb s) = BBLOCK (BPB * j) (sb s)" "(BPB * j + bi) mod BPB = bi"
  using assms by (simp_all add: used_def BBLOCK_def)

lemma balloc_loop_spec:
  assumes "fs_inv s" "held_ok s" "room s (Suc (Suc (card (busy s))))"
    "(unat (sb_size (sb s)) + BPB - 1) div BPB = j + k" "\<forall>c<BPB * j. c < unat (sb_size (sb s)) \<longrightarrow> used s c"
  shows "(\<forall>c<unat (sb_size (sb s)). used s c) \<and> balloc_loop k 1 (BPB * j) s = Panic ''balloc: out of blocks'' \<or>
    (\<exists>b t. b < unat (sb_size (sb s)) \<and> \<not> used s b \<and> (\<forall>c<b. used s c) \<and>
       balloc_loop k 1 (BPB * j) s = Done (of_nat b, t) \<and> wrote s (balloc_ws s b) t)"
  using assms
proof (induction k arbitrary: j s)
  case 0
  have "unat (sb_size (sb s)) \<le> BPB * j" using 0(4) by (simp add: BPB_def BSIZE_def)
  then show ?case using 0(5) by simp
next
  case (Suc k)
  let ?n = "BBLOCK (BPB * j) (sb s)" and ?m = "min BPB (unat (sb_size (sb s)) - BPB * j)"
  have bj: "BPB * j < unat (sb_size (sb s))" using Suc.prems(4) by (simp add: BPB_def BSIZE_def)
  note fi = fs_invD [OF Suc.prems(1)] and n = bitmap_block [OF fs_invD(3) [OF Suc.prems(1)] bj]
  show ?case
  proof (cases "find (\<lambda>bi. \<not> bit_of (blk s ?n) bi) [0..<?m]")
    case (Some bi)
    then have bi: "bi < BPB" "BPB * j + bi < unat (sb_size (sb s))" "\<not> used s (BPB * j + bi)"
      "\<forall>c<bi. used s (BPB * j + c)"
      by (auto dest!: find_upt_Some simp: used_in_block)
    have below: "\<forall>c<BPB * j + bi. used s c"
      using Suc.prems(5) bi(2,4) by (metis add_diff_inverse_nat nat_add_left_cancel_less less_trans)
    obtain i t u v w where f: "bread 1 ?n s = Done (i, t)" "data (bufs t i) = blk s ?n" "sb t = sb s"
      "log_write i (set_data i (set_bit_of (data (bufs t i)) bi) t) = Done u" "brelse i u = Done v"
      "bzero 1 (of_nat (BPB * j + bi)) v = Done w" "wrote s (balloc_ws s (BPB * j + bi)) w"
      using balloc_found [OF Suc.prems(1-3) bi(2,3)] unfolding used_in_block(2,3) [OF bi(1)] by metis
    have "balloc_loop (Suc k) 1 (BPB * j) s = Done (of_nat (BPB * j + bi), w)"
      using f(1-6) Some by simp
    with f(7) bi(2,3) below show ?thesis by blast
  next
    case None
    then have free: "used s (BPB * j + bi)" if "bi < ?m" for bi
      using that by (auto simp: find_None_iff used_in_block)
    have nb: "?n \<notin> busy s" using Suc.prems(2) n(2) by (auto simp: held_ok_def)
    obtain i t u where t: "bread 1 ?n s = Done (i, t)" "data (bufs t i) = blk s ?n"
      "log_state.more t = log_state.more s" "brelse i t = Done u" "wrote s [] u"
      using peek_block [OF fi(2) nb n(3)] room_less [OF Suc.prems(3), of "card (busy s)"] by auto
    note same = wrote_same [OF t(5)]
    have all: "\<forall>c<BPB * Suc j. c < unat (sb_size (sb s)) \<longrightarrow> used s c"
    proof (intro allI impI)
      fix c assume c: "c < BPB * Suc j" "c < unat (sb_size (sb s))"
      show "used s c"
      proof (cases "c < BPB * j")
        case False
        then have "c - BPB * j < ?m" "BPB * j + (c - BPB * j) = c" using c by auto
        then show ?thesis using free [of "c - BPB * j"] by simp
      qed (use c(2) Suc.prems(5) in simp)
    qed
    have step: "balloc_loop (Suc k) 1 (BPB * j) s = balloc_loop k 1 (BPB * Suc j) u"
      using t fs_more(1) [OF t(3)] None by (simp add: add.commute)
    have bu: "busy u = busy s" using t(5) by (simp add: edits_def)
    have ru: "room u (Suc (Suc (card (busy u))))"
      using edits_room_length [OF fi(2) t(5), of "Suc (Suc (card (busy s)))"] Suc.prems(3) bu by simp
    have "balloc_ws u b = balloc_ws s b" for b using t(5) same by (simp add: balloc_ws_def edits_def)
    moreover have "wrote s ws t" if "wrote u ws t" for ws t using wrote_trans [OF t(5) that] by simp
    moreover note Suc.IH [of u "Suc j", OF same(5) [OF Suc.prems(1)] held_ok_same [OF t(5) Suc.prems(2)] ru]
    ultimately show ?thesis
      using Suc.prems(4) all unfolding step same by (metis add_Suc_shift)
  qed
qed

lemma balloc_spec:
  assumes "fs_inv s" "held_ok s" "room s (Suc (Suc (card (busy s))))"
  shows "(\<forall>c<unat (sb_size (sb s)). used s c) \<and> balloc 1 s = Panic ''balloc: out of blocks'' \<or>
    (\<exists>b t. b < unat (sb_size (sb s)) \<and> \<not> used s b \<and> (\<forall>c<b. used s c) \<and>
       balloc 1 s = Done (of_nat b, t) \<and> wrote s (balloc_ws s b) t)"
  using balloc_loop_spec [OF assms, of 0 "(unat (sb_size (sb s)) + BPB - 1) div BPB"] by (simp add: balloc_def)

section \<open>Freeing\<close>

definition bfree_ws :: "'a fs_state_scheme \<Rightarrow> nat \<Rightarrow> (u32 \<times> bytes) list" where
  "bfree_ws s b = [(BBLOCK b (sb s), clear_bit_of (blk s (BBLOCK b (sb s))) (b mod BPB))]"

lemma readsb_wrote:
  assumes "fs_inv s" "held_ok s" "room s (card (busy s))"
  obtains t where "readsb 1 s = Done (sb s, t)" "wrote s [] t"
proof -
  note fi = fs_invD [OF assms(1)]
  have g: "1 < datastart s" "1 < disksize s" using fi(3) unfolding fs_layout_def datastart_def by linarith+
  have nb: "1 \<notin> busy s" using assms(2) g(1) by (auto simp: held_ok_def)
  have "unat (1 :: u32) < disksize s" using g(2) by simp
  from peek_block [OF fi(2) nb this assms(3)] obtain i t u where t: "bread 1 1 s = Done (i, t)"
    "data (bufs t i) = blk s 1" "brelse i t = Done u" "wrote s [] u"
    by metis
  have "superblock_of (blk s 1) = sb s" using fi(3) by (simp add: fs_layout_def)
  then show ?thesis using that t by (simp add: readsb_def)
qed

lemma bfree_spec:
  assumes f: "fs_inv s" and h: "held_ok s" and r: "room s (Suc (card (busy s)))"
    and b: "unat b < unat (sb_size (sb s))"
  shows "if used s (unat b) then \<exists>t. bfree 1 b s = Done t \<and> wrote s (bfree_ws s (unat b)) t
    else bfree 1 b s = Panic ''freeing free block''"
proof -
  note fi = fs_invD [OF f]
  obtain t where t: "readsb 1 s = Done (sb s, t)" "wrote s [] t"
    using readsb_wrote [OF f h room_less [OF r]] by auto
  note same = wrote_same [OF t(2)] and lt = edits_log [OF t(2)]
  have ts: "t\<lparr>sb := sb s\<rparr> = t" using same(3) by (metis fs_state.surjective fs_state.update_convs(1))
  let ?n = "BBLOCK (unat b) (sb s)"
  note n = bitmap_block [OF fi(3) b]
  have nb: "?n \<notin> busy t" using h n(2) lt(4) by (auto simp: held_ok_def)
  have rt: "room t (Suc (card (busy t)))"
    using edits_room_length [OF fi(2) t(2), of "Suc (card (busy s))"] r lt(4) by simp
  obtain i u where e: "bread 1 ?n t = Done (i, u)" "data (bufs u i) = blk t ?n"
    "\<And>d. length d = BSIZE \<Longrightarrow>
       \<exists>v w. log_write i (set_data i d u) = Done v \<and> brelse i v = Done w \<and> wrote t [(?n, d)] w \<and>
         log_state.more v = log_state.more t"
    using edit_block [OF edits_txn [OF t(2) fi(1)] nb _ _ rt] n(3,4) lt by metis
  let ?d = "clear_bit_of (blk s ?n) (unat b mod BPB)"
  obtain v w where w: "log_write i (set_data i ?d u) = Done v" "brelse i v = Done w" "wrote t [(?n, ?d)] w"
    using e(3) [of ?d] length_block [OF f n(3)] by auto
  have "wrote s (bfree_ws s (unat b)) w" using wrote_trans [OF t(2) w(3)] by (simp add: bfree_ws_def)
  moreover have "blk t = blk s" using lt(5) by simp
  ultimately show ?thesis
    using t(1) e(1,2) w(1,2) same(3) by (simp add: bfree_def used_def Let_def ts)
qed

section \<open>Effect on the bitmap\<close>

lemma BBLOCK_inj:
  assumes "fs_layout s" "b < unat (sb_size (sb s))" "c < unat (sb_size (sb s))"
  shows "BBLOCK b (sb s) = BBLOCK c (sb s) \<longleftrightarrow> b div BPB = c div BPB"
proof
  assume "BBLOCK b (sb s) = BBLOCK c (sb s)"
  then have "unat (BBLOCK b (sb s)) = unat (BBLOCK c (sb s))" by simp
  then show "b div BPB = c div BPB" unfolding bitmap_block(1) [OF assms(1,2)] bitmap_block(1) [OF assms(1,3)] by simp
qed (simp add: BBLOCK_def)

lemma BPB_byte: "b mod BPB div 8 < BSIZE"
  by (simp add: BPB_def BSIZE_def less_mult_imp_div_less)

lemma mod_div_eqD: "a div m = b div m \<Longrightarrow> a mod m = b mod m \<Longrightarrow> a = (b :: nat)"
  by (metis div_mult_mod_eq)

lemma used_frame:
  assumes "edits s ws B t" "fs_layout s" "c < unat (sb_size (sb s))" "BBLOCK c (sb s) \<notin> fst ` set ws"
  shows "used t c = used s c"
  using assms fs_more(1) [of t s] upds_other [OF assms(4)] by (simp add: used_def edits_def)

lemma layout_frame:
  assumes "edits s ws B t" "fs_layout s" "1 \<notin> fst ` set ws"
  shows "fs_layout t" "datastart t = datastart s" "sb t = sb s"
  using assms fs_more(1) [of t s] upds_other [OF assms(3)] by (simp_all add: fs_layout_def datastart_def edits_def)

lemma balloc_effect:
  assumes e: "wrote s (balloc_ws s b) t" and f: "fs_inv s" and b: "b < unat (sb_size (sb s))" "\<not> used s b"
  shows "c < unat (sb_size (sb s)) \<Longrightarrow> used t c \<longleftrightarrow> c = b \<or> used s c" "blk t (of_nat b) = replicate BSIZE 0"
    "n \<noteq> of_nat b \<Longrightarrow> datastart s \<le> unat n \<or> unat n < unat (sb_bmapstart (sb s)) \<Longrightarrow> blk t n = blk s n"
    "fs_inv t" "sb t = sb s" "datastart t = datastart s" "datastart s \<le> b"
proof -
  note fi = fs_invD [OF f]
  show ds: "datastart s \<le> b" using fi(4) b(2) by (meson not_le)
  note m = data_block [OF fi(3) ds b(1)] and n = bitmap_block [OF fi(3) b(1)]
  have one: "1 \<notin> fst ` set (balloc_ws s b)"
  proof -
    have "1 < unat (BBLOCK b (sb s))" "1 < b" using fi(3) ds n(1) unfolding fs_layout_def datastart_def by linarith+
    then show ?thesis using m(1) by (auto simp: balloc_ws_def)
  qed
  note lay = layout_frame [OF e fi(3) one]
  show "sb t = sb s" "datastart t = datastart s" by (fact lay)+
  have bt: "blk t = upds (balloc_ws s b) (blk s)" using e by (simp add: edits_def)
  show "blk t (of_nat b) = replicate BSIZE 0" by (simp add: bt balloc_ws_def)
  show u: "used t c \<longleftrightarrow> c = b \<or> used s c" if c: "c < unat (sb_size (sb s))" for c
  proof (cases "BBLOCK c (sb s) = BBLOCK b (sb s)")
    case True
    then have "c div BPB = b div BPB" using BBLOCK_inj [OF fi(3) c b(1)] by simp
    moreover have "length (blk s (BBLOCK b (sb s))) = BSIZE" by (rule length_block [OF f n(3)])
    ultimately show ?thesis
      using True m(4) [OF b(1)] BPB_byte [of b] mod_div_eqD [of c BPB b]
      by (auto simp: used_def bt lay(3) balloc_ws_def bit_of_set)
  next
    case False
    then have "used t c = used s c" using used_frame [OF e fi(3) c] m(4) [OF c] by (auto simp: balloc_ws_def)
    then show ?thesis using False by auto
  qed
  show "blk t n = blk s n" if "n \<noteq> of_nat b" "datastart s \<le> unat n \<or> unat n < unat (sb_bmapstart (sb s))" for n
    using that n(1,2) by (auto simp: bt balloc_ws_def)
  have "datastart s \<le> unat (sb_size (sb s))" using fi(3) by (simp add: fs_layout_def)
  then show "fs_inv t"
    using edits_txn [OF e fi(1)] lay u fi(4) by (auto simp: fs_inv_def)
qed

lemma bfree_effect:
  assumes e: "wrote s (bfree_ws s b) t" and f: "fs_inv s" and b: "b < unat (sb_size (sb s))" "datastart s \<le> b"
  shows "c < unat (sb_size (sb s)) \<Longrightarrow> used t c \<longleftrightarrow> c \<noteq> b \<and> used s c"
    "datastart s \<le> unat n \<or> unat n < unat (sb_bmapstart (sb s)) \<Longrightarrow> blk t n = blk s n"
    "fs_inv t" "sb t = sb s" "datastart t = datastart s"
proof -
  note fi = fs_invD [OF f]
  note n = bitmap_block [OF fi(3) b(1)]
  have one: "1 \<notin> fst ` set (bfree_ws s b)"
  proof -
    have "1 < unat (BBLOCK b (sb s))" using fi(3) n(1) unfolding fs_layout_def datastart_def by linarith
    then show ?thesis by (auto simp: bfree_ws_def)
  qed
  note lay = layout_frame [OF e fi(3) one]
  show "sb t = sb s" "datastart t = datastart s" by (fact lay)+
  have bt: "blk t = upds (bfree_ws s b) (blk s)" using e by (simp add: edits_def)
  show u: "used t c \<longleftrightarrow> c \<noteq> b \<and> used s c" if c: "c < unat (sb_size (sb s))" for c
  proof (cases "BBLOCK c (sb s) = BBLOCK b (sb s)")
    case True
    then have "c div BPB = b div BPB" using BBLOCK_inj [OF fi(3) c b(1)] by simp
    moreover have "length (blk s (BBLOCK b (sb s))) = BSIZE" by (rule length_block [OF f n(3)])
    ultimately show ?thesis
      using True BPB_byte [of b] mod_div_eqD [of c BPB b]
      by (auto simp: used_def bt lay(3) bfree_ws_def bit_of_clear)
  next
    case False
    then have "used t c = used s c" using used_frame [OF e fi(3) c] by (auto simp: bfree_ws_def)
    then show ?thesis using False by auto
  qed
  show "blk t n = blk s n" if "datastart s \<le> unat n \<or> unat n < unat (sb_bmapstart (sb s))" for n
    using that n(1,2) by (auto simp: bt bfree_ws_def)
  have "datastart s \<le> unat (sb_size (sb s))" using fi(3) by (simp add: fs_layout_def)
  then show "fs_inv t"
    using edits_txn [OF e fi(1)] lay u fi(4) b(2) by (auto simp: fs_inv_def)
qed

end
