(* ===== verification/Fs_Inode.thy ===== *)
theory Fs_Inode
  imports Fs_Block
begin

text \<open>
  The inode layer of \<open>kern/fs.c\<close>: the inode cache, inodes on disk, the block map of a file and reading
  and writing its contents. A pointer into \<open>icache.inode\<close> is its index, the null pointer is \<open>None\<close>. The
  device switch \<open>devsw\<close> is a table of functions and therefore an argument; the memory that \<open>readi\<close>
  fills is the list of bytes it returns, the memory that \<open>writei\<close> takes is a function of the offset.
\<close>

section \<open>The device switch\<close>

definition T_DIR :: u16 where "T_DIR = 1"
definition T_FILE :: u16 where "T_FILE = 2"
definition T_DEV :: u16 where "T_DEV = 3"
definition T_PIPE :: u16 where "T_PIPE = 4"

record 's device =
  dev_read :: "(nat \<Rightarrow> u32 \<Rightarrow> u32 \<Rightarrow> 's \<Rightarrow> (int \<times> bytes \<times> 's) outcome) option"
  dev_write :: "(nat \<Rightarrow> (nat \<Rightarrow> u8) \<Rightarrow> u32 \<Rightarrow> u32 \<Rightarrow> 's \<Rightarrow> (int \<times> 's) outcome) option"
  dev_ioctl :: "(nat \<Rightarrow> u32 \<Rightarrow> 's \<Rightarrow> (int \<times> 's) outcome) option"

type_synonym 's devsw = "nat \<Rightarrow> 's device"

section \<open>Inodes on disk\<close>

definition upd_inode :: "nat \<Rightarrow> (inode \<Rightarrow> inode) \<Rightarrow> 'a fs_state_scheme \<Rightarrow> 'a fs_state_scheme" where
  "upd_inode ip f s = s\<lparr>icache := (icache s)(ip := f (icache s ip))\<rparr>"

text \<open>The position of an inode in its block, and \<open>struct dinode\<close> as it lies there.\<close>

definition dinode_off :: "u32 \<Rightarrow> nat" where
  "dinode_off inum = sizeof_dinode * (unat inum mod IPB)"

definition get_dinode :: "nat \<Rightarrow> bytes \<Rightarrow> inode \<Rightarrow> inode" where
  "get_dinode off d ip = ip\<lparr>i_type := get16 off d, i_major := get16 (off + 2) d, i_minor := get16 (off + 4) d,
     i_nlink := get16 (off + 6) d, i_mtime := get32 (off + 12) d, i_size := get32 (off + 8) d,
     i_addrs := (\<lambda>i. if i \<le> NDIRECT then get32 (off + 16 + 4 * i) d else i_addrs ip i)\<rparr>"

definition put_dinode :: "nat \<Rightarrow> inode \<Rightarrow> bytes \<Rightarrow> bytes" where
  "put_dinode off ip d =
     (let d = put16 off (i_type ip) d;
          d = put16 (off + 2) (i_major ip) d;
          d = put16 (off + 4) (i_minor ip) d;
          d = put16 (off + 6) (i_nlink ip) d;
          d = put32 (off + 12) (i_mtime ip) d;
          d = put32 (off + 8) (i_size ip) d
      in patch (off + 16) (concat (map (\<lambda>i. bytes_of_u32 (i_addrs ip i)) [0..<NDIRECT + 1])) d)"

definition iinit :: "u32 \<Rightarrow> 'a fs_state_scheme \<Rightarrow> 'a fs_state_scheme outcome" where
  "iinit d s = obind (readsb d s) (\<lambda>(b, s). Done (s\<lparr>sb := b\<rparr>))"

section \<open>The inode cache\<close>

definition iget :: "u32 \<Rightarrow> u32 \<Rightarrow> 'a fs_state_scheme \<Rightarrow> (nat \<times> 'a fs_state_scheme) outcome" where
  "iget d inum s =
     (case find (\<lambda>ip. i_ref (icache s ip) > 0 \<and> i_dev (icache s ip) = d \<and> i_inum (icache s ip) = inum) [0..<NINODE] of
        Some ip \<Rightarrow> Done (ip, upd_inode ip (\<lambda>x. x\<lparr>i_ref := i_ref x + 1\<rparr>) s)
      | None \<Rightarrow>
          (case find (\<lambda>ip. i_ref (icache s ip) = 0) [0..<NINODE] of
             None \<Rightarrow> Panic ''iget: no inodes''
           | Some ip \<Rightarrow> Done (ip, upd_inode ip (\<lambda>x. x\<lparr>i_dev := d, i_inum := inum, i_ref := 1, i_flags := {}\<rparr>) s)))"

definition idup :: "nat \<Rightarrow> 'a fs_state_scheme \<Rightarrow> nat \<times> 'a fs_state_scheme" where
  "idup ip s = (ip, upd_inode ip (\<lambda>x. x\<lparr>i_ref := i_ref x + 1\<rparr>) s)"

text \<open>\<open>ialloc\<close>: \<open>k\<close> more inodes to look at, the next one is \<open>inum\<close>.\<close>

primrec ialloc_loop :: "nat \<Rightarrow> u32 \<Rightarrow> u16 \<Rightarrow> u32 \<Rightarrow> 'a fs_state_scheme \<Rightarrow> (nat \<times> 'a fs_state_scheme) outcome" where
  "ialloc_loop 0 d ty inum s = Panic ''ialloc: no inodes''"
| "ialloc_loop (Suc k) d ty inum s =
     obind (bread d (IBLOCK inum (sb s)) s) (\<lambda>(bp, s).
       let off = dinode_off inum; x = data (bufs s bp) in
       if get16 off x = 0
       then
         (let x = patch off (replicate sizeof_dinode 0) x;
              x = put16 off ty x;
              x = put32 (off + 12) (now s) x
          in obind (log_write bp (set_data bp x s)) (\<lambda>s.
             obind (brelse bp s) (\<lambda>s.
             iget d inum s)))
       else obind (brelse bp s) (\<lambda>s. ialloc_loop k d ty (inum + 1) s))"

definition ialloc :: "u32 \<Rightarrow> u16 \<Rightarrow> 'a fs_state_scheme \<Rightarrow> (nat \<times> 'a fs_state_scheme) outcome" where
  "ialloc d ty s = ialloc_loop (unat (sb_ninodes (sb s)) - 1) d ty 1 s"

definition iupdate :: "nat \<Rightarrow> 'a fs_state_scheme \<Rightarrow> 'a fs_state_scheme outcome" where
  "iupdate ip s =
     (let x = icache s ip in
      obind (bread (i_dev x) (IBLOCK (i_inum x) (sb s)) s) (\<lambda>(bp, s).
      obind (log_write bp (set_data bp (put_dinode (dinode_off (i_inum x)) x (data (bufs s bp))) s)) (\<lambda>s.
      brelse bp s)))"

definition ilock :: "nat option \<Rightarrow> 'a fs_state_scheme \<Rightarrow> 'a fs_state_scheme outcome" where
  "ilock p s =
     (case p of
        None \<Rightarrow> Panic ''ilock''
      | Some ip \<Rightarrow>
          if i_ref (icache s ip) < 1 then Panic ''ilock''
          else if I_BUSY \<in> i_flags (icache s ip) then Sleep (Chan_Inode ip)
          else
            let s = upd_inode ip (\<lambda>x. x\<lparr>i_flags := insert I_BUSY (i_flags x)\<rparr>) s in
            if I_VALID \<in> i_flags (icache s ip) then Done s
            else
              let x = icache s ip in
              obind (bread (i_dev x) (IBLOCK (i_inum x) (sb s)) s) (\<lambda>(bp, s).
                let s = upd_inode ip (get_dinode (dinode_off (i_inum x)) (data (bufs s bp))) s in
              obind (brelse bp s) (\<lambda>s.
                let s = upd_inode ip (\<lambda>x. x\<lparr>i_flags := insert I_VALID (i_flags x)\<rparr>) s in
                if i_type (icache s ip) = 0 then Panic ''ilock: no type'' else Done s)))"

definition iunlock :: "nat option \<Rightarrow> 'a fs_state_scheme \<Rightarrow> 'a fs_state_scheme outcome" where
  "iunlock p s =
     (case p of
        None \<Rightarrow> Panic ''iunlock''
      | Some ip \<Rightarrow>
          if I_BUSY \<notin> i_flags (icache s ip) \<or> i_ref (icache s ip) < 1 then Panic ''iunlock''
          else Done (upd_inode ip (\<lambda>x. x\<lparr>i_flags := i_flags x - {I_BUSY}\<rparr>) s))"

section \<open>The blocks of a file\<close>

definition set_addr :: "nat \<Rightarrow> nat \<Rightarrow> u32 \<Rightarrow> 'a fs_state_scheme \<Rightarrow> 'a fs_state_scheme" where
  "set_addr ip i a s = upd_inode ip (\<lambda>x. x\<lparr>i_addrs := (i_addrs x)(i := a)\<rparr>) s"

text \<open>The idiom \<open>if((addr = ip->addrs[i]) == 0) ip->addrs[i] = addr = balloc(ip->dev)\<close>.\<close>

definition bmap_addr :: "nat \<Rightarrow> nat \<Rightarrow> 'a fs_state_scheme \<Rightarrow> (u32 \<times> 'a fs_state_scheme) outcome" where
  "bmap_addr ip i s =
     (let addr = i_addrs (icache s ip) i in
      if addr = 0 then obind (balloc (i_dev (icache s ip)) s) (\<lambda>(addr, s). Done (addr, set_addr ip i addr s))
      else Done (addr, s))"

text \<open>Entry \<open>e\<close> of the indirect block \<open>x\<close>; the block is held while a data block is allocated.\<close>

definition bmap_entry :: "nat \<Rightarrow> nat \<Rightarrow> u32 \<Rightarrow> 'a fs_state_scheme \<Rightarrow> (u32 \<times> 'a fs_state_scheme) outcome" where
  "bmap_entry ip e x s =
     obind (bread (i_dev (icache s ip)) x s) (\<lambda>(bp, s).
       let addr = get32 (4 * e) (data (bufs s bp)) in
       if addr = 0
       then
         obind (balloc (i_dev (icache s ip)) s) (\<lambda>(addr, s).
         obind (log_write bp (set_data bp (put32 (4 * e) addr (data (bufs s bp))) s)) (\<lambda>s.
         obind (brelse bp s) (\<lambda>s. Done (addr, s))))
       else obind (brelse bp s) (\<lambda>s. Done (addr, s)))"

definition bmap :: "nat \<Rightarrow> nat \<Rightarrow> 'a fs_state_scheme \<Rightarrow> (u32 \<times> 'a fs_state_scheme) outcome" where
  "bmap ip bn s =
     (if bn < NDIRECT then bmap_addr ip bn s
      else
        let bn = bn - NDIRECT in
        if bn < NINDIRECT then obind (bmap_addr ip NDIRECT s) (\<lambda>(addr, s). bmap_entry ip bn addr s)
        else Panic ''bmap: out of range'')"

primrec itrunc_direct :: "nat list \<Rightarrow> nat \<Rightarrow> 'a fs_state_scheme \<Rightarrow> 'a fs_state_scheme outcome" where
  "itrunc_direct [] ip s = Done s"
| "itrunc_direct (i # is) ip s =
     (let a = i_addrs (icache s ip) i in
      if a \<noteq> 0
      then obind (bfree (i_dev (icache s ip)) a s) (\<lambda>s. itrunc_direct is ip (set_addr ip i 0 s))
      else itrunc_direct is ip s)"

primrec itrunc_indirect :: "nat list \<Rightarrow> nat \<Rightarrow> nat \<Rightarrow> 'a fs_state_scheme \<Rightarrow> 'a fs_state_scheme outcome" where
  "itrunc_indirect [] bp ip s = Done s"
| "itrunc_indirect (j # js) bp ip s =
     (let a = get32 (4 * j) (data (bufs s bp)) in
      if a \<noteq> 0
      then obind (bfree (i_dev (icache s ip)) a s) (\<lambda>s. itrunc_indirect js bp ip s)
      else itrunc_indirect js bp ip s)"

definition itrunc :: "nat \<Rightarrow> 'a fs_state_scheme \<Rightarrow> 'a fs_state_scheme outcome" where
  "itrunc ip s =
     obind (itrunc_direct [0..<NDIRECT] ip s) (\<lambda>s.
     obind (let a = i_addrs (icache s ip) NDIRECT in
            if a \<noteq> 0
            then
              obind (bread (i_dev (icache s ip)) a s) (\<lambda>(bp, s).
              obind (itrunc_indirect [0..<NINDIRECT] bp ip s) (\<lambda>s.
              obind (brelse bp s) (\<lambda>s.
              obind (bfree (i_dev (icache s ip)) (i_addrs (icache s ip) NDIRECT) s) (\<lambda>s.
              Done (set_addr ip NDIRECT 0 s)))))
            else Done s) (\<lambda>s.
     iupdate ip (upd_inode ip (\<lambda>x. x\<lparr>i_size := 0\<rparr>) s)))"

definition iput :: "nat \<Rightarrow> 'a fs_state_scheme \<Rightarrow> 'a fs_state_scheme outcome" where
  "iput ip s =
     obind (let x = icache s ip in
            if i_ref x = 1 \<and> I_VALID \<in> i_flags x \<and> i_nlink x = 0
            then
              if I_BUSY \<in> i_flags x then Panic ''iput busy''
              else
                obind (itrunc ip (upd_inode ip (\<lambda>x. x\<lparr>i_flags := insert I_BUSY (i_flags x)\<rparr>) s)) (\<lambda>s.
                obind (iupdate ip (upd_inode ip (\<lambda>x. x\<lparr>i_type := 0\<rparr>) s)) (\<lambda>s.
                Done (upd_inode ip (\<lambda>x. x\<lparr>i_flags := {}\<rparr>) s)))
            else Done s) (\<lambda>s.
     Done (upd_inode ip (\<lambda>x. x\<lparr>i_ref := i_ref x - 1\<rparr>) s))"

definition iunlockput :: "nat \<Rightarrow> 'a fs_state_scheme \<Rightarrow> 'a fs_state_scheme outcome" where
  "iunlockput ip s = obind (iunlock (Some ip) s) (\<lambda>s. iput ip s)"

section \<open>Reading and writing\<close>

record stat =
  st_type :: u16
  st_dev :: u32
  st_ino :: u32
  st_nlink :: u16
  st_mtime :: u32
  st_size :: u32

definition stati :: "nat \<Rightarrow> 'a fs_state_scheme \<Rightarrow> stat" where
  "stati ip s =
     (let x = icache s ip in
      \<lparr>st_type = i_type x,
       st_dev = (if i_type x = T_DEV then push_bit 8 (scast (i_major x)) OR (scast (i_minor x) AND 0xff) else i_dev x),
       st_ino = i_inum x, st_nlink = i_nlink x, st_mtime = i_mtime x, st_size = i_size x\<rparr>)"

text \<open>The loops run until \<open>n\<close>, the number of bytes that remain, is zero; each round handles one block.\<close>

function readi_loop :: "nat \<Rightarrow> u32 \<Rightarrow> nat \<Rightarrow> 'a fs_state_scheme \<Rightarrow> (bytes \<times> 'a fs_state_scheme) outcome" where
  "readi_loop ip off n s =
     (if n = 0 then Done ([], s)
      else
        obind (bmap ip (unat off div BSIZE) s) (\<lambda>(a, s).
        obind (bread (i_dev (icache s ip)) a s) (\<lambda>(bp, s).
          let m = min n (BSIZE - unat off mod BSIZE);
              x = slice (unat off mod BSIZE) m (data (bufs s bp))
          in obind (brelse bp s) (\<lambda>s.
             obind (readi_loop ip (off + of_nat m) (n - m) s) (\<lambda>(y, s). Done (x @ y, s))))))"
  by auto
termination
  by (relation "measure (\<lambda>(ip, off, n, s). n)") (auto simp: BSIZE_def)

definition readi :: "'a fs_state_scheme devsw \<Rightarrow> nat \<Rightarrow> u32 \<Rightarrow> u32 \<Rightarrow> 'a fs_state_scheme \<Rightarrow>
    (int \<times> bytes \<times> 'a fs_state_scheme) outcome" where
  "readi devsw ip off n s =
     (let x = icache s ip in
      if i_type x = T_DEV
      then
        if sint (i_major x) < 0 \<or> sint (i_major x) \<ge> int NDEV then Done (-1, [], s)
        else (case dev_read (devsw (unat (i_major x))) of None \<Rightarrow> Done (-1, [], s) | Some f \<Rightarrow> f ip off n s)
      else if off > i_size x \<or> off + n < off then Done (-1, [], s)
      else
        let n = (if off + n > i_size x then i_size x - off else n) in
        obind (readi_loop ip off (unat n) s) (\<lambda>(y, s). Done (sint n, y, s)))"

function writei_loop :: "nat \<Rightarrow> (nat \<Rightarrow> u8) \<Rightarrow> u32 \<Rightarrow> nat \<Rightarrow> 'a fs_state_scheme \<Rightarrow> (u32 \<times> 'a fs_state_scheme) outcome" where
  "writei_loop ip src off n s =
     (if n = 0 then Done (off, s)
      else
        obind (bmap ip (unat off div BSIZE) s) (\<lambda>(a, s).
        obind (bread (i_dev (icache s ip)) a s) (\<lambda>(bp, s).
          let m = min n (BSIZE - unat off mod BSIZE) in
          obind (log_write bp (set_data bp (patch (unat off mod BSIZE) (map src [0..<m]) (data (bufs s bp))) s)) (\<lambda>s.
          obind (brelse bp s) (\<lambda>s.
          writei_loop ip (\<lambda>i. src (m + i)) (off + of_nat m) (n - m) s)))))"
  by auto
termination
  by (relation "measure (\<lambda>(ip, src, off, n, s). n)") (auto simp: BSIZE_def)

definition writei :: "'a fs_state_scheme devsw \<Rightarrow> nat \<Rightarrow> (nat \<Rightarrow> u8) \<Rightarrow> u32 \<Rightarrow> u32 \<Rightarrow> 'a fs_state_scheme \<Rightarrow>
    (int \<times> 'a fs_state_scheme) outcome" where
  "writei devsw ip src off n s =
     (let x = icache s ip in
      if i_type x = T_DEV
      then
        if sint (i_major x) < 0 \<or> sint (i_major x) \<ge> int NDEV then Done (-1, s)
        else (case dev_write (devsw (unat (i_major x))) of None \<Rightarrow> Done (-1, s) | Some f \<Rightarrow> f ip src off n s)
      else if off > i_size x \<or> off + n < off then Done (-1, s)
      else if unat (off + n) > MAXFILE * BSIZE then Done (-1, s)
      else
        obind (writei_loop ip src off (unat n) s) (\<lambda>(off, s).
          let s = (if n > 0 \<and> off > i_size (icache s ip) then upd_inode ip (\<lambda>x. x\<lparr>i_size := off\<rparr>) s else s);
              s = upd_inode ip (\<lambda>x. x\<lparr>i_mtime := now s\<rparr>) s
          in obind (iupdate ip s) (\<lambda>s. Done (sint n, s))))"

declare readi_loop.simps [simp del] writei_loop.simps [simp del]

end
