(* ===== verification/Fs_File.thy ===== *)
theory Fs_File
  imports Fs_Inode
begin

text \<open>
  The contents of files. A file is seen as the blocks its inode maps; \<open>bmap\<close> may allocate blocks but
  does not change what the file contains, \<open>readi\<close> returns the bytes of the file and \<open>writei\<close> replaces
  the bytes it is given, and neither touches a block of another file.
\<close>

section \<open>Changes of the inode cache\<close>

lemma fs_cong_icache [simp]:
  "binv (s\<lparr>icache := c\<rparr>) = binv s" "busy (s\<lparr>icache := c\<rparr>) = busy s" "dirty (s\<lparr>icache := c\<rparr>) = dirty s"
  "blk (s\<lparr>icache := c\<rparr>) = blk s" "holds (s\<lparr>icache := c\<rparr>) = holds s"
  by (intro bio_cong; simp)+

lemma log_cong_icache [simp]:
  "linv (s\<lparr>icache := c\<rparr>) = linv s" "txn (s\<lparr>icache := c\<rparr>) = txn s" "room (s\<lparr>icache := c\<rparr>) k = room s k"
  "in_log (s\<lparr>icache := c\<rparr>) = in_log s" "datastart (s\<lparr>icache := c\<rparr>) = datastart s"
  "fs_layout (s\<lparr>icache := c\<rparr>) = fs_layout s" "used (s\<lparr>icache := c\<rparr>) = used s"
  "fs_inv (s\<lparr>icache := c\<rparr>) = fs_inv s" "held_ok (s\<lparr>icache := c\<rparr>) = held_ok s"
  by (simp_all add: linv_def logged_def log_geometry_def in_log_def txn_def room_def datastart_def fs_layout_def
      used_def fs_inv_def held_ok_def fun_eq_iff)

lemma more_icache: "log_state.more t = log_state.more s \<Longrightarrow> log_state.more (t\<lparr>icache := c\<rparr>) = log_state.more (s\<lparr>icache := c\<rparr>)"
  by (cases s; cases t) simp

lemma edits_icache:
  fixes s t :: "'a fs_state_scheme"
  assumes "edits s ws B t"
  shows "edits (s\<lparr>icache := c\<rparr>) ws B (t\<lparr>icache := c\<rparr>)"
  using assms more_icache [of t s c] unfolding edits_def by simp

lemma upd_inode_fields [simp]:
  "icache (upd_inode ip f s) = (icache s)(ip := f (icache s ip))" "sb (upd_inode ip f s) = sb s"
  "now (upd_inode ip f s) = now s" "bufs (upd_inode ip f s) = bufs s" "fs_state.more (upd_inode ip f s) = fs_state.more s"
  by (simp_all add: upd_inode_def)

lemma upd_inode_cong [simp]:
  "linv (upd_inode ip f s) = linv s" "txn (upd_inode ip f s) = txn s" "room (upd_inode ip f s) k = room s k"
  "busy (upd_inode ip f s) = busy s" "dirty (upd_inode ip f s) = dirty s" "blk (upd_inode ip f s) = blk s"
  "in_log (upd_inode ip f s) = in_log s" "datastart (upd_inode ip f s) = datastart s"
  "fs_layout (upd_inode ip f s) = fs_layout s" "used (upd_inode ip f s) = used s"
  "fs_inv (upd_inode ip f s) = fs_inv s" "held_ok (upd_inode ip f s) = held_ok s"
  "disksize (upd_inode ip f s) = disksize s" "log_size (upd_inode ip f s) = log_size s"
  by (simp_all add: upd_inode_def)

section \<open>The blocks of a file\<close>

text \<open>
  The block numbers an inode refers to: slots below \<open>MAXFILE\<close> are the blocks of its contents, slot
  \<open>MAXFILE\<close> is the indirect block. A block that is not there reads as zeroes.
\<close>

definition slot :: "nat \<Rightarrow> 'a fs_state_scheme \<Rightarrow> nat \<Rightarrow> u32" where
  "slot ip s k =
     (let a = i_addrs (icache s ip) in
      if k < NDIRECT then a k
      else if k = MAXFILE then a NDIRECT
      else if a NDIRECT = 0 then 0 else get32 (4 * (k - NDIRECT)) (blk s (a NDIRECT)))"

definition owned :: "nat \<Rightarrow> 'a fs_state_scheme \<Rightarrow> u32 set" where
  "owned ip s = slot ip s ` {..MAXFILE} - {0}"

definition fblock :: "nat \<Rightarrow> 'a fs_state_scheme \<Rightarrow> nat \<Rightarrow> bytes" where
  "fblock ip s k = (if slot ip s k = 0 then replicate BSIZE 0 else blk s (slot ip s k))"

definition content :: "nat \<Rightarrow> 'a fs_state_scheme \<Rightarrow> nat \<Rightarrow> u8" where
  "content ip s i = fblock ip s (i div BSIZE) ! (i mod BSIZE)"

definition data_ok :: "'a fs_state_scheme \<Rightarrow> u32 \<Rightarrow> bool" where
  "data_ok s n \<longleftrightarrow> datastart s \<le> unat n \<and> unat n < unat (sb_size (sb s)) \<and> used s (unat n)"

text \<open>A well-formed file: its blocks are data blocks in use, all different, and there is one for every byte.\<close>

definition map_ok :: "nat \<Rightarrow> 'a fs_state_scheme \<Rightarrow> bool" where
  "map_ok ip s \<longleftrightarrow>
     i_dev (icache s ip) = 1 \<and>
     (\<forall>k\<le>MAXFILE. slot ip s k \<noteq> 0 \<longrightarrow> data_ok s (slot ip s k)) \<and>
     (\<forall>j\<le>MAXFILE. \<forall>k\<le>MAXFILE. slot ip s j = slot ip s k \<longrightarrow> slot ip s j \<noteq> 0 \<longrightarrow> j = k)"

definition file_ok :: "nat \<Rightarrow> 'a fs_state_scheme \<Rightarrow> bool" where
  "file_ok ip s \<longleftrightarrow>
     map_ok ip s \<and> unat (i_size (icache s ip)) \<le> MAXFILE * BSIZE \<and>
     (\<forall>k. k * BSIZE < unat (i_size (icache s ip)) \<longrightarrow> slot ip s k \<noteq> 0)"

definition bitmap_set :: "'a fs_state_scheme \<Rightarrow> u32 set" where
  "bitmap_set s = (\<lambda>b. BBLOCK b (sb s)) ` {..<unat (sb_size (sb s))}"

lemma map_okD:
  assumes "map_ok ip s"
  shows "i_dev (icache s ip) = 1" "k \<le> MAXFILE \<Longrightarrow> slot ip s k \<noteq> 0 \<Longrightarrow> data_ok s (slot ip s k)"
    "j \<le> MAXFILE \<Longrightarrow> k \<le> MAXFILE \<Longrightarrow> slot ip s j = slot ip s k \<Longrightarrow> slot ip s j \<noteq> 0 \<Longrightarrow> j = k"
  using assms unfolding map_ok_def by blast+

lemma slot_simps:
  "k < NDIRECT \<Longrightarrow> slot ip s k = i_addrs (icache s ip) k" "slot ip s MAXFILE = i_addrs (icache s ip) NDIRECT"
  "NDIRECT \<le> k \<Longrightarrow> k < MAXFILE \<Longrightarrow>
    slot ip s k = (if slot ip s MAXFILE = 0 then 0 else get32 (4 * (k - NDIRECT)) (blk s (slot ip s MAXFILE)))"
  by (auto simp: slot_def Let_def MAXFILE_def)

lemma direct_less: "NDIRECT < MAXFILE"
  by (simp add: layout_defs)

lemma data_okD:
  assumes "fs_inv s" "data_ok s n"
  shows "unat n < disksize s" "\<not> in_log s n" "n \<notin> bitmap_set s" "n \<noteq> 0" "length (blk s n) = BSIZE"
    "datastart s \<le> unat n"
proof -
  note fi = fs_invD [OF assms(1)]
  have n: "datastart s \<le> unat n" "unat n < unat (sb_size (sb s))" using assms(2) by (simp_all add: data_ok_def)
  have e: "(of_nat (unat n) :: u32) = n" by simp
  note d = data_block [OF fi(3) n, unfolded e]
  show "unat n < disksize s" "\<not> in_log s n" "datastart s \<le> unat n" by (fact d n)+
  then show "length (blk s n) = BSIZE" using length_block [OF assms(1)] by blast
  show "n \<notin> bitmap_set s" using d(4) by (auto simp: bitmap_set_def)
  show "n \<noteq> 0" using n(1) by (auto simp: datastart_def)
qed

lemma length_fblock: "fs_inv s \<Longrightarrow> map_ok ip s \<Longrightarrow> k < MAXFILE \<Longrightarrow> length (fblock ip s k) = BSIZE"
  using data_okD(5) [of s "slot ip s k"] map_okD(2) [of ip s k] by (simp add: fblock_def)

text \<open>The view of a file does not depend on the rest of the state.\<close>

lemma slot_cong:
  assumes "i_addrs (icache t ip) = i_addrs (icache s ip)" "blk t (i_addrs (icache s ip) NDIRECT) = blk s (i_addrs (icache s ip) NDIRECT)"
  shows "slot ip t k = slot ip s k"
  using assms by (simp add: slot_def Let_def)

section \<open>Growing a file\<close>

text \<open>
  \<open>extended ip s ws t\<close>: blocks were added to the file or written, no block in use elsewhere was taken,
  and only the bitmap and blocks of the file were written. \<open>grown\<close>: moreover its contents are the same.
\<close>

definition extended :: "nat \<Rightarrow> 'a fs_state_scheme \<Rightarrow> (u32 \<times> bytes) list \<Rightarrow> 'a fs_state_scheme \<Rightarrow> bool" where
  "extended ip s ws t \<longleftrightarrow>
     (\<exists>a. wrote (s\<lparr>icache := (icache s)(ip := (icache s ip)\<lparr>i_addrs := a\<rparr>)\<rparr>) ws t) \<and>
     fs_inv t \<and> map_ok ip t \<and>
     (\<forall>k\<le>MAXFILE. slot ip s k \<noteq> 0 \<longrightarrow> slot ip t k = slot ip s k) \<and>
     (\<forall>n\<in>owned ip t - owned ip s. \<not> used s (unat n)) \<and>
     (\<forall>b<unat (sb_size (sb s)). used t b \<longleftrightarrow> used s b \<or> of_nat b \<in> owned ip t) \<and>
     fst ` set ws \<subseteq> bitmap_set s \<union> owned ip t"

definition grown :: "nat \<Rightarrow> 'a fs_state_scheme \<Rightarrow> (u32 \<times> bytes) list \<Rightarrow> 'a fs_state_scheme \<Rightarrow> bool" where
  "grown ip s ws t \<longleftrightarrow> extended ip s ws t \<and> (\<forall>k<MAXFILE. fblock ip t k = fblock ip s k)"

lemma extendedD:
  assumes "extended ip s ws t"
  shows "fs_inv t" "map_ok ip t"
    "k \<le> MAXFILE \<Longrightarrow> slot ip s k \<noteq> 0 \<Longrightarrow> slot ip t k = slot ip s k"
    "n \<in> owned ip t \<Longrightarrow> n \<notin> owned ip s \<Longrightarrow> \<not> used s (unat n)"
    "b < unat (sb_size (sb s)) \<Longrightarrow> used t b \<longleftrightarrow> used s b \<or> of_nat b \<in> owned ip t"
    "fst ` set ws \<subseteq> bitmap_set s \<union> owned ip t"
  using assms unfolding extended_def by blast+

lemma extended_wrote:
  assumes "extended ip s ws t"
  obtains a where "wrote (s\<lparr>icache := (icache s)(ip := (icache s ip)\<lparr>i_addrs := a\<rparr>)\<rparr>) ws t"
  using assms unfolding extended_def by (elim conjE exE)

lemma owned_iff: "n \<in> owned ip s \<longleftrightarrow> n \<noteq> 0 \<and> (\<exists>k\<le>MAXFILE. slot ip s k = n)"
  by (auto simp: owned_def)

lemma owned_data: "map_ok ip s \<Longrightarrow> n \<in> owned ip s \<Longrightarrow> data_ok s n"
  by (auto simp: owned_iff dest: map_okD(2))

lemma wrote_fields:
  assumes "wrote (s\<lparr>icache := c\<rparr>) ws t"
  shows "icache t = c" "sb t = sb s" "now t = now s" "busy t = busy s" "blk t = upds ws (blk s)"
    "dirty t = dirty s \<union> fst ` set ws" "disksize t = disksize s" "log_size t = log_size s" "in_log t = in_log s"
    "fs_state.more t = fs_state.more s" "bitmap_set t = bitmap_set s"
  using assms fs_more [of t "s\<lparr>icache := c\<rparr>"] by (simp_all add: edits_def bitmap_set_def in_log_def fun_eq_iff)

lemma grownI:
  fixes s t :: "'a fs_state_scheme"
  assumes w: "wrote (s\<lparr>icache := (icache s)(ip := (icache s ip)\<lparr>i_addrs := a\<rparr>)\<rparr>) ws t"
    and f: "fs_inv s" "map_ok ip s" "fs_inv t"
    and k: "k \<le> MAXFILE" "slot ip s k = 0" and b: "b < unat (sb_size (sb s))" "\<not> used s b"
    and u: "\<And>c. c < unat (sb_size (sb s)) \<Longrightarrow> used t c \<longleftrightarrow> c = b \<or> used s c"
    and sl: "\<And>j. j \<le> MAXFILE \<Longrightarrow> slot ip t j = (if j = k then of_nat b else slot ip s j)"
    and z: "blk t (of_nat b) = replicate BSIZE 0"
    and ks: "fst ` set ws \<subseteq> bitmap_set s \<union> {of_nat b} \<union> ({slot ip s MAXFILE} - {0})"
  shows "grown ip s ws t"
proof -
  let ?m = "of_nat b :: u32"
  note fi = fs_invD [OF f(1)] and wf = wrote_fields [OF w]
  have ds: "datastart s \<le> b" using fi(4) b(2) by (meson not_le)
  note m = data_block [OF fi(3) ds b(1)]
  have dt: "datastart t = datastart s" by (simp add: datastart_def wf)
  have m0: "?m \<noteq> 0" using ds m(1) by (auto simp: datastart_def)
  have ms: "slot ip s j \<noteq> ?m" if "j \<le> MAXFILE" for j
    using map_okD(2) [OF f(2) that] m0 b(2) m(1) by (auto simp: data_ok_def)
  have "slot ip t ` {..MAXFILE} = insert ?m (slot ip s ` ({..MAXFILE} - {k}))"
    using sl k(1) by (auto simp: image_iff)
  moreover have "slot ip s ` ({..MAXFILE} - {k}) - {0} = slot ip s ` {..MAXFILE} - {0}" using k(2) by auto
  ultimately have own: "owned ip t = insert ?m (owned ip s)" using m0 by (auto simp: owned_def)
  have ok: "data_ok t n" if "data_ok s n" for n using that u dt by (auto simp: data_ok_def wf)
  have "map_ok ip t"
    unfolding map_ok_def
  proof (intro conjI allI impI)
    show "i_dev (icache t ip) = 1" using map_okD(1) [OF f(2)] by (simp add: wf)
    fix j assume j: "j \<le> MAXFILE" "slot ip t j \<noteq> 0"
    show "data_ok t (slot ip t j)"
    proof (cases "j = k")
      case True
      then show ?thesis using j m ds b(1) u dt by (simp add: sl data_ok_def wf)
    next
      case False
      then show ?thesis using j map_okD(2) [OF f(2)] ok by (simp add: sl)
    qed
  next
    fix i j assume "i \<le> MAXFILE" "j \<le> MAXFILE" "slot ip t i = slot ip t j" "slot ip t i \<noteq> 0"
    then show "i = j" using ms map_okD(3) [OF f(2)] by (auto simp: sl split: if_splits)
  qed
  moreover have "fblock ip t j = fblock ip s j" if "j < MAXFILE" for j
  proof (cases "j = k \<or> slot ip s j = 0")
    case True
    then show ?thesis using that m0 z k by (auto simp: fblock_def sl)
  next
    case False
    have "slot ip s j \<notin> bitmap_set s" using data_okD(3) [OF f(1) map_okD(2) [OF f(2)]] that False by auto
    moreover have "slot ip s j \<noteq> slot ip s MAXFILE" using map_okD(3) [OF f(2), of j MAXFILE] that False by auto
    ultimately have "slot ip s j \<notin> fst ` set ws" using ks ms [of j] that by auto
    then show ?thesis using that False upds_other by (simp add: fblock_def sl wf)
  qed
  moreover have "{slot ip s MAXFILE} - {0} \<subseteq> owned ip s" by (auto simp: owned_def)
  with ks own have "fst ` set ws \<subseteq> bitmap_set s \<union> owned ip t" by blast
  moreover have "used t c \<longleftrightarrow> used s c \<or> of_nat c \<in> owned ip t" if "c < unat (sb_size (sb s))" for c
  proof -
    have "unat (of_nat c :: u32) = c"
      using that fi(3) by (simp add: fs_layout_def unat_of_nat)
    moreover have "used s (unat n)" if "n \<in> owned ip s" for n using owned_data [OF f(2) that] by (simp add: data_ok_def)
    ultimately show ?thesis using u [OF that] own m(1) by (metis insert_iff)
  qed
  ultimately show ?thesis
    unfolding grown_def extended_def using w f(3) own b(2) m(1) k by (auto simp: sl)
qed

definition nfree :: "'a fs_state_scheme \<Rightarrow> nat" where
  "nfree s = card {b. b < unat (sb_size (sb s)) \<and> \<not> used s b}"

lemma balloc_some:
  assumes "fs_inv s" "held_ok s" "room s (Suc (Suc (card (busy s))))" "0 < nfree s"
  obtains b t where "b < unat (sb_size (sb s))" "\<not> used s b" "balloc 1 s = Done (of_nat b, t)"
    "wrote s (balloc_ws s b) t" "nfree t = nfree s - 1"
proof -
  have "\<exists>b<unat (sb_size (sb s)). \<not> used s b"
  proof (rule ccontr)
    assume "\<not> ?thesis"
    then have "{b. b < unat (sb_size (sb s)) \<and> \<not> used s b} = {}" by auto
    then have "nfree s = 0" by (simp only: nfree_def card.empty)
    then show False using assms(4) by simp
  qed
  then obtain b t where b: "b < unat (sb_size (sb s))" "\<not> used s b" "balloc 1 s = Done (of_nat b, t)"
    "wrote s (balloc_ws s b) t"
    using balloc_spec [OF assms(1-3)] by blast
  note e = balloc_effect [OF b(4) assms(1) b(1,2)]
  have "{c. c < unat (sb_size (sb t)) \<and> \<not> used t c} = {c. c < unat (sb_size (sb s)) \<and> \<not> used s c} - {b}"
    using e(1,5) by auto
  then have "nfree t = nfree s - 1" using b(1,2) by (simp add: nfree_def)
  with b that show ?thesis by blast
qed

lemma balloc_keys: "b < unat (sb_size (sb s)) \<Longrightarrow> fst ` set (balloc_ws s b) \<subseteq> bitmap_set s \<union> {of_nat b}"
  by (auto simp: balloc_ws_def bitmap_set_def)

lemma nfree_icache [simp]: "nfree (upd_inode ip f s) = nfree s"
  by (simp add: nfree_def)

lemma bmap_addr_grown:
  fixes s :: "'a fs_state_scheme"
  assumes f: "fs_inv s" "map_ok ip s" "busy s = {}" and r: "room s 2" "0 < nfree s"
    and i: "i \<le> NDIRECT" "slot ip s (if i = NDIRECT then MAXFILE else i) = 0"
  obtains b t where "bmap_addr ip i s = Done (of_nat b, t)" "grown ip s (balloc_ws s b) t"
    "\<forall>j\<le>MAXFILE. slot ip t j = (if j = (if i = NDIRECT then MAXFILE else i) then of_nat b else slot ip s j)"
    "of_nat b \<noteq> (0 :: u32)" "nfree t = nfree s - 1" "fst ` set (balloc_ws s b) \<subseteq> bitmap_set s \<union> {of_nat b}"
proof -
  note fi = fs_invD [OF f(1)]
  let ?k = "if i = NDIRECT then MAXFILE else i"
  have a0: "i_addrs (icache s ip) i = 0"
    using i by (cases "i = NDIRECT") (simp_all add: slot_simps)
  obtain b t0 where b: "b < unat (sb_size (sb s))" "\<not> used s b" "balloc 1 s = Done (of_nat b, t0)"
    "wrote s (balloc_ws s b) t0" "nfree t0 = nfree s - 1"
    using balloc_some [of s] f r by (auto simp: held_ok_def numeral_2_eq_2)
  note e = balloc_effect [OF b(4) f(1) b(1,2)]
  define A where "A = (i_addrs (icache s ip))(i := of_nat b)"
  define C where "C = (icache s)(ip := (icache s ip)\<lparr>i_addrs := A\<rparr>)"
  define t where "t = set_addr ip i (of_nat b) t0"
  have ic0: "icache t0 = icache s" using b(4) fs_more(2) [of t0 s] by (simp add: edits_def)
  have tc: "t = t0\<lparr>icache := C\<rparr>" by (simp add: t_def set_addr_def upd_inode_def ic0 C_def A_def)
  have w: "wrote (s\<lparr>icache := C\<rparr>) (balloc_ws s b) t" using edits_icache [OF b(4), of C] unfolding tc by simp
  have d: "datastart s \<le> b" by (fact e(7))
  have m0: "(of_nat b :: u32) \<noteq> 0" using d data_block(1) [OF fi(3) d b(1)] by (auto simp: datastart_def)
  have ind: "blk t (slot ip s MAXFILE) = blk s (slot ip s MAXFILE)" if "slot ip s MAXFILE \<noteq> 0"
  proof -
    have "data_ok s (slot ip s MAXFILE)" using map_okD(2) [OF f(2)] that by simp
    then have "slot ip s MAXFILE \<noteq> of_nat b" "datastart s \<le> unat (slot ip s MAXFILE)"
      using b(2) data_block(1) [OF fi(3) d b(1)] by (auto simp: data_ok_def)
    then show ?thesis using e(3) by (simp add: tc)
  qed
  have z: "blk t (of_nat b) = replicate BSIZE 0" using e(2) by (simp add: tc)
  have sl: "slot ip t j = (if j = ?k then of_nat b else slot ip s j)" if j: "j \<le> MAXFILE" for j
  proof (cases "j < NDIRECT \<or> j = MAXFILE")
    case True
    then show ?thesis using i(1) direct_less by (auto simp: slot_simps(1,2) tc C_def A_def)
  next
    case False
    then have jj: "NDIRECT \<le> j" "j < MAXFILE" "j \<noteq> ?k" using j i(1) by auto
    have s: "slot ip t MAXFILE = (if i = NDIRECT then of_nat b else slot ip s MAXFILE)"
      by (simp add: slot_simps tc C_def A_def)
    show ?thesis
    proof (cases "i = NDIRECT")
      case True
      have "get32 (4 * (j - NDIRECT)) (replicate BSIZE 0) = 0"
        using jj by (intro get32_replicate_0) (auto simp: layout_defs)
      then show ?thesis using True jj s m0 z i(2) by (simp add: slot_simps(3))
    next
      case False
      then show ?thesis using jj s ind by (simp add: slot_simps(3))
    qed
  qed
  have "grown ip s (balloc_ws s b) t"
  proof (rule grownI [where k = ?k and b = b and a = A])
    show "wrote (s\<lparr>icache := (icache s)(ip := (icache s ip)\<lparr>i_addrs := A\<rparr>)\<rparr>) (balloc_ws s b) t" using w unfolding C_def .
    show "fs_inv t" using e(4) by (simp add: tc)
    show "?k \<le> MAXFILE" using i(1) by (simp add: MAXFILE_def)
    show "used t c \<longleftrightarrow> c = b \<or> used s c" if "c < unat (sb_size (sb s))" for c using e(1) [OF that] by (simp add: tc)
    show "fst ` set (balloc_ws s b) \<subseteq> bitmap_set s \<union> {of_nat b} \<union> ({slot ip s MAXFILE} - {0})"
      using balloc_keys [OF b(1)] by blast
  qed (use f b i sl z in auto)
  moreover have "bmap_addr ip i s = Done (of_nat b, t)"
    using b(3) a0 map_okD(1) [OF f(2)] by (simp add: bmap_addr_def t_def)
  moreover have "nfree t = nfree s - 1" using b(5) by (simp add: t_def set_addr_def)
  moreover have "?k \<le> MAXFILE" using i(1) by (simp add: MAXFILE_def)
  ultimately show ?thesis using that m0 sl balloc_keys [OF b(1)] by simp
qed

lemma icache_self [simp]: "s\<lparr>icache := (icache s)(ip := (icache s ip)\<lparr>i_addrs := i_addrs (icache s ip)\<rparr>)\<rparr> = s"
  by simp

lemma view_same:
  assumes "wrote s [] t"
  shows "slot ip t = slot ip s" "fblock ip t = fblock ip s" "map_ok ip t = map_ok ip s" "owned ip t = owned ip s"
    "file_ok ip t = file_ok ip s" "nfree t = nfree s" "content ip t = content ip s" "data_ok t = data_ok s"
proof -
  note e = wrote_same [OF assms]
  have b: "blk t = blk s" using assms by (simp add: edits_def)
  show sl: "slot ip t = slot ip s" by (rule ext) (rule slot_cong; simp add: e b)
  show fb: "fblock ip t = fblock ip s" by (rule ext) (simp add: fblock_def sl b)
  show d: "data_ok t = data_ok s" by (rule ext) (simp add: data_ok_def e)
  show m: "map_ok ip t = map_ok ip s" by (simp add: map_ok_def sl d e)
  show "owned ip t = owned ip s" by (simp add: owned_def sl)
  show "file_ok ip t = file_ok ip s" by (simp add: file_ok_def m sl e)
  show "nfree t = nfree s" by (simp add: nfree_def e)
  show "content ip t = content ip s" by (rule ext) (simp add: content_def fb)
qed

lemma grown_refl:
  assumes "wrote s [] t" "fs_inv s" "map_ok ip s"
  shows "grown ip s [] t"
proof -
  have "\<exists>a. wrote (s\<lparr>icache := (icache s)(ip := (icache s ip)\<lparr>i_addrs := a\<rparr>)\<rparr>) [] t"
    using assms(1) by (intro exI [of _ "i_addrs (icache s ip)"]) simp
  moreover have "used s b" if "of_nat b \<in> owned ip s" "b < unat (sb_size (sb s))" for b
  proof -
    have "unat (of_nat b :: u32) = b"
      using that(2) fs_invD(3) [OF assms(2)] by (simp add: fs_layout_def unat_of_nat)
    then show ?thesis using owned_data [OF assms(3) that(1)] by (simp add: data_ok_def)
  qed
  ultimately show ?thesis
    unfolding grown_def extended_def using view_same [OF assms(1)] wrote_same [OF assms(1)] assms(2,3) by auto
qed

lemma owned_mono:
  assumes "\<And>k. k \<le> MAXFILE \<Longrightarrow> slot ip s k \<noteq> 0 \<Longrightarrow> slot ip t k = slot ip s k"
  shows "owned ip s \<subseteq> owned ip t"
proof
  fix n assume "n \<in> owned ip s"
  then obtain k where "k \<le> MAXFILE" "slot ip s k = n" "n \<noteq> 0" by (auto simp: owned_iff)
  then show "n \<in> owned ip t" using assms [of k] unfolding owned_iff by metis
qed

lemma extended_trans:
  fixes s t u :: "'a fs_state_scheme"
  assumes g: "extended ip s ws t" and h: "extended ip t vs u"
  shows "extended ip s (ws @ vs) u"
proof -
  obtain a c where a: "wrote (s\<lparr>icache := (icache s)(ip := (icache s ip)\<lparr>i_addrs := a\<rparr>)\<rparr>) ws t"
    and c: "wrote (t\<lparr>icache := (icache t)(ip := (icache t ip)\<lparr>i_addrs := c\<rparr>)\<rparr>) vs u"
    using extended_wrote [OF g] extended_wrote [OF h] by metis
  note ta = wrote_fields [OF a] and uc = wrote_fields [OF c]
  let ?C = "(icache s)(ip := (icache s ip)\<lparr>i_addrs := c\<rparr>)"
  have "(icache t)(ip := (icache t ip)\<lparr>i_addrs := c\<rparr>) = ?C" by (simp add: ta)
  moreover have "wrote (s\<lparr>icache := ?C\<rparr>) ws (t\<lparr>icache := ?C\<rparr>)" using edits_icache [OF a, of ?C] by simp
  ultimately have w: "wrote (s\<lparr>icache := ?C\<rparr>) (ws @ vs) u" using wrote_trans c by metis
  have o: "owned ip s \<subseteq> owned ip t" "owned ip t \<subseteq> owned ip u"
    using extendedD(3) [OF g] extendedD(3) [OF h] by (auto intro!: owned_mono)
  have n: "\<not> used s (unat n)" if "n \<in> owned ip u" "n \<notin> owned ip s" for n
  proof (cases "n \<in> owned ip t")
    case True
    then show ?thesis using extendedD(4) [OF g] that by blast
  next
    case False
    have "data_ok u n" using owned_data [OF extendedD(2) [OF h] that(1)] .
    then have r: "unat n < unat (sb_size (sb s))" by (simp add: data_ok_def ta uc)
    have "\<not> used t (unat n)" using extendedD(4) [OF h] that False by blast
    then show ?thesis using extendedD(5) [OF g r] by blast
  qed
  have u: "used u b \<longleftrightarrow> used s b \<or> of_nat b \<in> owned ip u" if "b < unat (sb_size (sb s))" for b
  proof -
    have "b < unat (sb_size (sb t))" using that by (simp add: ta)
    from extendedD(5) [OF h this] extendedD(5) [OF g that] o show ?thesis by blast
  qed
  have k: "fst ` set (ws @ vs) \<subseteq> bitmap_set s \<union> owned ip u"
    using extendedD(6) [OF g] extendedD(6) [OF h] o(2) by (auto simp: ta)
  show ?thesis
    unfolding extended_def using w n u k extendedD(1-3) [OF h] extendedD(3) [OF g] by auto
qed

lemma grown_trans: "grown ip s ws t \<Longrightarrow> grown ip t vs u \<Longrightarrow> grown ip s (ws @ vs) u"
  using extended_trans by (auto simp: grown_def)

lemma room_0: "linv s \<Longrightarrow> room s 0"
  using linvD(4) [of s] by (simp add: room_def)

lemma bmap_indirect:
  assumes "NDIRECT \<le> k" "k < MAXFILE" "bmap_addr ip NDIRECT s = Done (x, t)"
  shows "bmap ip k s = bmap_entry ip (k - NDIRECT) x t"
  using assms by (auto simp: bmap_def MAXFILE_def Let_def)

lemma bmap_mapped:
  fixes s :: "'a fs_state_scheme"
  assumes f: "fs_inv s" "map_ok ip s" "busy s = {}" and k: "k < MAXFILE" "slot ip s k \<noteq> 0"
  obtains t where "bmap ip k s = Done (slot ip s k, t)" "wrote s [] t"
proof (cases "k < NDIRECT")
  case True
  then have "bmap ip k s = Done (slot ip s k, s)" using k(2) by (simp add: bmap_def bmap_addr_def slot_simps)
  then show ?thesis using that wrote_Nil [OF fs_invD(2) [OF f(1)]] by blast
next
  case False
  let ?x = "slot ip s MAXFILE"
  have x0: "?x \<noteq> 0" using k False by (auto simp: slot_simps(3))
  have d: "data_ok s ?x" using map_okD(2) [OF f(2)] x0 by simp
  obtain i t u where t: "bread 1 ?x s = Done (i, t)" "data (bufs t i) = blk s ?x" "brelse i t = Done u" "wrote s [] u"
    by (rule peek_block [OF fs_invD(2) [OF f(1)] _ data_okD(1) [OF f(1) d]])
      (use room_0 [OF fs_invD(2) [OF f(1)]] f(3) in auto)
  have "bmap_addr ip NDIRECT s = Done (?x, s)" using x0 by (simp add: bmap_addr_def slot_simps)
  then have "bmap ip k s = bmap_entry ip (k - NDIRECT) ?x s" using False k(1) by (intro bmap_indirect) auto
  then have "bmap ip k s = Done (slot ip s k, u)"
    using False k x0 t(1-3) map_okD(1) [OF f(2)] by (simp add: bmap_entry_def slot_simps(3))
  then show ?thesis using that t(4) by blast
qed

lemma bmap_entry_alloc:
  fixes s :: "'a fs_state_scheme"
  assumes f: "fs_inv s" "map_ok ip s" "busy s = {}" and r: "room s 3" "0 < nfree s"
    and x: "slot ip s MAXFILE = x" "x \<noteq> 0" and e: "e < NINDIRECT" "get32 (4 * e) (blk s x) = 0"
  obtains b t where "b < unat (sb_size (sb s))" "\<not> used s b" "bmap_entry ip e x s = Done (of_nat b, t)"
    "wrote s (balloc_ws s b @ [(x, put32 (4 * e) (of_nat b) (blk s x))]) t" "nfree t = nfree s - 1"
    "fs_inv t" "\<forall>c<unat (sb_size (sb s)). used t c \<longleftrightarrow> c = b \<or> used s c"
proof -
  note fi = fs_invD [OF f(1)]
  have d: "data_ok s x" using map_okD(2) [OF f(2), of MAXFILE] x by simp
  note dx = data_okD [OF f(1) d]
  have r0: "room s (card (busy s))" using r(1) f(3) by (simp add: room_def)
  obtain i t1 where t1: "bread 1 x s = Done (i, t1)" "edits s [] (insert x (busy s)) t1" "holds t1 x i"
    "data (bufs t1 i) = blk s x"
    by (rule bread_edits [OF fi(2) _ dx(1) r0]) (use f(3) in auto)
  note s1 = wrote_same [OF t1(2)]
  have b1: "busy t1 = {x}" "blk t1 = blk s" using t1(2) f(3) by (simp_all add: edits_def)
  have h1: "held_ok t1" using d b1 s1 by (simp add: held_ok_def data_ok_def)
  have r1: "room t1 (Suc (Suc (card (busy t1))))" "0 < nfree t1"
    using edits_room_length [OF fi(2) t1(2), of 3] r b1 s1 by (simp_all add: nfree_def numeral_3_eq_3)
  obtain b t2 where b: "b < unat (sb_size (sb t1))" "\<not> used t1 b" "balloc 1 t1 = Done (of_nat b, t2)"
    "wrote t1 (balloc_ws t1 b) t2" "nfree t2 = nfree t1 - 1"
    by (rule balloc_some [OF s1(5) [OF f(1)] h1 r1])
  note ef = balloc_effect [OF b(4) s1(5) [OF f(1)] b(1,2)]
  have h2: "holds t2 x i" "busy t2 = {x}" "linv t2" using b(4) b1 t1(3) by (simp_all add: edits_def)
  have "unat (of_nat b :: u32) = b" using data_block(1) [OF fi(3)] ef(7) b(1) s1 by simp
  then have "x \<noteq> of_nat b" using d b(2) s1 by (auto simp: data_ok_def)
  then have bx: "blk t2 x = blk s x" using ef(3) [of x] dx(6) s1 b1 by simp
  then have d2: "data (bufs t2 i) = blk s x" using holds_data [OF linvD(1) [OF h2(3)] h2(1)] by simp
  let ?d = "put32 (4 * e) (of_nat b) (blk s x)"
  have len: "length ?d = BSIZE" using dx(5) e(1) by (simp add: layout_defs)
  have r2: "room t2 1"
    using edits_room_length [OF _ b(4), of 1] r1(1) b1 t1(2) by (simp add: edits_def balloc_ws_def)
  have nl: "\<not> in_log t2 x" using dx(2) edits_log(1) [OF b(4)] edits_log(1) [OF t1(2)] by simp
  obtain u v where v: "log_write i (set_data i ?d t2) = Done u" "brelse i u = Done v"
    "edits t2 [(x, ?d)] (busy t2 - {x}) v"
    by (rule edit_held [OF edits_txn [OF b(4) fs_invD(1) [OF s1(5) [OF f(1)]]] h2(1) nl r2 len])
  have ws: "balloc_ws t1 b = balloc_ws s b" using s1 b1 by (simp add: balloc_ws_def)
  have "edits s (balloc_ws s b) {x} t2"
    using edits_trans [OF t1(2) b(4)] b1 f(3) ws by simp
  then have "wrote s (balloc_ws s b @ [(x, ?d)]) v"
    using edits_trans [OF _ v(3)] h2(2) f(3) by simp
  moreover have "icache t2 = icache s" "icache t1 = icache s"
    using s1 b(4) fs_more(2) [of t2 t1] by (simp_all add: edits_def)
  then have "bmap_entry ip e x s = Done (of_nat b, v)"
    using t1(1,4) e(2) b(3) v(1,2) d2 map_okD(1) [OF f(2)] by (simp add: bmap_entry_def)
  moreover have c: "c < unat (sb_size (sb s)) \<Longrightarrow> BBLOCK c (sb s) \<noteq> x" for c using dx(3) by (auto simp: bitmap_set_def)
  have uv: "used v c = used t2 c" if "c < unat (sb_size (sb s))" for c
    using used_frame [OF v(3), of c] fs_invD(3) [OF ef(4)] ef(5) s1 that c by simp
  have sv: "sb v = sb s" using v(3) ef(5) s1 fs_more(1) [of v t2] by (simp add: edits_def)
  have "nfree v = nfree t2" using uv sv ef(5) s1 by (auto simp: nfree_def intro: arg_cong [of _ _ card])
  then have "nfree v = nfree s - 1" using b(5) s1 by (simp add: nfree_def)
  moreover have "used v c \<longleftrightarrow> c = b \<or> used s c" if "c < unat (sb_size (sb s))" for c
    using uv [OF that] ef(1) that s1 by simp
  moreover have "fs_inv v"
  proof -
    have "1 < unat x" using dx(6) fi(3) unfolding fs_layout_def datastart_def by linarith
    then have "1 \<notin> fst ` set [(x, ?d)]" by auto
    note lay = layout_frame [OF v(3) fs_invD(3) [OF ef(4)] this]
    have "datastart s \<le> unat (sb_size (sb s))" using fi(3) by (simp add: fs_layout_def)
    then show ?thesis
      unfolding fs_inv_def using lay edits_txn [OF v(3) fs_invD(1) [OF ef(4)]] uv fs_invD(4) [OF ef(4)] ef(6) s1 by auto
  qed
  ultimately show ?thesis using that b(1,2) s1 by simp
qed

lemma get32_put32_array:
  assumes "4 * i + 4 \<le> length d" "4 * e + 4 \<le> length d"
  shows "get32 (4 * i) (put32 (4 * e) v d) = (if i = e then v else get32 (4 * i) d)"
proof (cases "i = e")
  case False
  then have "4 * i + 4 \<le> 4 * e \<or> 4 * e + 4 \<le> 4 * i" by linarith
  then show ?thesis using get32_put32_other [OF assms(2,1)] False by simp
qed (use assms in simp)

lemma bmap_entry_grown:
  fixes s :: "'a fs_state_scheme"
  assumes f: "fs_inv s" "map_ok ip s" "busy s = {}" and r: "room s 3" "0 < nfree s"
    and x: "slot ip s MAXFILE = x" "x \<noteq> 0" and e: "e < NINDIRECT" "slot ip s (NDIRECT + e) = 0"
  obtains b t ws where "bmap_entry ip e x s = Done (of_nat b, t)" "grown ip s ws t" "length ws \<le> 3"
    "slot ip t (NDIRECT + e) = of_nat b" "slot ip t MAXFILE = x" "of_nat b \<noteq> (0 :: u32)"
    "nfree t = nfree s - 1" "fst ` set ws \<subseteq> bitmap_set s \<union> {of_nat b, x}"
proof -
  note fi = fs_invD [OF f(1)]
  have d: "data_ok s x" using map_okD(2) [OF f(2), of MAXFILE] x by simp
  note dx = data_okD [OF f(1) d]
  have e0: "get32 (4 * e) (blk s x) = 0" using e x by (simp add: slot_simps(3) MAXFILE_def)
  obtain b t where b: "b < unat (sb_size (sb s))" "\<not> used s b" "bmap_entry ip e x s = Done (of_nat b, t)"
    "wrote s (balloc_ws s b @ [(x, put32 (4 * e) (of_nat b) (blk s x))]) t" "nfree t = nfree s - 1"
    "fs_inv t" "\<forall>c<unat (sb_size (sb s)). used t c \<longleftrightarrow> c = b \<or> used s c"
    by (rule bmap_entry_alloc [OF f r x e(1) e0])
  let ?d = "put32 (4 * e) (of_nat b) (blk s x)"
  let ?ws = "balloc_ws s b @ [(x, ?d)]"
  have ds: "datastart s \<le> b" using fi(4) b(2) by (meson not_le)
  note m = data_block [OF fi(3) ds b(1)]
  have m0: "(of_nat b :: u32) \<noteq> 0" using ds m(1) by (auto simp: datastart_def)
  have mx: "x \<noteq> of_nat b" using d b(2) m(1) by (auto simp: data_ok_def)
  have bt: "blk t = upds ?ws (blk s)" and ic: "icache t = icache s"
    using b(4) fs_more(2) [of t s] by (simp_all add: edits_def)
  have bx: "blk t x = ?d" "blk t (of_nat b) = replicate BSIZE 0"
    using mx by (simp_all add: bt upds_append balloc_ws_def)
  have xt: "slot ip t MAXFILE = x" using x(1) by (simp add: slot_simps ic)
  have sl: "slot ip t j = (if j = NDIRECT + e then of_nat b else slot ip s j)" if j: "j \<le> MAXFILE" for j
  proof (cases "NDIRECT \<le> j \<and> j < MAXFILE")
    case True
    then have "slot ip t j = get32 (4 * (j - NDIRECT)) ?d" using xt x(2) bx(1) by (simp add: slot_simps(3))
    also have "\<dots> = (if j = NDIRECT + e then of_nat b else get32 (4 * (j - NDIRECT)) (blk s x))"
      using True e(1) dx(5) by (subst get32_put32_array) (auto simp: layout_defs)
    finally show ?thesis using True x by (simp add: slot_simps(3))
  next
    case False
    then show ?thesis using j e(1) by (auto simp: slot_simps(1,2) ic MAXFILE_def [symmetric]) (simp add: MAXFILE_def)
  qed
  have ks: "fst ` set ?ws \<subseteq> bitmap_set s \<union> {of_nat b, x}" using balloc_keys [OF b(1)] by auto
  have "grown ip s ?ws t"
  proof (rule grownI [where k = "NDIRECT + e" and b = b and a = "i_addrs (icache s ip)"])
    show "wrote (s\<lparr>icache := (icache s)(ip := (icache s ip)\<lparr>i_addrs := i_addrs (icache s ip)\<rparr>)\<rparr>) ?ws t"
      using b(4) by simp
    show "fst ` set ?ws \<subseteq> bitmap_set s \<union> {of_nat b} \<union> ({slot ip s MAXFILE} - {0})" using ks x by auto
  qed (use f b sl bx e in \<open>auto simp: MAXFILE_def\<close>)
  then show ?thesis
    using that [of b t ?ws] b(3,5) sl [of "NDIRECT + e"] xt m0 ks e(1) by (simp add: balloc_ws_def MAXFILE_def)
qed

lemma bmap_grown:
  fixes s :: "'a fs_state_scheme"
  assumes f: "fs_inv s" "map_ok ip s" "busy s = {}"
    and r: "room s 5" "(if slot ip s MAXFILE = 0 then 1 else 0) < nfree s" and k: "k < MAXFILE"
  obtains a t ws where "bmap ip k s = Done (a, t)" "grown ip s ws t" "length ws \<le> 5" "slot ip t k = a" "a \<noteq> 0"
    "fst ` set ws \<subseteq> bitmap_set s \<union> {a} \<union> ({slot ip t MAXFILE} - {0})"
    "nfree s \<le> nfree t + 1 + (if slot ip s MAXFILE = 0 \<and> slot ip t MAXFILE \<noteq> 0 then 1 else 0)"
proof (cases "slot ip s k = 0")
  case False
  obtain t where t: "bmap ip k s = Done (slot ip s k, t)" "wrote s [] t" by (rule bmap_mapped [OF f k False])
  show ?thesis
    using that [OF t(1) grown_refl [OF t(2) f(1,2)]] view_same [OF t(2)] False by simp
next
  case z: True
  have r2: "room s 2" "room s 3" "0 < nfree s" using r by (auto intro: room_less split: if_splits)
  consider "k < NDIRECT" | "NDIRECT \<le> k" "slot ip s MAXFILE \<noteq> 0" | "NDIRECT \<le> k" "slot ip s MAXFILE = 0" by linarith
  then show ?thesis
  proof cases
    case 1
    have z': "slot ip s (if k = NDIRECT then MAXFILE else k) = 0" using 1 z by simp
    obtain b t where t: "bmap_addr ip k s = Done (of_nat b, t)" "grown ip s (balloc_ws s b) t"
      "\<forall>j\<le>MAXFILE. slot ip t j = (if j = (if k = NDIRECT then MAXFILE else k) then of_nat b else slot ip s j)"
      "of_nat b \<noteq> (0 :: u32)" "nfree t = nfree s - 1" "fst ` set (balloc_ws s b) \<subseteq> bitmap_set s \<union> {of_nat b}"
      by (rule bmap_addr_grown [OF f r2(1,3) _ z']) (use 1 in auto)
    have "bmap ip k s = Done (of_nat b, t)" using t(1) 1 by (simp add: bmap_def)
    then show ?thesis
      by (rule that [OF _ t(2)]) (use t(3-6) 1 k r2 in \<open>auto simp: balloc_ws_def\<close>)
  next
    case 2
    define e where "e = k - NDIRECT"
    have e: "e < NINDIRECT" "k = NDIRECT + e" using 2 k by (auto simp: e_def MAXFILE_def)
    obtain b t ws where t: "bmap_entry ip e (slot ip s MAXFILE) s = Done (of_nat b, t)" "grown ip s ws t" "length ws \<le> 3"
      "slot ip t (NDIRECT + e) = of_nat b" "slot ip t MAXFILE = slot ip s MAXFILE" "of_nat b \<noteq> (0 :: u32)"
      "nfree t = nfree s - 1" "fst ` set ws \<subseteq> bitmap_set s \<union> {of_nat b, slot ip s MAXFILE}"
      by (rule bmap_entry_grown [OF f r2(2,3) refl 2(2) e(1)]) (use z e in auto)
    have "bmap_addr ip NDIRECT s = Done (slot ip s MAXFILE, s)" using 2(2) by (simp add: bmap_addr_def slot_simps)
    from bmap_indirect [OF 2(1) k this] have "bmap ip k s = Done (of_nat b, t)" using t(1) by (simp add: e_def)
    then show ?thesis by (rule that [OF _ t(2)]) (use t(3-8) 2 e in auto)
  next
    case 3
    define e where "e = k - NDIRECT"
    have e: "e < NINDIRECT" "k = NDIRECT + e" using 3 k by (auto simp: e_def MAXFILE_def)
    obtain c u where u: "bmap_addr ip NDIRECT s = Done (of_nat c, u)" "grown ip s (balloc_ws s c) u"
      "\<forall>j\<le>MAXFILE. slot ip u j = (if j = (if NDIRECT = NDIRECT then MAXFILE else NDIRECT) then of_nat c else slot ip s j)"
      "of_nat c \<noteq> (0 :: u32)" "nfree u = nfree s - 1" "fst ` set (balloc_ws s c) \<subseteq> bitmap_set s \<union> {of_nat c}"
      by (rule bmap_addr_grown [OF f r2(1,3) order_refl]) (use 3 in auto)
    obtain aa where wr: "wrote (s\<lparr>icache := (icache s)(ip := (icache s ip)\<lparr>i_addrs := aa\<rparr>)\<rparr>) (balloc_ws s c) u"
      using u(2) extended_wrote unfolding grown_def by blast
    note wu = wrote_fields [OF wr]
    have eu: "extended ip s (balloc_ws s c) u" using u(2) by (simp add: grown_def)
    have su: "slot ip u MAXFILE = of_nat c" "slot ip u (NDIRECT + e) = 0" "busy u = {}"
      using u(3) k e z wu f(3) by auto
    have ru: "room u 3"
      using edits_room_length [OF _ wr, of 3] r(1) fs_invD(2) [OF f(1)] by (simp add: balloc_ws_def)
    have nu: "0 < nfree u" using u(5) r(2) 3(2) by simp
    obtain b t ws where t: "bmap_entry ip e (of_nat c) u = Done (of_nat b, t)" "grown ip u ws t" "length ws \<le> 3"
      "slot ip t (NDIRECT + e) = of_nat b" "slot ip t MAXFILE = of_nat c" "of_nat b \<noteq> (0 :: u32)"
      "nfree t = nfree u - 1" "fst ` set ws \<subseteq> bitmap_set u \<union> {of_nat b, of_nat c}"
      by (rule bmap_entry_grown [OF extendedD(1,2) [OF eu] su(3) ru nu su(1) u(4) e(1) su(2)])
    have "bmap ip k s = Done (of_nat b, t)" using bmap_indirect [OF 3(1) k u(1)] t(1) by (simp add: e_def)
    then show ?thesis
      by (rule that [OF _ grown_trans [OF u(2) t(2)]]) (use t(3-8) u(4-6) 3 e wu in \<open>auto simp: balloc_ws_def\<close>)
  qed
qed

end
