(* ===== verification/Fs_Data.thy ===== *)
theory Fs_Data
  imports Fs_File
begin

text \<open>
  Reading and writing the contents of a file: \<open>readi\<close> returns the bytes of the file, \<open>writei\<close> replaces
  those it is given, within a budget of log space and free blocks.
\<close>

section \<open>Reading\<close>

lemma block_index:
  assumes "a mod n + i < (n :: nat)"
  shows "(a + i) mod n = a mod n + i" "(a + i) div n = a div n"
proof -
  show "(a + i) mod n = a mod n + i" using assms by (metis mod_add_left_eq mod_less)
  have "i < n" using assms by simp
  then show "(a + i) div n = a div n" using assms by (subst div_add1_eq) simp
qed

lemma slice_content:
  assumes "length (fblock ip s (off div BSIZE)) = BSIZE" "m \<le> BSIZE - off mod BSIZE"
  shows "slice (off mod BSIZE) m (fblock ip s (off div BSIZE)) = map (content ip s) [off..<off + m]"
proof (rule nth_equalityI)
  have o: "off mod BSIZE < BSIZE" by (simp add: BSIZE_def)
  show l: "length (slice (off mod BSIZE) m (fblock ip s (off div BSIZE))) = length (map (content ip s) [off..<off + m])"
    using assms o by simp
  fix i assume "i < length (slice (off mod BSIZE) m (fblock ip s (off div BSIZE)))"
  then have i: "i < m" using l by simp
  then have "(off + i) mod BSIZE = off mod BSIZE + i" "(off + i) div BSIZE = off div BSIZE"
    using assms(2) o by (intro block_index; linarith)+
  then show "slice (off mod BSIZE) m (fblock ip s (off div BSIZE)) ! i = map (content ip s) [off..<off + m] ! i"
    using i assms o by (simp add: nth_slice content_def)
qed

lemma readi_loop_content:
  fixes s :: "'a fs_state_scheme"
  assumes "fs_inv s" "map_ok ip s" "busy s = {}" "unat off + n \<le> MAXFILE * BSIZE"
    "\<forall>k. unat off div BSIZE \<le> k \<longrightarrow> k * BSIZE < unat off + n \<longrightarrow> slot ip s k \<noteq> 0"
  shows "\<exists>t. readi_loop ip off n s = Done (map (content ip s) [unat off..<unat off + n], t) \<and> wrote s [] t"
  using assms
proof (induction n arbitrary: off s rule: less_induct)
  case (less n)
  show ?case
  proof (cases "n = 0")
    case True
    then show ?thesis using wrote_Nil [OF fs_invD(2) [OF less.prems(1)]] by (simp add: readi_loop.simps [of ip off 0])
  next
    case False
    let ?k = "unat off div BSIZE" and ?o = "unat off mod BSIZE"
    define m where "m = min n (BSIZE - ?o)"
    have o: "?o < BSIZE" by (simp add: BSIZE_def)
    have m: "0 < m" "m \<le> n" "m \<le> BSIZE - ?o" using False o by (auto simp: m_def)
    have k: "?k < MAXFILE"
      using less.prems(4) False by (intro less_mult_imp_div_less) simp
    have "?k * BSIZE \<le> unat off" by simp
    then have "?k * BSIZE < unat off + n" using False by linarith
    then have sk: "slot ip s ?k \<noteq> 0" using less.prems(5) by blast
    obtain t where t: "bmap ip ?k s = Done (slot ip s ?k, t)" "wrote s [] t"
      by (rule bmap_mapped [OF less.prems(1-3) k sk])
    note st = wrote_same [OF t(2)] view_same [OF t(2)] edits_log [OF t(2)]
    have d: "data_ok s (slot ip s ?k)" using map_okD(2) [OF less.prems(2) _ sk] k by simp
    obtain i u v where v: "bread 1 (slot ip s ?k) t = Done (i, u)" "data (bufs u i) = blk t (slot ip s ?k)"
      "brelse i u = Done v" "wrote t [] v"
      by (rule peek_block [of t "slot ip s ?k"])
        (use st less.prems(3) data_okD(1) [OF less.prems(1) d] room_0 [of t] in auto)
    have w: "wrote s [] v" using wrote_trans [OF t(2) v(4)] by simp
    note sv = wrote_same [OF w] view_same [OF w] edits_log [OF w]
    have fb: "fblock ip s ?k = data (bufs u i)" using sk v(2) st by (simp add: fblock_def)
    have "MAXFILE * BSIZE < 2 ^ 32" by (simp add: layout_defs)
    then have uo: "unat (off + of_nat m) = unat off + m" using less.prems(4) m(2) by (intro unat_add_of_nat) linarith
    have next_slots: "\<forall>k. unat (off + of_nat m) div BSIZE \<le> k \<longrightarrow> k * BSIZE < unat (off + of_nat m) + (n - m) \<longrightarrow> slot ip v k \<noteq> 0"
      using less.prems(5) m(2) sv uo div_le_mono [of "unat off" "unat off + m" BSIZE] by (auto intro: order_trans)
    have "\<exists>t. readi_loop ip (off + of_nat m) (n - m) v =
        Done (map (content ip v) [unat (off + of_nat m)..<unat (off + of_nat m) + (n - m)], t) \<and> wrote v [] t"
      by (rule less.IH) (use m less.prems sv uo next_slots in auto)
    then obtain x where x: "readi_loop ip (off + of_nat m) (n - m) v = Done (map (content ip s) [unat off + m..<unat off + n], x)"
      "wrote v [] x" using m(2) uo sv by auto
    have "[unat off..<unat off + n] = [unat off..<unat off + m] @ [unat off + m..<unat off + n]"
      using upt_add_eq_append [of "unat off" "unat off + m" "n - m"] m(2) by simp
    moreover have "slice ?o m (data (bufs u i)) = map (content ip s) [unat off..<unat off + m]"
      using slice_content [OF length_fblock [OF less.prems(1,2) k] m(3)] fb by simp
    moreover have "i_dev (icache t ip) = 1" using map_okD(1) [OF less.prems(2)] st by simp
    ultimately have "readi_loop ip off n s = Done (map (content ip s) [unat off..<unat off + n], x)"
      using False t(1) v(1,3) x(1) by (subst readi_loop.simps) (simp add: m_def [symmetric])
    then show ?thesis using wrote_trans [OF w x(2)] by auto
  qed
qed

lemma sint_small: "unat (n :: u32) < 2 ^ 31 \<Longrightarrow> sint n = int (unat n)"
proof -
  assume "unat n < 2 ^ 31"
  then have "int (unat n) < 2 ^ 31" by (metis of_nat_less_iff of_nat_numeral of_nat_power)
  then have "sint (of_int (int (unat n)) :: u32) = int (unat n)"
    by (intro sint_word_of_int_eq) (rule order_trans [of _ 0], simp_all)
  then show ?thesis by simp
qed

lemma file_size:
  assumes "file_ok ip s"
  shows "unat (i_size (icache s ip)) \<le> MAXFILE * BSIZE" "unat (i_size (icache s ip)) < 2 ^ 31"
  using assms by (simp_all add: file_ok_def layout_defs)

lemma unat_add_no_wrap: "\<not> (off + n :: u32) < off \<Longrightarrow> unat (off + n) = unat off + unat n"
  by (metis not_less unat_plus_simple word_le_nat_alt)

lemma readi_content:
  fixes s :: "'a fs_state_scheme"
  assumes f: "fs_inv s" "file_ok ip s" "busy s = {}" "i_type (icache s ip) \<noteq> T_DEV"
    and off: "off \<le> i_size (icache s ip)" "\<not> off + n < off"
  defines "m \<equiv> min (unat n) (unat (i_size (icache s ip)) - unat off)"
  obtains t where "readi devsw ip off n s = Done (int m, map (content ip s) [unat off..<unat off + m], t)" "wrote s [] t"
proof -
  have mo: "map_ok ip s" and sl: "\<forall>k. k * BSIZE < unat (i_size (icache s ip)) \<longrightarrow> slot ip s k \<noteq> 0"
    using f(2) by (simp_all add: file_ok_def)
  note sz = file_size [OF f(2)]
  have o: "unat off \<le> unat (i_size (icache s ip))" using off(1) by (simp add: word_le_nat_alt)
  define n' where "n' = (if off + n > i_size (icache s ip) then i_size (icache s ip) - off else n)"
  have n': "unat n' = m"
    using o off unat_add_no_wrap [OF off(2)]
    by (auto simp: n'_def m_def word_less_nat_alt word_le_nat_alt unat_sub min_def)
  then have "sint n' = int m" using sint_small [of n'] sz(2) by (simp add: m_def)
  moreover have "unat off + m \<le> unat (i_size (icache s ip))" using o by (simp add: m_def)
  then have "\<exists>t. readi_loop ip off m s = Done (map (content ip s) [unat off..<unat off + m], t) \<and> wrote s [] t"
    using sl sz(1) by (intro readi_loop_content [OF f(1) mo f(3)]) auto
  then obtain t where t: "readi_loop ip off m s = Done (map (content ip s) [unat off..<unat off + m], t)" "wrote s [] t"
    by blast
  ultimately have "readi devsw ip off n s = Done (int m, map (content ip s) [unat off..<unat off + m], t)"
    using f(4) off n' by (simp add: readi_def Let_def n'_def [symmetric] not_less)
  then show ?thesis using that t(2) by blast
qed

section \<open>Writing one block\<close>

lemma write_block_extended:
  fixes s :: "'a fs_state_scheme"
  assumes f: "fs_inv s" "map_ok ip s" and k: "k < MAXFILE" "slot ip s k \<noteq> 0" and w: "wrote s [(slot ip s k, d)] t"
  shows "extended ip s [(slot ip s k, d)] t" "j \<le> MAXFILE \<Longrightarrow> slot ip t j = slot ip s j"
    "j < MAXFILE \<Longrightarrow> fblock ip t j = (if j = k then d else fblock ip s j)" "nfree t = nfree s"
proof -
  let ?a = "slot ip s k"
  note fi = fs_invD [OF f(1)]
  have d: "data_ok s ?a" using map_okD(2) [OF f(2) _ k(2)] k(1) by simp
  note da = data_okD [OF f(1) d]
  have bt: "blk t = (blk s)(?a := d)" and ic: "icache t = icache s" and sbt: "sb t = sb s"
    using w fs_more [of t s] by (simp_all add: edits_def)
  have ind: "slot ip s MAXFILE \<noteq> ?a" using map_okD(3) [OF f(2), of k MAXFILE] k by auto
  show sl: "slot ip t j = slot ip s j" if "j \<le> MAXFILE" for j
    using ind slot_cong [of t ip s j] by (simp add: ic bt slot_simps(2))
  show fb: "fblock ip t j = (if j = k then d else fblock ip s j)" if "j < MAXFILE" for j
  proof -
    have "slot ip s j = ?a \<longleftrightarrow> j = k" using map_okD(3) [OF f(2), of j k] that k by auto
    then show ?thesis using that sl k by (auto simp: fblock_def bt)
  qed
  have u: "used t b = used s b" if b: "b < unat (sb_size (sb s))" for b
  proof (rule used_frame [OF w fi(3) b])
    have "BBLOCK b (sb s) \<in> bitmap_set s" using b by (simp add: bitmap_set_def)
    then have "BBLOCK b (sb s) \<noteq> ?a" using da(3) by metis
    then show "BBLOCK b (sb s) \<notin> fst ` set [(?a, d)]" by simp
  qed
  then show "nfree t = nfree s" by (auto simp: nfree_def sbt intro: arg_cong [of _ _ card])
  have "1 < unat ?a" using da(6) fi(3) unfolding fs_layout_def datastart_def by linarith
  then have "1 \<notin> fst ` set [(?a, d)]" by auto
  note lay = layout_frame [OF w fi(3) this]
  have "datastart s \<le> unat (sb_size (sb s))" using fi(3) by (simp add: fs_layout_def)
  then have it: "fs_inv t"
    unfolding fs_inv_def using lay edits_txn [OF w fi(1)] u fi(4) by auto
  have dok: "data_ok t n = data_ok s n" for n using u lay by (auto simp: data_ok_def)
  have mt: "map_ok ip t" using f(2) sl dok by (auto simp: map_ok_def ic)
  have own: "owned ip t = owned ip s" using sl by (auto simp: owned_def)
  have us: "used s b" if "of_nat b \<in> owned ip s" "b < unat (sb_size (sb s))" for b
  proof -
    have "unat (of_nat b :: u32) = b" using that(2) fi(3) by (simp add: fs_layout_def unat_of_nat)
    then show ?thesis using owned_data [OF f(2) that(1)] by (simp add: data_ok_def)
  qed
  have "\<exists>a. wrote (s\<lparr>icache := (icache s)(ip := (icache s ip)\<lparr>i_addrs := a\<rparr>)\<rparr>) [(?a, d)] t"
    using w by (intro exI [of _ "i_addrs (icache s ip)"]) simp
  moreover have "?a \<in> owned ip s" using k by (simp add: owned_def)
  ultimately show "extended ip s [(?a, d)] t"
    unfolding extended_def using it mt sl own u us by auto
qed

lemma write_block:
  fixes s :: "'a fs_state_scheme"
  assumes f: "fs_inv s" "map_ok ip s" "busy s = {}" and r: "room s 1"
    and k: "k < MAXFILE" "slot ip s k \<noteq> 0"
  obtains i t where "bread 1 (slot ip s k) s = Done (i, t)" "data (bufs t i) = fblock ip s k" "icache t = icache s"
    "\<forall>d. length d = BSIZE \<longrightarrow> (\<exists>u v. log_write i (set_data i d t) = Done u \<and> brelse i u = Done v \<and>
       wrote s [(slot ip s k, d)] v)"
proof -
  have d: "data_ok s (slot ip s k)" using map_okD(2) [OF f(2) _ k(2)] k(1) by simp
  note da = data_okD [OF f(1) d]
  obtain i t where e: "bread 1 (slot ip s k) s = Done (i, t)" "data (bufs t i) = blk s (slot ip s k)"
    "log_state.more t = log_state.more s"
    "\<And>d. length d = BSIZE \<Longrightarrow>
       \<exists>u v. log_write i (set_data i d t) = Done u \<and> brelse i u = Done v \<and> wrote s [(slot ip s k, d)] v \<and>
         log_state.more u = log_state.more s"
    using edit_block [OF fs_invD(1) [OF f(1)] _ da(1,2)] f(3) r by (metis One_nat_def card.empty empty_iff)
  show ?thesis
    by (rule that [OF e(1)]) (use e(2,4) k(2) fs_more(2) [OF e(3)] in \<open>auto simp: fblock_def\<close>, blast)
qed

section \<open>Budget\<close>

text \<open>
  \<open>budget ip s k\<close>: the log and the disk have room for \<open>k\<close> more blocks of the file, each of which may need
  a new data block, one indirect block for all of them, and every block of the bitmap.
\<close>

definition nblk :: "nat \<Rightarrow> nat \<Rightarrow> nat" where
  "nblk off n = (if n = 0 then 0 else Suc ((off + n - 1) div BSIZE - off div BSIZE))"

definition budget :: "nat \<Rightarrow> 'a fs_state_scheme \<Rightarrow> nat \<Rightarrow> bool" where
  "budget ip s k \<longleftrightarrow>
     int (card (dirty s \<union> bitmap_set s \<union> ({slot ip s MAXFILE} - {0}))) +
       (if slot ip s MAXFILE = 0 then 1 else 0) + int k + 5 < log_size s \<and>
     (if slot ip s MAXFILE = 0 then 1 else 0) + k \<le> nfree s"

lemma dirty_count:
  assumes "linv s"
  shows "lh_n s \<le> int (card (dirty s \<union> A))"
proof -
  have "card (dirty s) \<le> card (dirty s \<union> A)" by (intro card_mono) auto
  then show ?thesis using logged_card [OF assms] linvD(3) [OF assms] by linarith
qed

lemma budget_room:
  assumes "linv s" "budget ip s k"
  shows "room s 5" "0 < k \<Longrightarrow> (if slot ip s MAXFILE = 0 then 1 else 0) < nfree s" "0 < k \<Longrightarrow> room s 6"
  using assms dirty_count [OF assms(1), of "bitmap_set s \<union> ({slot ip s MAXFILE} - {0})"]
  by (auto simp: budget_def room_def Un_assoc split: if_splits)

lemma budget_less: "budget ip s k \<Longrightarrow> j \<le> k \<Longrightarrow> budget ip s j"
  by (auto simp: budget_def split: if_splits)

lemma card_insert2: "A \<subseteq> insert a B \<Longrightarrow> finite B \<Longrightarrow> card A \<le> card B + 1"
  by (metis add.commute card_insert_le_m1 card_mono card_insert_if finite_insert le_trans less_add_one less_imp_le_nat order_refl plus_1_eq_Suc)

lemma budget_step:
  fixes s :: "'a fs_state_scheme"
  assumes b: "budget ip s (Suc k)" and d: "dirty v \<subseteq> dirty s \<union> bitmap_set s \<union> {a} \<union> ({slot ip v MAXFILE} - {0})"
    and i: "slot ip s MAXFILE \<noteq> 0 \<Longrightarrow> slot ip v MAXFILE = slot ip s MAXFILE"
    and n: "nfree s \<le> nfree v + 1 + (if slot ip s MAXFILE = 0 \<and> slot ip v MAXFILE \<noteq> 0 then 1 else 0)"
    and e: "bitmap_set v = bitmap_set s" "log_size v = log_size s"
  shows "budget ip v k"
proof -
  let ?x = "slot ip s MAXFILE" and ?y = "slot ip v MAXFILE"
  let ?S = "dirty s \<union> bitmap_set s \<union> ({?x} - {0})" and ?V = "dirty v \<union> bitmap_set v \<union> ({?y} - {0})"
  have fin: "finite ?S" by simp
  show ?thesis
  proof (cases "?x = 0 \<and> ?y \<noteq> 0")
    case True
    have "?V \<subseteq> insert a (insert ?y ?S)" using d e(1) by auto
    then have "card ?V \<le> card (insert ?y ?S) + 1" by (rule card_insert2) simp
    moreover have "card (insert ?y ?S) \<le> card ?S + 1" by (rule card_insert2) auto
    ultimately show ?thesis using b n e True by (simp add: budget_def)
  next
    case False
    then have "?y = ?x" using i by metis
    then have "?V \<subseteq> insert a ?S" using d e(1) by auto
    then have "card ?V \<le> card ?S + 1" by (rule card_insert2) simp
    then show ?thesis using b n e False \<open>?y = ?x\<close> by (auto simp: budget_def)
  qed
qed

section \<open>Writing\<close>

lemma content_patch:
  assumes fb: "\<And>j. j < MAXFILE \<Longrightarrow> fblock ip t j = (if j = off div BSIZE then patch (off mod BSIZE) (map src [0..<m]) (fblock ip s j) else fblock ip s j)"
    and l: "length (fblock ip s (off div BSIZE)) = BSIZE" and m: "m \<le> BSIZE - off mod BSIZE" and i: "i < MAXFILE * BSIZE"
  shows "content ip t i = (if off \<le> i \<and> i < off + m then src (i - off) else content ip s i)"
proof -
  have o: "off mod BSIZE < BSIZE" "i mod BSIZE < BSIZE" by (simp_all add: BSIZE_def)
  have om: "off mod BSIZE + m \<le> BSIZE" using m o by linarith
  have id: "i div BSIZE < MAXFILE" using i by (rule less_mult_imp_div_less)
  have ie: "i div BSIZE * BSIZE + i mod BSIZE = i" "off div BSIZE * BSIZE + off mod BSIZE = off" by simp_all
  show ?thesis
  proof (cases "i div BSIZE = off div BSIZE")
    case True
    have c: "off \<le> i \<longleftrightarrow> off mod BSIZE \<le> i mod BSIZE" "i < off + m \<longleftrightarrow> i mod BSIZE < off mod BSIZE + m"
      "i mod BSIZE - off mod BSIZE = i - off"
      using ie unfolding True by linarith+
    have "content ip t i = patch (off mod BSIZE) (map src [0..<m]) (fblock ip s (off div BSIZE)) ! (i mod BSIZE)"
      using fb [OF id] True by (simp add: content_def)
    also have "\<dots> = (if off mod BSIZE \<le> i mod BSIZE \<and> i mod BSIZE < off mod BSIZE + m
        then map src [0..<m] ! (i mod BSIZE - off mod BSIZE) else fblock ip s (off div BSIZE) ! (i mod BSIZE))"
      using l om o(2) by (subst nth_patch) auto
    finally show ?thesis using c True by (auto simp: content_def)
  next
    case False
    have "\<not> (off \<le> i \<and> i < off + m)"
    proof
      assume "off \<le> i \<and> i < off + m"
      then have "off mod BSIZE + (i - off) < BSIZE" using m o by linarith
      from block_index(2) [OF this] show False using False \<open>off \<le> i \<and> i < off + m\<close> by simp
    qed
    then show ?thesis using fb [OF id] False by (auto simp: content_def)
  qed
qed

lemma nblk_step:
  assumes "0 < n" "m = min n (BSIZE - off mod BSIZE)"
  shows "nblk off n = Suc (nblk (off + m) (n - m)) \<or> n - m = 0 \<and> nblk off n = 1"
    "n - m \<noteq> 0 \<Longrightarrow> (off + m) div BSIZE = Suc (off div BSIZE)"
proof -
  have o: "off mod BSIZE < BSIZE" by (simp add: BSIZE_def)
  have e: "off div BSIZE * BSIZE + off mod BSIZE = off" by simp
  have nx: "off + m = Suc (off div BSIZE) * BSIZE" if "n - m \<noteq> 0"
  proof -
    have "m = BSIZE - off mod BSIZE" using that assms(2) by (auto simp: min_def split: if_splits)
    then have "off + m = off div BSIZE * BSIZE + BSIZE" using o e by linarith
    then show ?thesis by simp
  qed
  then show d: "(off + m) div BSIZE = Suc (off div BSIZE)" if "n - m \<noteq> 0"
    using that by (simp add: BSIZE_def)
  show "nblk off n = Suc (nblk (off + m) (n - m)) \<or> n - m = 0 \<and> nblk off n = 1"
  proof (cases "n - m = 0")
    case True
    then have "off mod BSIZE + (n - 1) < BSIZE" using assms o by (auto simp: min_def split: if_splits)
    from block_index(2) [OF this] have "nblk off n = 1" using assms(1) by (simp add: nblk_def)
    then show ?thesis using True by simp
  next
    case False
    have "Suc (off div BSIZE) * BSIZE \<le> off + n - 1" using nx [OF False] False by linarith
    then have "Suc (off div BSIZE) \<le> (off + n - 1) div BSIZE" by (simp add: less_eq_div_iff_mult_less_eq BSIZE_def)
    moreover have "off + m + (n - m) - 1 = off + n - 1" using False by linarith
    ultimately show ?thesis using False assms(1) d [OF False] by (simp add: nblk_def)
  qed
qed

lemma writei_round:
  fixes s :: "'a fs_state_scheme"
  assumes f: "fs_inv s" "map_ok ip s" "busy s = {}" and b: "budget ip s (Suc k)"
    and n: "0 < n" "unat off + n \<le> MAXFILE * BSIZE"
  defines "m \<equiv> min n (BSIZE - unat off mod BSIZE)"
  obtains v ws where "writei_loop ip src off n s = writei_loop ip (\<lambda>i. src (m + i)) (off + of_nat m) (n - m) v"
    "extended ip s ws v" "slot ip v (unat off div BSIZE) \<noteq> 0" "budget ip v k" "busy v = {}"
    "\<forall>i<MAXFILE * BSIZE. content ip v i =
       (if unat off \<le> i \<and> i < unat off + m then src (i - unat off) else content ip s i)"
proof -
  let ?K = "unat off div BSIZE" and ?o = "unat off mod BSIZE"
  note br = budget_room [OF fs_invD(2) [OF f(1)] b]
  have K: "?K < MAXFILE" using n by (intro less_mult_imp_div_less) simp
  obtain a t ws where t: "bmap ip ?K s = Done (a, t)" "grown ip s ws t" "length ws \<le> 5" "slot ip t ?K = a" "a \<noteq> 0"
    "fst ` set ws \<subseteq> bitmap_set s \<union> {a} \<union> ({slot ip t MAXFILE} - {0})"
    "nfree s \<le> nfree t + 1 + (if slot ip s MAXFILE = 0 \<and> slot ip t MAXFILE \<noteq> 0 then 1 else 0)"
    by (rule bmap_grown [OF f br(1) br(2) [OF zero_less_Suc] K])
  have et: "extended ip s ws t" and fb: "\<forall>j<MAXFILE. fblock ip t j = fblock ip s j" using t(2) by (simp_all add: grown_def)
  obtain aa where wr: "wrote (s\<lparr>icache := (icache s)(ip := (icache s ip)\<lparr>i_addrs := aa\<rparr>)\<rparr>) ws t"
    by (rule extended_wrote [OF et])
  note wt = wrote_fields [OF wr] and et' = extendedD [OF et]
  have "room s (length ws + 1)" using br(3) t(3) by (auto intro: room_less)
  then have rt: "room t 1" using edits_room_length [OF _ wr, of 1] fs_invD(2) [OF f(1)] by simp
  have bt: "busy t = {}" and st: "slot ip t ?K \<noteq> 0" using wt f(3) t(4,5) by auto
  obtain i u where u: "bread 1 (slot ip t ?K) t = Done (i, u)" "data (bufs u i) = fblock ip t ?K" "icache u = icache t"
    "\<forall>d. length d = BSIZE \<longrightarrow> (\<exists>x v. log_write i (set_data i d u) = Done x \<and> brelse i x = Done v \<and>
       wrote t [(slot ip t ?K, d)] v)"
    by (rule write_block [OF et'(1,2) bt rt K st])
  have lf: "length (fblock ip s ?K) = BSIZE" by (rule length_fblock [OF f(1,2) K])
  have o: "?o < BSIZE" by (simp add: BSIZE_def)
  let ?d = "patch ?o (map src [0..<m]) (fblock ip s ?K)"
  have "?o + m \<le> BSIZE" using o by (simp add: m_def)
  then have "length ?d = BSIZE" using lf by simp
  then obtain x v where v: "log_write i (set_data i ?d u) = Done x" "brelse i x = Done v" "wrote t [(a, ?d)] v"
    using u(4) t(4) by blast
  have v3: "wrote t [(slot ip t ?K, ?d)] v" using v(3) t(4) by simp
  note wb = write_block_extended [OF et'(1,2) K st v3]
  have ev: "extended ip s (ws @ [(a, ?d)]) v" using extended_trans [OF et wb(1)] t(4) by simp
  have step: "writei_loop ip src off n s = writei_loop ip (\<lambda>i. src (m + i)) (off + of_nat m) (n - m) v"
    using n(1) t(1,4) u(1,2) v(1,2) fb K map_okD(1) [OF et'(2)]
    by (subst writei_loop.simps) (simp add: m_def [symmetric])
  have "icache v = icache t" "bitmap_set v = bitmap_set t" "log_size v = log_size t" "busy v = {}"
    using v(3) fs_more [of v t] bt by (simp_all add: edits_def bitmap_set_def)
  moreover have "dirty v = dirty s \<union> fst ` set ws \<union> {a}" using v(3) wt by (simp add: edits_def)
  ultimately have "budget ip v k"
    using t(6,7) wb(2,4) et'(3) wt by (intro budget_step [OF b, of _ a]) auto
  moreover have "content ip v i = (if unat off \<le> i \<and> i < unat off + m then src (i - unat off) else content ip s i)"
    if "i < MAXFILE * BSIZE" for i
    by (rule content_patch [OF _ lf _ that]) (use wb(3) fb in \<open>auto simp: m_def\<close>)
  moreover have "slot ip v ?K \<noteq> 0" using wb(2) [of ?K] K st by simp
  ultimately show ?thesis using that [OF step ev] \<open>busy v = {}\<close> by blast
qed

lemma writei_loop_content:
  fixes s :: "'a fs_state_scheme"
  assumes "fs_inv s" "map_ok ip s" "busy s = {}" "budget ip s (nblk (unat off) n)" "unat off + n \<le> MAXFILE * BSIZE"
  shows "\<exists>t ws. writei_loop ip src off n s = Done (off + of_nat n, t) \<and> extended ip s ws t \<and> busy t = {} \<and> budget ip t 0 \<and>
    (0 < n \<longrightarrow> (\<forall>k. unat off div BSIZE \<le> k \<longrightarrow> k * BSIZE < unat off + n \<longrightarrow> slot ip t k \<noteq> 0)) \<and>
    (\<forall>i<MAXFILE * BSIZE. content ip t i =
       (if unat off \<le> i \<and> i < unat off + n then src (i - unat off) else content ip s i))"
  using assms
proof (induction n arbitrary: off s src rule: less_induct)
  case (less n)
  show ?case
  proof (cases "n = 0")
    case True
    have "extended ip s [] s"
      using grown_refl [OF wrote_Nil [OF fs_invD(2) [OF less.prems(1)]] less.prems(1,2)] by (simp add: grown_def)
    then have "writei_loop ip src off n s = Done (off + of_nat n, s) \<and> extended ip s [] s \<and> busy s = {} \<and> budget ip s 0"
      using True less.prems by (simp add: writei_loop.simps [of ip src off 0] nblk_def)
    then show ?thesis using True by auto
  next
    case False
    define m where "m = min n (BSIZE - unat off mod BSIZE)"
    have o: "unat off mod BSIZE < BSIZE" by (simp add: BSIZE_def)
    have m: "0 < m" "m \<le> n" using False o by (auto simp: m_def)
    have n: "0 < n" using False by simp
    note nb = nblk_step [OF n m_def]
    have "\<exists>k. budget ip s (Suc k) \<and> nblk (unat off + m) (n - m) \<le> k"
      using nb(1) less.prems(4) by (auto simp: nblk_def)
    then obtain k where k: "budget ip s (Suc k)" "nblk (unat off + m) (n - m) \<le> k" by blast
    obtain v ws where v: "writei_loop ip src off n s = writei_loop ip (\<lambda>i. src (m + i)) (off + of_nat m) (n - m) v"
      "extended ip s ws v" "slot ip v (unat off div BSIZE) \<noteq> 0" "budget ip v k" "busy v = {}"
      "\<forall>i<MAXFILE * BSIZE. content ip v i =
         (if unat off \<le> i \<and> i < unat off + m then src (i - unat off) else content ip s i)"
      unfolding m_def by (rule writei_round [OF less.prems(1-3) k(1) n less.prems(5)])
    have "MAXFILE * BSIZE < 2 ^ 32" by (simp add: layout_defs)
    then have uo: "unat (off + of_nat m) = unat off + m" using less.prems(5) m(2) by (intro unat_add_of_nat) linarith
    note ev = extendedD [OF v(2)]
    obtain t vs where t: "writei_loop ip (\<lambda>i. src (m + i)) (off + of_nat m) (n - m) v = Done (off + of_nat m + of_nat (n - m), t)"
      "extended ip v vs t" "busy t = {}" "budget ip t 0"
      "0 < n - m \<longrightarrow> (\<forall>k. (unat off + m) div BSIZE \<le> k \<longrightarrow> k * BSIZE < unat off + n \<longrightarrow> slot ip t k \<noteq> 0)"
      "\<forall>i<MAXFILE * BSIZE. content ip t i =
         (if unat off + m \<le> i \<and> i < unat off + n then src (m + (i - (unat off + m))) else content ip v i)"
      using less.IH [of "n - m" v "off + of_nat m" "\<lambda>i. src (m + i)"] m ev(1,2) v(5) budget_less [OF v(4)] k(2) less.prems(5)
      unfolding uo by (auto simp: less_imp_le)
    have "off + of_nat m + of_nat (n - m) = off + of_nat n" using m(2) by (simp add: of_nat_diff)
    moreover have "slot ip t k \<noteq> 0" if k: "unat off div BSIZE \<le> k" "k * BSIZE < unat off + n" for k
    proof (cases "k = unat off div BSIZE")
      case True
      have "unat off div BSIZE < MAXFILE" using less.prems(5) n by (intro less_mult_imp_div_less) simp
      then show ?thesis using True v(3) extendedD(3) [OF t(2), of "unat off div BSIZE"] by simp
    next
      case False
      then have kk: "Suc (unat off div BSIZE) \<le> k" using k(1) by simp
      then have "Suc (unat off div BSIZE) * BSIZE \<le> k * BSIZE" by (rule mult_le_mono1)
      moreover have "unat off div BSIZE * BSIZE + unat off mod BSIZE = unat off" by simp
      ultimately have "\<not> n \<le> BSIZE - unat off mod BSIZE" using k(2) o unfolding mult_Suc by linarith
      then have "n - m \<noteq> 0" by (simp add: m_def)
      then show ?thesis using t(5) nb(2) kk k(2) by simp
    qed
    moreover have "content ip t i = (if unat off \<le> i \<and> i < unat off + n then src (i - unat off) else content ip s i)"
      if "i < MAXFILE * BSIZE" for i
      using t(6) v(6) that m(2) by auto
    ultimately show ?thesis using v(1) t(1-4) extended_trans [OF v(2) t(2)] by auto
  qed
qed

end
