(* ===== verification/Fs_Dir.thy ===== *)
theory Fs_Dir
  imports Fs_Data
begin

text \<open>
  Directories and path names, the top of \<open>kern/fs.c\<close>. A C string is the list of its bytes before the
  terminating NUL; a name in a directory entry is the list of its 14 bytes. \<open>namex\<close> takes the current
  directory of the process as an argument.
\<close>

section \<open>Directories\<close>

definition DIRSIZ :: nat where [layout_defs]: "DIRSIZ = 14"

record dirent =
  de_inum :: u16
  de_name :: bytes

definition sizeof_dirent :: nat where [layout_defs]: "sizeof_dirent = 2 + DIRSIZ"

definition dirent_of :: "bytes \<Rightarrow> dirent" where
  "dirent_of d = \<lparr>de_inum = get16 0 d, de_name = slice 2 DIRSIZ d\<rparr>"

definition bytes_of_dirent :: "dirent \<Rightarrow> bytes" where
  "bytes_of_dirent de = bytes_of_u16 (de_inum de) @ de_name de"

text \<open>Reading a byte list as memory: a NUL follows the last byte.\<close>

definition cstr :: "bytes \<Rightarrow> nat \<Rightarrow> u8" where
  "cstr xs i = (if i < length xs then xs ! i else 0)"

definition namecmp :: "bytes \<Rightarrow> bytes \<Rightarrow> int" where
  "namecmp a b = strncmp (cstr a) (cstr b) DIRSIZ"

text \<open>The loop of \<open>dirlookup\<close>: \<open>k\<close> more entries, the next one at \<open>off\<close>.\<close>

primrec dirlookup_loop :: "'a fs_state_scheme devsw \<Rightarrow> nat \<Rightarrow> nat \<Rightarrow> u32 \<Rightarrow> bytes \<Rightarrow> 'a fs_state_scheme \<Rightarrow>
    ((nat \<times> u32) option \<times> 'a fs_state_scheme) outcome" where
  "dirlookup_loop devsw 0 dp off name s = Done (None, s)"
| "dirlookup_loop devsw (Suc k) dp off name s =
     obind (readi devsw dp off (of_nat sizeof_dirent) s) (\<lambda>(r, d, s).
       if r \<noteq> int sizeof_dirent then Panic ''dirlink read''
       else
         let de = dirent_of d in
         if de_inum de \<noteq> 0 \<and> namecmp name (de_name de) = 0
         then obind (iget (i_dev (icache s dp)) (ucast (de_inum de)) s) (\<lambda>(ip, s). Done (Some (ip, off), s))
         else dirlookup_loop devsw k dp (off + of_nat sizeof_dirent) name s)"

text \<open>The number of entries a loop over a directory of this size visits.\<close>

definition nentries :: "u32 \<Rightarrow> nat" where
  "nentries sz = (unat sz + sizeof_dirent - 1) div sizeof_dirent"

definition dirlookup :: "'a fs_state_scheme devsw \<Rightarrow> nat \<Rightarrow> bytes \<Rightarrow> 'a fs_state_scheme \<Rightarrow>
    ((nat \<times> u32) option \<times> 'a fs_state_scheme) outcome" where
  "dirlookup devsw dp name s =
     (if i_type (icache s dp) \<noteq> T_DIR then Panic ''dirlookup not DIR''
      else dirlookup_loop devsw (nentries (i_size (icache s dp))) dp 0 name s)"

text \<open>The search of \<open>dirlink\<close> for an empty entry; without one it ends behind the last entry.\<close>

primrec dirlink_slot :: "'a fs_state_scheme devsw \<Rightarrow> nat \<Rightarrow> nat \<Rightarrow> u32 \<Rightarrow> 'a fs_state_scheme \<Rightarrow>
    (u32 \<times> 'a fs_state_scheme) outcome" where
  "dirlink_slot devsw 0 dp off s = Done (off, s)"
| "dirlink_slot devsw (Suc k) dp off s =
     obind (readi devsw dp off (of_nat sizeof_dirent) s) (\<lambda>(r, d, s).
       if r \<noteq> int sizeof_dirent then Panic ''dirlink read''
       else if de_inum (dirent_of d) = 0 then Done (off, s)
       else dirlink_slot devsw k dp (off + of_nat sizeof_dirent) s)"

definition dirlink :: "'a fs_state_scheme devsw \<Rightarrow> nat \<Rightarrow> bytes \<Rightarrow> u32 \<Rightarrow> 'a fs_state_scheme \<Rightarrow>
    (int \<times> 'a fs_state_scheme) outcome" where
  "dirlink devsw dp name inum s =
     obind (dirlookup devsw dp name s) (\<lambda>(r, s).
       case r of
         Some (ip, _) \<Rightarrow> obind (iput ip s) (\<lambda>s. Done (-1, s))
       | None \<Rightarrow>
           obind (dirlink_slot devsw (nentries (i_size (icache s dp))) dp 0 s) (\<lambda>(off, s).
             let de = \<lparr>de_inum = ucast inum, de_name = strncpy (cstr name) (int DIRSIZ)\<rparr> in
             obind (writei devsw dp (\<lambda>i. bytes_of_dirent de ! i) off (of_nat sizeof_dirent) s) (\<lambda>(r, s).
               if r \<noteq> int sizeof_dirent then Panic ''dirlink'' else Done (0, s))))"

section \<open>Paths\<close>

text \<open>
  \<open>skipelem path name\<close>: the path behind the first element, and the buffer \<open>name\<close> with that element; a
  long element fills the buffer and is not terminated.
\<close>

definition skipelem :: "bytes \<Rightarrow> bytes \<Rightarrow> (bytes \<times> bytes) option" where
  "skipelem path name =
     (let path = dropWhile (\<lambda>c. c = 47) path in
      if path = [] then None
      else
        let s = takeWhile (\<lambda>c. c \<noteq> 47) path;
            path = dropWhile (\<lambda>c. c \<noteq> 47) path;
            name = (if length s \<ge> DIRSIZ then patch 0 (take DIRSIZ s) name else patch 0 (s @ [0]) name)
        in Some (dropWhile (\<lambda>c. c = 47) path, name))"

lemma skipelem_shorter:
  assumes "skipelem path name = Some (rest, name')"
  shows "length rest < length path"
proof -
  define p where "p = dropWhile (\<lambda>c. c = 47) path"
  have r: "p \<noteq> []" "rest = dropWhile (\<lambda>c. c = 47) (dropWhile (\<lambda>c. c \<noteq> 47) p)"
    using assms by (auto simp: skipelem_def Let_def p_def split: if_splits)
  have "hd p \<noteq> 47" using r(1) hd_dropWhile [of "\<lambda>c. c = 47" path] by (simp add: p_def)
  then obtain x q where p: "p = x # q" "x \<noteq> 47" using r(1) by (cases p) auto
  have "length rest \<le> length q"
    using r(2) p length_dropWhile_le [of "\<lambda>c. c = 47" "dropWhile (\<lambda>c. c \<noteq> 47) q"] length_dropWhile_le [of "\<lambda>c. c \<noteq> 47" q]
    by simp
  moreover have "length p \<le> length path" by (simp add: p_def length_dropWhile_le)
  ultimately show ?thesis using p by simp
qed

text \<open>The loop of \<open>namex\<close>; the result is the inode, \<open>None\<close> for the null pointer, and the name buffer.\<close>

function namex_loop :: "'a fs_state_scheme devsw \<Rightarrow> bytes \<Rightarrow> bool \<Rightarrow> bytes \<Rightarrow> nat \<Rightarrow> 'a fs_state_scheme \<Rightarrow>
    (nat option \<times> bytes \<times> 'a fs_state_scheme) outcome" where
  "namex_loop devsw path parent name ip s =
     (case skipelem path name of
        None \<Rightarrow>
          if parent then obind (iput ip s) (\<lambda>s. Done (None, name, s)) else Done (Some ip, name, s)
      | Some (path', name) \<Rightarrow>
          obind (ilock (Some ip) s) (\<lambda>s.
            if i_type (icache s ip) \<noteq> T_DIR
            then obind (iunlockput ip s) (\<lambda>s. Done (None, name, s))
            else if parent \<and> path' = []
            then obind (iunlock (Some ip) s) (\<lambda>s. Done (Some ip, name, s))
            else
              obind (dirlookup devsw ip name s) (\<lambda>(r, s).
              obind (iunlockput ip s) (\<lambda>s.
                case r of
                  None \<Rightarrow> Done (None, name, s)
                | Some (next, _) \<Rightarrow> namex_loop devsw path' parent name next s))))"
  by auto
termination
  by (relation "measure (\<lambda>(_, path, _, _, _, _). length path)") (auto dest: skipelem_shorter)

definition namex :: "'a fs_state_scheme devsw \<Rightarrow> nat \<Rightarrow> bytes \<Rightarrow> bool \<Rightarrow> bytes \<Rightarrow> 'a fs_state_scheme \<Rightarrow>
    (nat option \<times> bytes \<times> 'a fs_state_scheme) outcome" where
  "namex devsw cwd path parent name s =
     obind (if path \<noteq> [] \<and> hd path = 47 then iget ROOTDEV ROOTINO s else Done (idup cwd s)) (\<lambda>(ip, s).
     namex_loop devsw path parent name ip s)"

definition namei :: "'a fs_state_scheme devsw \<Rightarrow> nat \<Rightarrow> bytes \<Rightarrow> 'a fs_state_scheme \<Rightarrow>
    (nat option \<times> 'a fs_state_scheme) outcome" where
  "namei devsw cwd path s =
     obind (namex devsw cwd path False (replicate DIRSIZ 0) s) (\<lambda>(ip, _, s). Done (ip, s))"

definition nameiparent :: "'a fs_state_scheme devsw \<Rightarrow> nat \<Rightarrow> bytes \<Rightarrow> bytes \<Rightarrow> 'a fs_state_scheme \<Rightarrow>
    (nat option \<times> bytes \<times> 'a fs_state_scheme) outcome" where
  "nameiparent devsw cwd path name s = namex devsw cwd path True name s"

declare namex_loop.simps [simp del]

end
