(* ===== verification/Layout.thy ===== *)
theory Layout
  imports Kstring
begin

text \<open>
  Addresses: the constants and macros of \<open>include/xv6/mmu.h\<close> and \<open>include/xv6/memlayout.h\<close>, and words
  in byte-addressed memory.
\<close>

section \<open>Constants and macros\<close>

definition PGSIZE :: u32 where [layout_defs]: "PGSIZE = 4096"
definition EXTMEM :: u32 where [layout_defs]: "EXTMEM = 0x100000"
definition PHYSTOP :: u32 where [layout_defs]: "PHYSTOP = 0xE000000"
definition DEVSPACE :: u32 where [layout_defs]: "DEVSPACE = 0xFE000000"
definition KERNBASE :: u32 where [layout_defs]: "KERNBASE = 0x80000000"
definition KERNLINK :: u32 where [layout_defs]: "KERNLINK = KERNBASE + EXTMEM"
definition NPDENTRIES :: nat where [layout_defs]: "NPDENTRIES = 1024"
definition NPTENTRIES :: nat where [layout_defs]: "NPTENTRIES = 1024"

definition PTE_P :: u32 where [layout_defs]: "PTE_P = 1"
definition PTE_W :: u32 where [layout_defs]: "PTE_W = 2"
definition PTE_U :: u32 where [layout_defs]: "PTE_U = 4"
definition PTE_PS :: u32 where [layout_defs]: "PTE_PS = 0x80"

definition v2p :: "u32 \<Rightarrow> u32" where "v2p a = a - KERNBASE"
definition p2v :: "u32 \<Rightarrow> u32" where "p2v a = a + KERNBASE"

definition PGROUNDUP :: "u32 \<Rightarrow> u32" where "PGROUNDUP sz = (sz + PGSIZE - 1) AND NOT (PGSIZE - 1)"
definition PGROUNDDOWN :: "u32 \<Rightarrow> u32" where "PGROUNDDOWN a = a AND NOT (PGSIZE - 1)"

definition PDX :: "u32 \<Rightarrow> u32" where "PDX va = drop_bit 22 va AND 0x3FF"
definition PTX :: "u32 \<Rightarrow> u32" where "PTX va = drop_bit 12 va AND 0x3FF"
definition PGADDR :: "u32 \<Rightarrow> u32 \<Rightarrow> u32 \<Rightarrow> u32" where
  "PGADDR d t ofs = push_bit 22 d OR push_bit 12 t OR ofs"

definition PTE_ADDR :: "u32 \<Rightarrow> u32" where "PTE_ADDR pte = pte AND NOT 0xFFF"
definition PTE_FLAGS :: "u32 \<Rightarrow> u32" where "PTE_FLAGS pte = pte AND 0xFFF"

section \<open>Words in memory\<close>

definition load32 :: "mem \<Rightarrow> u32 \<Rightarrow> u32" where
  "load32 m a = u32_of_bytes [m a, m (a + 1), m (a + 2), m (a + 3)]"

lemma load32_cong:
  "m a = m' a \<Longrightarrow> m (a + 1) = m' (a + 1) \<Longrightarrow> m (a + 2) = m' (a + 2) \<Longrightarrow> m (a + 3) = m' (a + 3) \<Longrightarrow>
   load32 m a = load32 m' a"
  by (simp add: load32_def)

lemma load32_store32 [simp]: "load32 (store32 a v m) a = v"
proof -
  have "load32 (store32 a v m) a = u32_of_bytes (bytes_of_u32 v)"
    by (simp add: load32_def store32_def bytes_of_u32_def)
  then show ?thesis by simp
qed

section \<open>Page arithmetic\<close>

lemma PGSIZE_mask: "PGSIZE - 1 = mask 12"
  by (simp add: PGSIZE_def mask_eq_exp_minus_1)

lemma and_not_mask: "a AND NOT (mask n) = push_bit n (drop_bit n (a :: 'a::len word))"
  by (rule bit_word_eqI) (auto simp: bit_simps)

lemma unat_less_32: "unat (a :: u32) < 2 ^ 32"
  using unsigned_less [of a] by simp

lemma unat_drop_bit_32: "unat (drop_bit n (a :: u32)) = unat a div 2 ^ n"
proof -
  have "unat (drop_bit n a) = drop_bit n (take_bit LENGTH(32) (unat a))" by (simp only: unsigned_drop_bit_eq)
  then show ?thesis using unat_less_32 [of a] by (simp add: drop_bit_eq_div take_bit_nat_eq_self)
qed

lemma unat_and_not_mask: "unat (a AND NOT (mask n) :: u32) = unat a div 2 ^ n * 2 ^ n"
proof -
  have "unat a div 2 ^ n * 2 ^ n \<le> unat a" by (rule div_times_less_eq_dividend)
  then have "unat a div 2 ^ n * 2 ^ n < 2 ^ 32" using unat_less_32 [of a] by linarith
  moreover have "unat (push_bit n (drop_bit n a)) = take_bit LENGTH(32) (push_bit n (unat (drop_bit n a)))"
    by (simp only: unsigned_push_bit_eq)
  ultimately show ?thesis
    unfolding and_not_mask unat_drop_bit_32 by (simp add: push_bit_eq_mult take_bit_nat_eq_self)
qed

lemma unat_PGROUNDDOWN: "unat (PGROUNDDOWN a) = unat a div 4096 * 4096"
  using unat_and_not_mask [of a 12] by (simp add: PGROUNDDOWN_def PGSIZE_mask)

lemma unat_PGROUNDUP: "unat a + 4095 < 2 ^ 32 \<Longrightarrow> unat (PGROUNDUP a) = (unat a + 4095) div 4096 * 4096"
proof -
  assume a: "unat a + 4095 < 2 ^ 32"
  have "PGROUNDUP a = (a + 4095) AND NOT (mask 12)"
    unfolding PGROUNDUP_def PGSIZE_mask by (simp add: PGSIZE_def add.commute)
  then show ?thesis
    using a unat_and_not_mask [of "a + 4095" 12] unat_add_of_nat [of a 4095] by simp
qed

lemma PGROUNDDOWN_le: "PGROUNDDOWN a \<le> a"
  by (simp add: word_le_nat_alt unat_PGROUNDDOWN)

lemma PGROUNDDOWN_aligned: "unat (PGROUNDDOWN a) mod 4096 = 0"
  by (simp add: unat_PGROUNDDOWN)

lemma PGROUNDDOWN_idem: "unat a mod 4096 = 0 \<Longrightarrow> PGROUNDDOWN a = a"
  by (simp add: word_unat_eq_iff unat_PGROUNDDOWN mod_0_imp_dvd)

lemma PTE_ADDR_eq: "PTE_ADDR a = PGROUNDDOWN a"
  by (simp add: PTE_ADDR_def PGROUNDDOWN_def PGSIZE_def)

lemma unat_PDX: "unat (PDX va) = unat va div 2 ^ 22"
proof -
  have "(0x3FF :: u32) = mask 10" by (simp add: mask_eq_exp_minus_1)
  then have "PDX va = take_bit 10 (drop_bit 22 va)" unfolding PDX_def by (simp only: take_bit_eq_mask)
  also have "\<dots> = drop_bit 22 va"
    by (rule bit_word_eqI) (auto simp: bit_simps dest: bit_imp_le_length)
  finally show ?thesis by (simp only: unat_drop_bit_32)
qed

lemma unat_PTX: "unat (PTX va) = unat va div 2 ^ 12 mod 2 ^ 10"
proof -
  have "(0x3FF :: u32) = mask 10" by (simp add: mask_eq_exp_minus_1)
  then have "PTX va = take_bit 10 (drop_bit 12 va)" unfolding PTX_def by (simp only: take_bit_eq_mask)
  then have "unat (PTX va) = take_bit 10 (unat va div 2 ^ 12)"
    by (simp only: unsigned_take_bit_eq unat_drop_bit_32)
  then show ?thesis by (simp only: take_bit_eq_mod)
qed

lemma index_bounds: "unat (PDX va) < 1024" "unat (PTX va) < 1024"
  using unat_less_32 [of va] by (simp_all add: unat_PDX unat_PTX)

text \<open>The two indices of an address determine its page.\<close>

lemma page_index: "unat (PGROUNDDOWN va) = unat (PDX va) * 2 ^ 22 + unat (PTX va) * 2 ^ 12"
proof -
  have "unat va div 4096 = unat va div 4096 div 1024 * 1024 + unat va div 4096 mod 1024"
    by (rule div_mod_decomp)
  moreover have "unat va div 4096 div 1024 = unat va div 4194304" by (simp add: div_mult2_eq [symmetric])
  ultimately have "unat va div 4096 = unat va div 4194304 * 1024 + unat va div 4096 mod 1024" by (simp only:)
  then show ?thesis by (simp add: unat_PGROUNDDOWN unat_PDX unat_PTX)
qed

end
