(* ===== verification/Kalloc.thy ===== *)
theory Kalloc
  imports Layout
begin

text \<open>
  The physical page allocator, \<open>kern/kalloc.c\<close>. Free pages are linked through their first word, in
  the memory they manage. The abstract allocator, a set of free pages, is a locale; it is interpreted
  on \<open>kalloc\<close> and \<open>kfree\<close>.
\<close>

section \<open>Allocators\<close>

text \<open>
  What a client of an allocator relies on: an allocation returns a free item and only takes that
  one away, it fails only when nothing is free, and freeing an item gives it back.
\<close>

locale allocator =
  fixes inv :: "'s \<Rightarrow> bool" and free :: "'s \<Rightarrow> 'p set"
    and alloc :: "'s \<Rightarrow> ('p \<times> 's) option" and dealloc :: "'p \<Rightarrow> 's \<Rightarrow> 's" and valid :: "'p \<Rightarrow> 's \<Rightarrow> bool"
  assumes finite_free: "inv s \<Longrightarrow> finite (free s)"
    and alloc_None: "inv s \<Longrightarrow> alloc s = None \<longleftrightarrow> free s = {}"
    and alloc_Some: "inv s \<Longrightarrow> alloc s = Some (p, t) \<Longrightarrow> inv t \<and> p \<in> free s \<and> free t = free s - {p} \<and> valid p t"
    and dealloc: "inv s \<Longrightarrow> p \<notin> free s \<Longrightarrow> valid p s \<Longrightarrow> inv (dealloc p s) \<and> free (dealloc p s) = insert p (free s)"
begin

fun allocs :: "nat \<Rightarrow> 's \<Rightarrow> ('p list \<times> 's) option" where
  "allocs 0 s = Some ([], s)"
| "allocs (Suc n) s = (case alloc s of None \<Rightarrow> None
     | Some (p, t) \<Rightarrow> (case allocs n t of None \<Rightarrow> None | Some (ps, u) \<Rightarrow> Some (p # ps, u)))"

lemma allocs_enough: "inv s \<Longrightarrow> n \<le> card (free s) \<Longrightarrow> \<exists>ps t. allocs n s = Some (ps, t)"
proof (induction n arbitrary: s)
  case (Suc n)
  then have "free s \<noteq> {}" by auto
  then obtain p t where a: "alloc s = Some (p, t)" using alloc_None [OF Suc.prems(1)] by fastforce
  note t = alloc_Some [OF Suc.prems(1) a]
  then have "n \<le> card (free t)" using Suc.prems finite_free by simp
  then obtain ps u where "allocs n t = Some (ps, u)" using Suc.IH [of t] t by blast
  then show ?case using a by simp
qed simp

lemma allocs_distinct:
  assumes "inv s" "allocs n s = Some (ps, t)"
  shows "inv t \<and> distinct ps \<and> length ps = n \<and> set ps \<subseteq> free s \<and> free t = free s - set ps"
  using assms
proof (induction n arbitrary: s ps)
  case (Suc n)
  then obtain p u qs where a: "alloc s = Some (p, u)" "allocs n u = Some (qs, t)" "ps = p # qs"
    by (auto split: option.splits prod.splits)
  note u = alloc_Some [OF Suc.prems(1) a(1)]
  note IH = Suc.IH [OF _ a(2)]
  then show ?case using u a(3) by auto
qed simp

lemma alloc_dealloc:
  assumes "inv s" "alloc s = Some (p, t)"
  shows "inv (dealloc p t) \<and> free (dealloc p t) = free s"
  using alloc_Some [OF assms] dealloc [of t p] by auto

end

section \<open>State and operations\<close>

text \<open>\<open>kend\<close> is the linker's symbol \<open>end\<close>, the first address after the kernel.\<close>

record kmem =
  kmem_mem :: mem
  freelist :: u32
  use_lock :: bool
  kend :: u32

definition kfree :: "u32 \<Rightarrow> 'a kmem_scheme \<Rightarrow> 'a kmem_scheme outcome" where
  "kfree v s =
     (if v mod PGSIZE \<noteq> 0 \<or> v < kend s \<or> v2p v \<ge> PHYSTOP then Panic ''kfree''
      else
        let s = s\<lparr>kmem_mem := memset v 1 PGSIZE (kmem_mem s)\<rparr>;
            s = s\<lparr>kmem_mem := store32 v (freelist s) (kmem_mem s)\<rparr>
        in Done (s\<lparr>freelist := v\<rparr>))"

definition kalloc :: "'a kmem_scheme \<Rightarrow> u32 \<times> 'a kmem_scheme" where
  "kalloc s =
     (let r = freelist s in
      if r \<noteq> 0 then (r, s\<lparr>freelist := load32 (kmem_mem s) r\<rparr>) else (r, s))"

text \<open>
  The loop of \<open>freerange\<close> ends because \<open>kfree\<close> panics at the top of physical memory.
\<close>

lemma kfree_DoneD:
  assumes "kfree v s = Done t"
  shows "v mod PGSIZE = 0" "kend s \<le> v" "v2p v < PHYSTOP"
  using assms by (auto simp: kfree_def Let_def not_le not_less split: if_splits)

function freerange_loop :: "u32 \<Rightarrow> u32 \<Rightarrow> 'a kmem_scheme \<Rightarrow> 'a kmem_scheme outcome" where
  "freerange_loop p vend s =
     (if p + PGSIZE \<le> vend then obind (kfree p s) (\<lambda>s. freerange_loop (p + PGSIZE) vend s) else Done s)"
  by auto
termination
proof (relation "measure (\<lambda>(p, _, _). unat PHYSTOP + 4096 - unat (v2p p))")
  fix p vend :: u32 and s t :: "'a kmem_scheme"
  assume "kfree p s = Done t"
  then have "v2p p < PHYSTOP" by (rule kfree_DoneD)
  then have p: "unat (v2p p) < 0xE000000" by (simp add: PHYSTOP_def word_less_nat_alt)
  have "v2p (p + PGSIZE) = v2p p + of_nat 4096" by (simp add: v2p_def PGSIZE_def)
  then have "unat (v2p (p + PGSIZE)) = unat (v2p p) + 4096"
    using unat_add_of_nat [of "v2p p" 4096] p by simp
  then show "((p + PGSIZE, vend, t), p, vend, s) \<in> measure (\<lambda>(p, _, _). unat PHYSTOP + 4096 - unat (v2p p))"
    using p by (simp add: PHYSTOP_def)
qed simp

definition freerange :: "u32 \<Rightarrow> u32 \<Rightarrow> 'a kmem_scheme \<Rightarrow> 'a kmem_scheme outcome" where
  "freerange vstart vend s = freerange_loop (PGROUNDUP vstart) vend s"

definition kinit1 :: "u32 \<Rightarrow> u32 \<Rightarrow> 'a kmem_scheme \<Rightarrow> 'a kmem_scheme outcome" where
  "kinit1 vstart vend s = freerange vstart vend (s\<lparr>use_lock := False\<rparr>)"

definition kinit2 :: "u32 \<Rightarrow> u32 \<Rightarrow> 'a kmem_scheme \<Rightarrow> 'a kmem_scheme outcome" where
  "kinit2 vstart vend s = obind (freerange vstart vend s) (\<lambda>s. Done (s\<lparr>use_lock := True\<rparr>))"

section \<open>The free list\<close>

definition page_ok :: "u32 \<Rightarrow> 'a kmem_scheme \<Rightarrow> bool" where
  "page_ok v s \<longleftrightarrow> v \<noteq> 0 \<and> v mod PGSIZE = 0 \<and> kend s \<le> v \<and> v2p v < PHYSTOP"

primrec chain :: "mem \<Rightarrow> u32 \<Rightarrow> u32 list \<Rightarrow> bool" where
  "chain m p [] \<longleftrightarrow> p = 0"
| "chain m p (x # xs) \<longleftrightarrow> p = x \<and> chain m (load32 m x) xs"

definition free_list :: "'a kmem_scheme \<Rightarrow> u32 list \<Rightarrow> bool" where
  "free_list s xs \<longleftrightarrow> chain (kmem_mem s) (freelist s) xs \<and> distinct xs \<and> (\<forall>x\<in>set xs. page_ok x s)"

definition free_pages :: "'a kmem_scheme \<Rightarrow> u32 set" where
  "free_pages s = (if \<exists>xs. free_list s xs then set (THE xs. free_list s xs) else {})"

lemma chain_unique: "chain m p xs \<Longrightarrow> chain m p ys \<Longrightarrow> 0 \<notin> set xs \<Longrightarrow> 0 \<notin> set ys \<Longrightarrow> xs = ys"
proof (induction xs arbitrary: p ys)
  case Nil
  then show ?case by (cases ys) auto
next
  case (Cons x xs)
  then show ?case by (cases ys) auto
qed

lemma free_list_unique: "free_list s xs \<Longrightarrow> free_list s ys \<Longrightarrow> xs = ys"
  using chain_unique by (metis free_list_def page_ok_def)

lemma free_pages_eq:
  assumes "free_list s xs"
  shows "free_pages s = set xs"
proof -
  have "(THE xs. free_list s xs) = xs" by (rule the_equality) (use assms free_list_unique in blast)+
  then show ?thesis using assms by (auto simp: free_pages_def)
qed

lemma aligned_unat: "v mod PGSIZE = 0 \<longleftrightarrow> 4096 dvd unat v"
  by (simp add: PGSIZE_def word_unat_eq_iff unat_mod_distrib dvd_eq_mod_eq_0)

lemma page_apart:
  assumes "v mod PGSIZE = 0" "x mod PGSIZE = 0" "x \<noteq> v" "unat i < 4096"
  shows "\<not> unat (x + i - v) < 4096"
proof -
  let ?d = "x - v"
  have "4096 dvd unat ?d"
  proof (cases "v \<le> x")
    case True
    then have "unat ?d = unat x - unat v" by (rule unat_sub)
    then show ?thesis using assms(1,2) by (simp add: aligned_unat dvd_diff_nat)
  next
    case False
    then have "unat ?d = 2 ^ 32 + unat x - unat v" using unat_sub_wrap [of x v] by simp
    then show ?thesis using assms(1,2) by (simp add: aligned_unat dvd_diff_nat)
  qed
  then obtain k where k: "unat ?d = 4096 * k" by (auto elim: dvdE)
  moreover have "unat ?d \<noteq> 0" using assms(3) by (simp add: unat_eq_0)
  ultimately have k1: "1 \<le> k" by (cases k) auto
  have "k < 2 ^ 20" using k unat_less_32 [of ?d] by simp
  then have "unat ?d + unat i < 2 ^ 32" using k assms(4) by simp
  then have "unat (?d + i) = unat ?d + unat i" using unat_add_of_nat [of ?d "unat i"] by simp
  moreover have e: "x + i - v = ?d + i" by simp
  ultimately show ?thesis unfolding e using k k1 by linarith
qed

lemma memset_page: "memset v c PGSIZE m a = (if unat (a - v) < 4096 then ucast c else m a)"
  by (simp add: memset_mem PGSIZE_def)

lemma store_page:
  assumes "v mod PGSIZE = 0" "x mod PGSIZE = 0" "x \<noteq> v"
  shows "load32 (store32 v w (memset v c PGSIZE m)) x = load32 m x"
proof -
  have s: "store32 v w m' a = m' a" if "\<not> unat (a - v) < 4096" for a m'
    using that by (auto simp: store32_def)
  have "store32 v w (memset v c PGSIZE m) (x + i) = m (x + i)" if "unat i < 4096" for i
    using page_apart [OF assms that] s by (simp add: memset_page)
  from this [of 0] this [of 1] this [of 2] this [of 3] show ?thesis
    by (intro load32_cong) simp_all
qed

lemma chain_cong: "(\<And>x. x \<in> set xs \<Longrightarrow> load32 m' x = load32 m x) \<Longrightarrow> chain m' p xs = chain m p xs"
  by (induction xs arbitrary: p) auto

definition kfreed :: "u32 \<Rightarrow> 'a kmem_scheme \<Rightarrow> 'a kmem_scheme" where
  "kfreed v s = s\<lparr>kmem_mem := store32 v (freelist s) (memset v 1 PGSIZE (kmem_mem s)), freelist := v\<rparr>"

lemma kfree_ok: "page_ok v s \<Longrightarrow> kfree v s = Done (kfreed v s)"
  by (auto simp: kfree_def kfreed_def page_ok_def Let_def)

lemma kfree_bad: "v \<noteq> 0 \<Longrightarrow> \<not> page_ok v s \<Longrightarrow> kfree v s = Panic ''kfree''"
  by (auto simp: kfree_def page_ok_def del: mod_0_imp_dvd)

lemma page_ok_kfreed [simp]: "page_ok x (kfreed v s) = page_ok x s"
  by (simp add: page_ok_def kfreed_def)

lemma kfreed_list:
  assumes "free_list s xs" "page_ok v s" "v \<notin> set xs"
  shows "free_list (kfreed v s) (v # xs)"
proof -
  have v: "v mod PGSIZE = 0" using assms(2) by (simp add: page_ok_def)
  have "load32 (kmem_mem (kfreed v s)) x = load32 (kmem_mem s) x" if "x \<in> set xs" for x
    using that assms by (auto simp: kfreed_def free_list_def page_ok_def intro!: store_page del: mod_0_imp_dvd)
  then have "chain (kmem_mem (kfreed v s)) (freelist s) xs"
    using chain_cong [of xs "kmem_mem (kfreed v s)" "kmem_mem s" "freelist s"] assms(1)
    by (simp add: free_list_def)
  moreover have "load32 (kmem_mem (kfreed v s)) v = freelist s" by (simp add: kfreed_def)
  moreover have "freelist (kfreed v s) = v" by (simp add: kfreed_def)
  ultimately show ?thesis using assms by (simp add: free_list_def)
qed

lemma kalloc_Nil: "free_list s [] \<Longrightarrow> kalloc s = (0, s)"
  by (simp add: free_list_def kalloc_def)

lemma kalloc_Cons:
  "free_list s (x # xs) \<Longrightarrow> kalloc s = (x, s\<lparr>freelist := load32 (kmem_mem s) x\<rparr>) \<and> x \<noteq> 0 \<and>
   free_list (s\<lparr>freelist := load32 (kmem_mem s) x\<rparr>) xs"
  by (auto simp: free_list_def kalloc_def page_ok_def)

section \<open>The allocator contract\<close>

definition kalloc_opt :: "'a kmem_scheme \<Rightarrow> (u32 \<times> 'a kmem_scheme) option" where
  "kalloc_opt s = (case kalloc s of (r, t) \<Rightarrow> if r = 0 then None else Some (r, t))"

definition kmem_inv :: "'a kmem_scheme \<Rightarrow> bool" where
  "kmem_inv s \<longleftrightarrow> (\<exists>xs. free_list s xs)"

interpretation pages: allocator kmem_inv free_pages kalloc_opt kfreed page_ok
proof
  fix s t :: "'a kmem_scheme" and p
  assume "kmem_inv s"
  then obtain xs where xs: "free_list s xs" by (auto simp: kmem_inv_def)
  note f = free_pages_eq [OF xs]
  show "finite (free_pages s)" by (simp add: f)
  show "kalloc_opt s = None \<longleftrightarrow> free_pages s = {}"
    using xs f by (cases xs) (auto simp: kalloc_opt_def dest: kalloc_Nil kalloc_Cons)
  show "kmem_inv t \<and> p \<in> free_pages s \<and> free_pages t = free_pages s - {p} \<and> page_ok p t"
    if a: "kalloc_opt s = Some (p, t)"
  proof (cases xs)
    case Nil
    then show ?thesis using xs a by (auto simp: kalloc_opt_def dest: kalloc_Nil)
  next
    case (Cons x ys)
    then have k: "p = x" "free_list t ys" "t = s\<lparr>freelist := load32 (kmem_mem s) x\<rparr>"
      using kalloc_Cons [of s x ys] xs a by (auto simp: kalloc_opt_def)
    moreover have "x \<notin> set ys" "page_ok x s" using xs Cons by (auto simp: free_list_def)
    ultimately show ?thesis
      using f Cons free_pages_eq [OF k(2)] by (auto simp: kmem_inv_def page_ok_def)
  qed
  show "kmem_inv (kfreed p s) \<and> free_pages (kfreed p s) = insert p (free_pages s)"
    if "p \<notin> free_pages s" "page_ok p s"
    using kfreed_list [OF xs that(2)] that f free_pages_eq [of "kfreed p s" "p # xs"]
    by (auto simp: kmem_inv_def)
qed

section \<open>Freeing a range\<close>

definition page_run :: "u32 \<Rightarrow> nat \<Rightarrow> u32 list" where
  "page_run p n = map (\<lambda>i. p + of_nat (4096 * i)) [0..<n]"

lemma page_run_Suc: "page_run p (Suc n) = p # page_run (p + PGSIZE) n"
proof -
  have "page_run p (Suc n) = p # map (\<lambda>i. p + of_nat (4096 * Suc i)) [0..<n]"
    unfolding page_run_def by (subst upt_conv_Cons) (simp_all add: map_Suc_upt [symmetric] comp_def del: upt_Suc)
  then show ?thesis by (simp add: page_run_def PGSIZE_def add.assoc)
qed

lemma freerange_loop_pages:
  assumes "free_list s xs" "distinct (page_run p n @ xs)" "\<And>x. x \<in> set (page_run p n) \<Longrightarrow> page_ok x s"
    "unat p + 4096 * n \<le> unat vend" "unat vend < unat p + 4096 * n + 4096" "unat vend + 4096 < 2 ^ 32"
  shows "\<exists>t. freerange_loop p vend s = Done t \<and> free_list t (rev (page_run p n) @ xs) \<and> kend t = kend s"
  using assms
proof (induction n arbitrary: p s xs)
  case 0
  have "unat (p + PGSIZE) = unat p + 4096"
    using 0 unat_add_of_nat [of p 4096] by (simp add: PGSIZE_def)
  then have "\<not> p + PGSIZE \<le> vend" using 0 by (simp add: word_le_nat_alt)
  then show ?case using 0 by (simp add: freerange_loop.simps page_run_def)
next
  case (Suc n)
  have u: "unat (p + PGSIZE) = unat p + 4096"
    using Suc.prems unat_add_of_nat [of p 4096] by (simp add: PGSIZE_def)
  then have le: "p + PGSIZE \<le> vend" using Suc.prems by (simp add: word_le_nat_alt)
  have p: "page_ok p s" "p \<notin> set xs" using Suc.prems(2,3) by (auto simp: page_run_Suc)
  have "\<exists>t. freerange_loop (p + PGSIZE) vend (kfreed p s) = Done t \<and>
      free_list t (rev (page_run (p + PGSIZE) n) @ p # xs) \<and> kend t = kend (kfreed p s)"
    using Suc.prems u kfreed_list [OF Suc.prems(1) p]
    by (intro Suc.IH) (auto simp: page_run_Suc)
  moreover have "kend (kfreed p s) = kend s" by (simp add: kfreed_def)
  ultimately show ?case using le kfree_ok [OF p(1)] by (subst freerange_loop.simps) (auto simp: page_run_Suc)
qed

section \<open>Properties\<close>

text \<open>Three free pages above a small kernel.\<close>

definition demo_kmem :: kmem where
  "demo_kmem = \<lparr>kmem_mem = (\<lambda>_. 0), freelist = 0, use_lock = False, kend = 0x80105000\<rparr>"

lemma demo_kmem_empty: "free_list demo_kmem []"
  by (simp add: free_list_def demo_kmem_def)

lemma demo_kmem_pages:
  "page_ok 0x80105000 demo_kmem" "page_ok 0x80106000 demo_kmem" "page_ok 0x80107000 demo_kmem"
  by (simp_all add: page_ok_def demo_kmem_def PGSIZE_def PHYSTOP_def v2p_def KERNBASE_def)

text \<open>
  C15: \<open>kalloc\<close> never hands out a page twice. From a well-formed free list, \<open>n\<close> calls succeed if there
  are at least \<open>n\<close> free pages; the pages they return are distinct, were all free, are aligned, lie between the
  end of the kernel and the top of physical memory, and exactly they are no longer free.
\<close>

theorem kalloc_distinct:
  assumes "kmem_inv s" "n \<le> card (free_pages s)"
  shows "\<exists>ps t. pages.allocs n s = Some (ps, t) \<and> distinct ps \<and> length ps = n \<and> set ps \<subseteq> free_pages s \<and>
    free_pages t = free_pages s - set ps \<and> kmem_inv t \<and> (\<forall>p\<in>set ps. page_ok p s)"
proof -
  obtain ps t where a: "pages.allocs n s = Some (ps, t)" using pages.allocs_enough [OF assms] by blast
  note d = pages.allocs_distinct [OF assms(1) a]
  obtain xs where "free_list s xs" using assms(1) by (auto simp: kmem_inv_def)
  then have "\<forall>p\<in>free_pages s. page_ok p s" using free_pages_eq by (metis free_list_def)
  then show ?thesis using a d by blast
qed

theorem kalloc_distinct_witness:
  "\<exists>ps t. pages.allocs 2 (kfreed 0x80106000 (kfreed 0x80105000 demo_kmem)) = Some (ps, t) \<and> distinct ps \<and>
     set ps = {0x80105000, 0x80106000}"
proof -
  let ?s = "kfreed 0x80106000 (kfreed 0x80105000 demo_kmem)"
  have l: "free_list ?s [0x80106000, 0x80105000]"
    using demo_kmem_empty demo_kmem_pages by (intro kfreed_list) auto
  then have f: "free_pages ?s = {0x80106000, 0x80105000}" using free_pages_eq by fastforce
  have i: "kmem_inv ?s" using l unfolding kmem_inv_def by blast
  obtain ps t where a: "pages.allocs 2 ?s = Some (ps, t)" "distinct ps" "length ps = 2" "set ps \<subseteq> free_pages ?s"
    using kalloc_distinct [of ?s 2] i f by auto
  moreover have "card (set ps) = card (free_pages ?s)" using a distinct_card [of ps] f by simp
  ultimately have "set ps = free_pages ?s" using f by (intro card_subset_eq) simp_all
  then show ?thesis using a f by blast
qed

text \<open>
  \<open>kfree\<close> of a page that is not free makes exactly that page free again and changes no byte
  outside it; an address that is not page aligned, below the end of the kernel or above physical memory panics.
\<close>

theorem kfree_returns_page:
  assumes "kmem_inv s" "v \<notin> free_pages s" "v \<noteq> 0"
  shows "if page_ok v s
    then \<exists>t. kfree v s = Done t \<and> kmem_inv t \<and> free_pages t = insert v (free_pages s) \<and>
           (\<forall>a. unat (a - v) \<ge> 4096 \<longrightarrow> kmem_mem t a = kmem_mem s a)
    else kfree v s = Panic ''kfree''"
proof (cases "page_ok v s")
  case True
  have "kmem_mem (kfreed v s) a = kmem_mem s a" if "unat (a - v) \<ge> 4096" for a
    using that by (auto simp: kfreed_def store32_def memset_page)
  then show ?thesis using pages.dealloc [OF assms(1,2) True] kfree_ok [OF True] True by auto
next
  case False
  then show ?thesis using kfree_bad [OF assms(3)] by simp
qed

theorem kfree_returns_page_witness:
  "(\<exists>t. kfree 0x80105000 demo_kmem = Done t \<and> free_pages t = {0x80105000}) \<and>
   kfree 0x80105001 demo_kmem = Panic ''kfree''"
proof -
  have i: "kmem_inv demo_kmem" "free_pages demo_kmem = {}"
    using demo_kmem_empty free_pages_eq [OF demo_kmem_empty] by (auto simp: kmem_inv_def)
  have "\<not> page_ok 0x80105001 demo_kmem" by (simp add: page_ok_def PGSIZE_def)
  then show ?thesis
    using kfree_returns_page [of demo_kmem "0x80105000"] kfree_returns_page [of demo_kmem "0x80105001"]
      i demo_kmem_pages(1) by auto
qed

text \<open>
  \<open>freerange\<close> terminates and puts exactly the \<open>n\<close> whole pages between the rounded start and the
  end of the range on the free list.
\<close>

theorem freerange_frees:
  assumes "free_list s xs" "p = PGROUNDUP vstart" "distinct (page_run p n @ xs)" "\<forall>x\<in>set (page_run p n). page_ok x s"
    "unat p + 4096 * n \<le> unat vend" "unat vend < unat p + 4096 * n + 4096" "unat vend + 4096 < 2 ^ 32"
  shows "\<exists>t. freerange vstart vend s = Done t \<and> free_pages t = set (page_run p n) \<union> free_pages s"
proof -
  obtain t where "freerange_loop p vend s = Done t" "free_list t (rev (page_run p n) @ xs)"
    using freerange_loop_pages [OF assms(1,3)] assms(4-7) by blast
  then show ?thesis using free_pages_eq [OF assms(1)] free_pages_eq [of t] assms(2) by (auto simp: freerange_def)
qed

theorem freerange_frees_witness:
  "\<exists>t. freerange 0x80104001 0x80107000 demo_kmem = Done t \<and> free_pages t = {0x80105000, 0x80106000}"
proof -
  have "PGROUNDUP 0x80104001 = 0x80105000" by (simp add: PGROUNDUP_def PGSIZE_def)
  moreover have "page_run 0x80105000 2 = [0x80105000, 0x80106000]"
    by (simp add: page_run_def upt_conv_Cons)
  ultimately show ?thesis
    using freerange_frees [OF demo_kmem_empty, where p = "0x80105000" and vstart = "0x80104001" and n = 2 and vend = "0x80107000"] demo_kmem_pages
      free_pages_eq [OF demo_kmem_empty] by auto
qed

end
