(* ===== verification/Vm.thy ===== *)
theory Vm
  imports Kalloc
begin

text \<open>
  Page tables and user address spaces, \<open>kern/vm.c\<close>. Page directories and page tables lie in the memory
  that \<open>kalloc\<close> hands out and are read and written there, entry by entry. Memory is addressed as the
  kernel addresses it: the page at physical address \<open>pa\<close> is at \<open>p2v pa\<close>. \<open>kdata\<close> is the linker's symbol
  \<open>data\<close>. Loops over the pages of an address space count addresses in \<open>nat\<close>, since user addresses end
  below \<open>KERNBASE\<close>.
\<close>

section \<open>Operations\<close>

definition walkpgdir :: "u32 \<Rightarrow> u32 \<Rightarrow> bool \<Rightarrow> 'a kmem_scheme \<Rightarrow> u32 \<times> 'a kmem_scheme" where
  "walkpgdir pgdir va alloc s =
     (let pde = pgdir + 4 * PDX va; e = load32 (kmem_mem s) pde in
      if e AND PTE_P \<noteq> 0 then (p2v (PTE_ADDR e) + 4 * PTX va, s)
      else if \<not> alloc then (0, s)
      else case kalloc s of (pgtab, s) \<Rightarrow>
        if pgtab = 0 then (0, s)
        else
          let s = s\<lparr>kmem_mem := memset pgtab 0 PGSIZE (kmem_mem s)\<rparr>;
              s = s\<lparr>kmem_mem := store32 pde (v2p pgtab OR PTE_P OR PTE_W OR PTE_U) (kmem_mem s)\<rparr>
          in (pgtab + 4 * PTX va, s))"

text \<open>\<open>k\<close> is the number of pages after the one at \<open>a\<close>.\<close>

primrec mappages_loop :: "nat \<Rightarrow> u32 \<Rightarrow> u32 \<Rightarrow> u32 \<Rightarrow> u32 \<Rightarrow> 'a kmem_scheme \<Rightarrow> (int \<times> 'a kmem_scheme) outcome" where
  "mappages_loop 0 pgdir a pa perm s =
     (case walkpgdir pgdir a True s of (pte, s) \<Rightarrow>
        if pte = 0 then Done (-1, s)
        else if load32 (kmem_mem s) pte AND PTE_P \<noteq> 0 then Panic ''remap''
        else Done (0, s\<lparr>kmem_mem := store32 pte (pa OR perm OR PTE_P) (kmem_mem s)\<rparr>))"
| "mappages_loop (Suc k) pgdir a pa perm s =
     (case walkpgdir pgdir a True s of (pte, s) \<Rightarrow>
        if pte = 0 then Done (-1, s)
        else if load32 (kmem_mem s) pte AND PTE_P \<noteq> 0 then Panic ''remap''
        else mappages_loop k pgdir (a + PGSIZE) (pa + PGSIZE) perm
               (s\<lparr>kmem_mem := store32 pte (pa OR perm OR PTE_P) (kmem_mem s)\<rparr>))"

definition mappages :: "u32 \<Rightarrow> u32 \<Rightarrow> u32 \<Rightarrow> u32 \<Rightarrow> u32 \<Rightarrow> 'a kmem_scheme \<Rightarrow> (int \<times> 'a kmem_scheme) outcome" where
  "mappages pgdir va sz pa perm s =
     (let a = PGROUNDDOWN va; last = PGROUNDDOWN (va + sz - 1)
      in mappages_loop (unat (last - a) div 4096) pgdir a pa perm s)"

record kmap_entry =
  km_virt :: u32
  phys_start :: u32
  phys_end :: u32
  km_perm :: u32

definition kmap :: "u32 \<Rightarrow> kmap_entry list" where
  "kmap kdata =
     [\<lparr>km_virt = KERNBASE, phys_start = 0, phys_end = EXTMEM, km_perm = PTE_W\<rparr>,
      \<lparr>km_virt = KERNLINK, phys_start = v2p KERNLINK, phys_end = v2p kdata, km_perm = 0\<rparr>,
      \<lparr>km_virt = kdata, phys_start = v2p kdata, phys_end = PHYSTOP, km_perm = PTE_W\<rparr>,
      \<lparr>km_virt = DEVSPACE, phys_start = DEVSPACE, phys_end = 0, km_perm = PTE_W\<rparr>]"

primrec setupkvm_loop :: "kmap_entry list \<Rightarrow> u32 \<Rightarrow> 'a kmem_scheme \<Rightarrow> (u32 \<times> 'a kmem_scheme) outcome" where
  "setupkvm_loop [] pgdir s = Done (pgdir, s)"
| "setupkvm_loop (k # ks) pgdir s =
     obind (mappages pgdir (km_virt k) (phys_end k - phys_start k) (phys_start k) (km_perm k) s) (\<lambda>(r, s).
       if r < 0 then Done (0, s) else setupkvm_loop ks pgdir s)"

definition setupkvm :: "u32 \<Rightarrow> 'a kmem_scheme \<Rightarrow> (u32 \<times> 'a kmem_scheme) outcome" where
  "setupkvm kdata s =
     (case kalloc s of (pgdir, s) \<Rightarrow>
        if pgdir = 0 then Done (0, s)
        else
          let s = s\<lparr>kmem_mem := memset pgdir 0 PGSIZE (kmem_mem s)\<rparr> in
          if p2v PHYSTOP > DEVSPACE then Panic ''PHYSTOP too high''
          else setupkvm_loop (kmap kdata) pgdir s)"

text \<open>\<open>store_bytes\<close>: the \<open>memmove\<close> of bytes that do not lie in the managed memory.\<close>

primrec store_bytes :: "u32 \<Rightarrow> bytes \<Rightarrow> mem \<Rightarrow> mem" where
  "store_bytes a [] m = m"
| "store_bytes a (b # bs) m = store_bytes (a + 1) bs (m(a := b))"

definition inituvm :: "u32 \<Rightarrow> bytes \<Rightarrow> 'a kmem_scheme \<Rightarrow> 'a kmem_scheme outcome" where
  "inituvm pgdir code s =
     (if length code \<ge> unat PGSIZE then Panic ''inituvm: more than a page''
      else case kalloc s of (m, s) \<Rightarrow>
        let s = s\<lparr>kmem_mem := memset m 0 PGSIZE (kmem_mem s)\<rparr> in
        obind (mappages pgdir 0 PGSIZE (v2p m) (PTE_W OR PTE_U) s) (\<lambda>(_, s).
        Done (s\<lparr>kmem_mem := store_bytes m code (kmem_mem s)\<rparr>)))"

function deallocuvm_loop :: "u32 \<Rightarrow> nat \<Rightarrow> nat \<Rightarrow> 'a kmem_scheme \<Rightarrow> 'a kmem_scheme outcome" where
  "deallocuvm_loop pgdir a oldsz s =
     (if a < oldsz
      then case walkpgdir pgdir (of_nat a) False s of (pte, s) \<Rightarrow>
        if pte = 0 then deallocuvm_loop pgdir (a + (NPTENTRIES - 1) * 4096 + 4096) oldsz s
        else
          let e = load32 (kmem_mem s) pte in
          if e AND PTE_P \<noteq> 0
          then
            if PTE_ADDR e = 0 then Panic ''kfree''
            else
              obind (kfree (p2v (PTE_ADDR e)) s) (\<lambda>s.
              deallocuvm_loop pgdir (a + 4096) oldsz (s\<lparr>kmem_mem := store32 pte 0 (kmem_mem s)\<rparr>))
          else deallocuvm_loop pgdir (a + 4096) oldsz s
      else Done s)"
  by auto
termination
  by (relation "measure (\<lambda>(_, a, oldsz, _). oldsz - a)") auto

definition deallocuvm :: "u32 \<Rightarrow> u32 \<Rightarrow> u32 \<Rightarrow> 'a kmem_scheme \<Rightarrow> (u32 \<times> 'a kmem_scheme) outcome" where
  "deallocuvm pgdir oldsz newsz s =
     (if newsz \<ge> oldsz then Done (oldsz, s)
      else obind (deallocuvm_loop pgdir (unat (PGROUNDUP newsz)) (unat oldsz) s) (\<lambda>s. Done (newsz, s)))"

function allocuvm_loop :: "u32 \<Rightarrow> nat \<Rightarrow> u32 \<Rightarrow> u32 \<Rightarrow> 'a kmem_scheme \<Rightarrow> (u32 \<times> 'a kmem_scheme) outcome" where
  "allocuvm_loop pgdir a oldsz newsz s =
     (if a < unat newsz
      then case kalloc s of (m, s) \<Rightarrow>
        if m = 0 then obind (deallocuvm pgdir newsz oldsz s) (\<lambda>(_, s). Done (0, s))
        else
          let s = s\<lparr>kmem_mem := memset m 0 PGSIZE (kmem_mem s)\<rparr> in
          obind (mappages pgdir (of_nat a) PGSIZE (v2p m) (PTE_W OR PTE_U) s) (\<lambda>(_, s).
          allocuvm_loop pgdir (a + 4096) oldsz newsz s)
      else Done (newsz, s))"
  by auto
termination
  by (relation "measure (\<lambda>(_, a, _, newsz, _). unat newsz - a)") auto

definition allocuvm :: "u32 \<Rightarrow> u32 \<Rightarrow> u32 \<Rightarrow> 'a kmem_scheme \<Rightarrow> (u32 \<times> 'a kmem_scheme) outcome" where
  "allocuvm pgdir oldsz newsz s =
     (if newsz \<ge> KERNBASE then Done (0, s)
      else if newsz < oldsz then Done (oldsz, s)
      else allocuvm_loop pgdir (unat (PGROUNDUP oldsz)) oldsz newsz s)"

primrec freevm_loop :: "nat list \<Rightarrow> u32 \<Rightarrow> 'a kmem_scheme \<Rightarrow> 'a kmem_scheme outcome" where
  "freevm_loop [] pgdir s = Done s"
| "freevm_loop (i # is) pgdir s =
     (let e = load32 (kmem_mem s) (pgdir + 4 * of_nat i) in
      if e AND PTE_P \<noteq> 0 then obind (kfree (p2v (PTE_ADDR e)) s) (\<lambda>s. freevm_loop is pgdir s)
      else freevm_loop is pgdir s)"

definition freevm :: "u32 \<Rightarrow> 'a kmem_scheme \<Rightarrow> 'a kmem_scheme outcome" where
  "freevm pgdir s =
     (if pgdir = 0 then Panic ''freevm: no pgdir''
      else
        obind (deallocuvm pgdir KERNBASE 0 s) (\<lambda>(_, s).
        obind (freevm_loop [0..<NPDENTRIES] pgdir s) (\<lambda>s.
        kfree pgdir s)))"

definition clearpteu :: "u32 \<Rightarrow> u32 \<Rightarrow> 'a kmem_scheme \<Rightarrow> 'a kmem_scheme outcome" where
  "clearpteu pgdir uva s =
     (case walkpgdir pgdir uva False s of (pte, s) \<Rightarrow>
        if pte = 0 then Panic ''clearpteu''
        else Done (s\<lparr>kmem_mem := store32 pte (load32 (kmem_mem s) pte AND NOT PTE_U) (kmem_mem s)\<rparr>))"

text \<open>The label \<open>bad\<close> of \<open>copyuvm\<close>.\<close>

definition copyuvm_bad :: "u32 \<Rightarrow> 'a kmem_scheme \<Rightarrow> (u32 \<times> 'a kmem_scheme) outcome" where
  "copyuvm_bad d s = obind (freevm d s) (\<lambda>s. Done (0, s))"

function copyuvm_loop :: "u32 \<Rightarrow> u32 \<Rightarrow> nat \<Rightarrow> nat \<Rightarrow> 'a kmem_scheme \<Rightarrow> (u32 \<times> 'a kmem_scheme) outcome" where
  "copyuvm_loop pgdir d i sz s =
     (if i < sz
      then case walkpgdir pgdir (of_nat i) False s of (pte, s) \<Rightarrow>
        if pte = 0 then Panic ''copyuvm: pte should exist''
        else
          let e = load32 (kmem_mem s) pte in
          if e AND PTE_P = 0 then Panic ''copyuvm: page not present''
          else case kalloc s of (m, s) \<Rightarrow>
            if m = 0 then copyuvm_bad d s
            else
              let s = s\<lparr>kmem_mem := memmove m (p2v (PTE_ADDR e)) PGSIZE (kmem_mem s)\<rparr> in
              obind (mappages d (of_nat i) PGSIZE (v2p m) (PTE_FLAGS e) s) (\<lambda>(r, s).
                if r < 0 then copyuvm_bad d s else copyuvm_loop pgdir d (i + 4096) sz s)
      else Done (d, s))"
  by auto
termination
  by (relation "measure (\<lambda>(_, _, i, sz, _). sz - i)") auto

definition copyuvm :: "u32 \<Rightarrow> u32 \<Rightarrow> u32 \<Rightarrow> 'a kmem_scheme \<Rightarrow> (u32 \<times> 'a kmem_scheme) outcome" where
  "copyuvm kdata pgdir sz s =
     obind (setupkvm kdata s) (\<lambda>(d, s).
       if d = 0 then Done (0, s) else copyuvm_loop pgdir d 0 (unat sz) s)"

text \<open>\<open>uva2ka\<close> does not check for a missing page table: it reads through the null pointer then.\<close>

definition uva2ka :: "u32 \<Rightarrow> u32 \<Rightarrow> 'a kmem_scheme \<Rightarrow> u32" where
  "uva2ka pgdir uva s =
     (let pte = fst (walkpgdir pgdir uva False s); e = load32 (kmem_mem s) pte in
      if e AND PTE_P = 0 then 0 else if e AND PTE_U = 0 then 0 else p2v (PTE_ADDR e))"

lemma page_offset: "unat (va - PGROUNDDOWN va) = unat va mod 4096"
  by (simp add: unat_sub [OF PGROUNDDOWN_le] unat_PGROUNDDOWN minus_div_mult_eq_mod)

text \<open>\<open>copyout\<close>: the bytes of the kernel buffer that are still to be copied are the list.\<close>

function copyout :: "u32 \<Rightarrow> u32 \<Rightarrow> bytes \<Rightarrow> 'a kmem_scheme \<Rightarrow> int \<times> 'a kmem_scheme" where
  "copyout pgdir va buf s =
     (if buf = [] then (0, s)
      else
        let va0 = PGROUNDDOWN va; pa0 = uva2ka pgdir va0 s in
        if pa0 = 0 then (-1, s)
        else
          let n = min (4096 - unat (va - va0)) (length buf);
              s = s\<lparr>kmem_mem := store_bytes (pa0 + (va - va0)) (take n buf) (kmem_mem s)\<rparr>
          in copyout pgdir (va0 + PGSIZE) (drop n buf) s)"
  by auto
termination
  by (relation "measure (\<lambda>(_, _, buf, _). length buf)")
    (auto simp: page_offset min_def split: if_splits)

declare deallocuvm_loop.simps [simp del] allocuvm_loop.simps [simp del] copyuvm_loop.simps [simp del] copyout.simps [simp del]

end
