(* ===== verification/Ring_Queue.thy ===== *)
theory Ring_Queue
  imports Xv6_Prelude
begin

text \<open>
  Circular buffers indexed by free-running 32-bit counters, as in \<open>kern/pipe.c\<close> and \<open>kern/console.c\<close>: the
  counters are never reduced, an element lies at the counter modulo the size of the buffer, and the
  difference of the counters, which may have wrapped, is the number of elements. The contract of a
  bounded queue is a locale that both components interpret.
\<close>

section \<open>Bounded queues\<close>

locale bounded_queue =
  fixes qinv :: "'s \<Rightarrow> bool" and items :: "'s \<Rightarrow> 'x list" and cap :: nat
    and put :: "'x \<Rightarrow> 's \<Rightarrow> 's" and get :: "'s \<Rightarrow> 'x \<times> 's"
  assumes items_bound: "qinv s \<Longrightarrow> length (items s) \<le> cap"
    and put_items: "qinv s \<Longrightarrow> length (items s) < cap \<Longrightarrow> qinv (put x s) \<and> items (put x s) = items s @ [x]"
    and get_items: "qinv s \<Longrightarrow> items s = x # xs \<Longrightarrow> fst (get s) = x \<and> qinv (snd (get s)) \<and> items (snd (get s)) = xs"
begin

lemma puts_items:
  assumes "qinv s" "length (items s) + length xs \<le> cap"
  shows "qinv (fold put xs s) \<and> items (fold put xs s) = items s @ xs"
  using assms
proof (induction xs arbitrary: s)
  case (Cons x xs)
  then show ?case using put_items [of s x] Cons.IH [of "put x s"] by simp
qed simp

fun gets :: "nat \<Rightarrow> 's \<Rightarrow> 'x list \<times> 's" where
  "gets 0 s = ([], s)"
| "gets (Suc n) s = (let (x, t) = get s; (xs, u) = gets n t in (x # xs, u))"

lemma gets_items:
  assumes "qinv s" "n \<le> length (items s)"
  shows "fst (gets n s) = take n (items s) \<and> qinv (snd (gets n s)) \<and> items (snd (gets n s)) = drop n (items s)"
  using assms
proof (induction n arbitrary: s)
  case (Suc n)
  then obtain x xs where s: "items s = x # xs" by (cases "items s") auto
  note g = get_items [OF Suc.prems(1) s]
  then show ?case using Suc.IH [of "snd (get s)"] Suc.prems s by (simp add: split_beta Let_def)
qed simp

text \<open>What goes in comes out, in order.\<close>

lemma gets_puts:
  assumes "qinv s" "length (items s) + length xs \<le> cap"
  shows "fst (gets (length (items s) + length xs) (fold put xs s)) = items s @ xs"
  using puts_items [OF assms] gets_items [of "fold put xs s" "length (items s) + length xs"] by simp

end

section \<open>Circular buffers\<close>

definition ring_items :: "nat \<Rightarrow> (nat \<Rightarrow> 'x) \<Rightarrow> u32 \<Rightarrow> u32 \<Rightarrow> 'x list" where
  "ring_items N d r w = map (\<lambda>i. d (unat (r + of_nat i) mod N)) [0..<unat (w - r)]"

lemma length_ring_items [simp]: "length (ring_items N d r w) = unat (w - r)"
  by (simp add: ring_items_def)

lemma unat_add_mod:
  assumes "N dvd 2 ^ 32"
  shows "unat (r + of_nat i :: u32) mod N = (unat r + i) mod N"
proof -
  have "unat (r + of_nat i) = (unat r + i) mod 2 ^ 32"
    by (simp add: unat_word_ariths unat_of_nat mod_add_right_eq)
  then show ?thesis using assms by (simp add: mod_mod_cancel)
qed

lemma ring_put:
  assumes N: "N dvd 2 ^ 32" "N < 2 ^ 32" and room: "unat (w - r) < N"
  shows "unat (w + 1 - r) = unat (w - r) + 1"
    "ring_items N (d(unat w mod N := x)) r (w + 1) = ring_items N d r w @ [x]"
proof -
  let ?n = "unat (w - r)"
  have "w + 1 - r = (w - r) + of_nat 1" by simp
  then show n: "unat (w + 1 - r) = ?n + 1"
    using unat_add_of_nat [of "w - r" 1] room N(2) by (simp only:)
  have w: "w = r + of_nat ?n" by simp
  have wi: "unat w mod N = (unat r + ?n) mod N" by (subst w) (rule unat_add_mod [OF N(1)])
  have "unat (r + of_nat i) mod N \<noteq> unat w mod N" if "i < ?n" for i
  proof
    assume "unat (r + of_nat i) mod N = unat w mod N"
    then have "(unat r + ?n) mod N = (unat r + i) mod N" by (simp only: wi unat_add_mod [OF N(1)])
    then have "N dvd (unat r + ?n) - (unat r + i)" using that by (simp add: mod_eq_dvd_iff_nat)
    then show False using that room by (auto dest: dvd_imp_le)
  qed
  moreover have "[0..<unat (w + 1 - r)] = [0..<?n] @ [?n]" unfolding n by simp
  ultimately show "ring_items N (d(unat w mod N := x)) r (w + 1) = ring_items N d r w @ [x]"
    by (simp add: ring_items_def)
qed

lemma ring_get:
  assumes "r \<noteq> w"
  shows "ring_items N d r w = d (unat r mod N) # ring_items N d (r + 1) w"
proof -
  have "w - r \<noteq> 0" using assms by simp
  then have u: "unat (w - r) = Suc (unat (w - r - 1))" "w - (r + 1) = w - r - 1"
    using unat_minus_one [of "w - r"] unat_gt_0 [of "w - r"] by (simp_all add: algebra_simps)
  have "ring_items N d r w = d (unat r mod N) # map (\<lambda>i. d (unat (r + of_nat (Suc i)) mod N)) [0..<unat (w - r - 1)]"
    unfolding ring_items_def u(1) by (subst upt_conv_Cons) (simp_all add: map_Suc_upt [symmetric] comp_def del: upt_Suc)
  then show ?thesis by (simp add: ring_items_def u(2) add.assoc)
qed

lemma ring_empty [simp]: "ring_items N d r r = []"
  by (simp add: ring_items_def)

lemma ring_snoc:
  assumes "e \<noteq> w"
  shows "ring_items N d w e = ring_items N d w (e - 1) @ [d (unat (e - 1) mod N)]"
proof -
  have "e - w \<noteq> 0" using assms by simp
  then have "unat (e - w) = Suc (unat (e - w - 1))"
    using unat_minus_one [of "e - w"] unat_gt_0 [of "e - w"] by simp
  moreover have "e - w - 1 = e - 1 - w" "w + of_nat (unat (e - w - 1)) = e - 1" by (simp_all add: algebra_simps)
  ultimately show ?thesis by (simp add: ring_items_def)
qed

lemma ring_split:
  assumes "unat (w - r) \<le> unat (e - r)"
  shows "ring_items N d r e = ring_items N d r w @ ring_items N d w e"
    "unat (e - w) = unat (e - r) - unat (w - r)"
proof -
  have "e - w = (e - r) - (w - r)" by simp
  moreover have "unat ((e - r) - (w - r)) = unat (e - r) - unat (w - r)"
    using assms by (intro unat_sub) (simp add: word_le_nat_alt)
  ultimately show n: "unat (e - w) = unat (e - r) - unat (w - r)" by simp
  let ?a = "unat (w - r)" and ?b = "unat (e - w)"
  have "unat (e - r) = ?a + ?b" using n assms by simp
  then have "[0..<unat (e - r)] = [0..<?a] @ [?a..<?a + ?b]" using upt_add_eq_append [of 0 ?a ?b] by simp
  moreover have "[?a..<?a + ?b] = map (\<lambda>i. i + ?a) [0..<?b]" using map_add_upt [of ?a ?b] by (simp add: add.commute)
  ultimately have "[0..<unat (e - r)] = [0..<?a] @ map (\<lambda>i. ?a + i) [0..<?b]" by (simp add: add.commute)
  moreover have "r + of_nat (?a + i) = w + of_nat i" for i by simp
  ultimately show "ring_items N d r e = ring_items N d r w @ ring_items N d w e"
    by (simp add: ring_items_def comp_def)
qed

end
