(* ===== verification/Pipe.thy ===== *)
theory Pipe
  imports Ring_Queue
begin

text \<open>
  Pipes, \<open>kern/pipe.c\<close>: reading, writing and closing. A call that has to wait stops with a result that
  says so; \<open>pipewrite_loop\<close> continues it with the number of bytes already stored. Allocation of a pipe
  together with its two files is in the theory of open files.
\<close>

section \<open>State and operations\<close>

record pipe =
  pi_data :: "nat \<Rightarrow> u8"
  nread :: u32
  nwrite :: u32
  readopen :: bool
  writeopen :: bool

text \<open>The channels a process sleeps on: the addresses of \<open>p->nread\<close> and \<open>p->nwrite\<close>.\<close>

datatype pipe_chan = At_nread | At_nwrite

definition EPIPE :: int where "EPIPE = -32"

definition pipe_put :: "u8 \<Rightarrow> pipe \<Rightarrow> pipe" where
  "pipe_put c p = p\<lparr>pi_data := (pi_data p)(unat (nwrite p) mod PIPESIZE := c), nwrite := nwrite p + 1\<rparr>"

definition pipe_get :: "pipe \<Rightarrow> u8 \<times> pipe" where
  "pipe_get p = (pi_data p (unat (nread p) mod PIPESIZE), p\<lparr>nread := nread p + 1\<rparr>)"

text \<open>
  Results carry the wakeups the call has done. \<open>PW_Sleep i\<close>: asleep on \<open>p->nwrite\<close> after \<open>i\<close> bytes.
\<close>

datatype pipe_write = PW_Return int pipe "pipe_chan list" | PW_Sleep nat pipe "pipe_chan list"
datatype pipe_read = PR_Return int bytes pipe "pipe_chan list" | PR_Sleep pipe

primrec pipewrite_loop :: "bool \<Rightarrow> (nat \<Rightarrow> u8) \<Rightarrow> int \<Rightarrow> nat \<Rightarrow> nat \<Rightarrow> pipe \<Rightarrow> pipe_write" where
  "pipewrite_loop killed addr n 0 i p = PW_Return n p [At_nread]"
| "pipewrite_loop killed addr n (Suc k) i p =
     (if nwrite p = nread p + of_nat PIPESIZE
      then if \<not> readopen p \<or> killed then PW_Return (-1) p [] else PW_Sleep i p [At_nread]
      else pipewrite_loop killed addr n k (Suc i) (pipe_put (addr i) p))"

definition pipewrite :: "bool \<Rightarrow> (nat \<Rightarrow> u8) \<Rightarrow> int \<Rightarrow> pipe \<Rightarrow> pipe_write" where
  "pipewrite killed addr n p = pipewrite_loop killed addr n (nat n) 0 p"

primrec piperead_loop :: "nat \<Rightarrow> pipe \<Rightarrow> bytes \<times> pipe" where
  "piperead_loop 0 p = ([], p)"
| "piperead_loop (Suc k) p =
     (if nread p = nwrite p then ([], p)
      else case pipe_get p of (c, p) \<Rightarrow> case piperead_loop k p of (cs, p) \<Rightarrow> (c # cs, p))"

definition piperead :: "bool \<Rightarrow> int \<Rightarrow> pipe \<Rightarrow> pipe_read" where
  "piperead killed n p =
     (if nread p = nwrite p \<and> writeopen p
      then if killed then PR_Return EPIPE [] p [] else PR_Sleep p
      else case piperead_loop (nat n) p of (cs, p) \<Rightarrow> PR_Return (int (length cs)) cs p [At_nwrite])"

text \<open>\<open>pipeclose\<close> returns the wakeup it does and whether the pipe's page is freed.\<close>

definition pipeclose :: "bool \<Rightarrow> pipe \<Rightarrow> pipe \<times> pipe_chan \<times> bool" where
  "pipeclose writable p =
     (let (p, w) = (if writable then (p\<lparr>writeopen := False\<rparr>, At_nread) else (p\<lparr>readopen := False\<rparr>, At_nwrite))
      in (p, w, \<not> readopen p \<and> \<not> writeopen p))"

section \<open>A pipe is a bounded queue\<close>

definition pipe_items :: "pipe \<Rightarrow> bytes" where
  "pipe_items p = ring_items PIPESIZE (pi_data p) (nread p) (nwrite p)"

definition pipe_inv :: "pipe \<Rightarrow> bool" where
  "pipe_inv p \<longleftrightarrow> unat (nwrite p - nread p) \<le> PIPESIZE"

lemma pipesize: "PIPESIZE dvd 2 ^ 32" "PIPESIZE < 2 ^ 32" "0 < PIPESIZE"
  by (simp_all add: PIPESIZE_def)

interpretation pq: bounded_queue pipe_inv pipe_items PIPESIZE pipe_put pipe_get
proof
  fix p :: pipe and c :: u8 and cs
  assume i: "pipe_inv p"
  then show "length (pipe_items p) \<le> PIPESIZE" by (simp add: pipe_items_def pipe_inv_def)
  show "pipe_inv (pipe_put c p) \<and> pipe_items (pipe_put c p) = pipe_items p @ [c]"
    if "length (pipe_items p) < PIPESIZE"
    using that ring_put [OF pipesize(1,2), where w = "nwrite p" and r = "nread p"]
    by (simp add: pipe_items_def pipe_inv_def pipe_put_def)
  show "fst (pipe_get p) = c \<and> pipe_inv (snd (pipe_get p)) \<and> pipe_items (snd (pipe_get p)) = cs"
    if q: "pipe_items p = c # cs"
  proof -
    have ne: "nread p \<noteq> nwrite p" using q by (auto simp: pipe_items_def)
    have e: "pipe_items p = pi_data p (unat (nread p) mod PIPESIZE) # pipe_items (snd (pipe_get p))"
      using ring_get [OF ne] by (simp add: pipe_items_def pipe_get_def)
    then have "length (pipe_items p) = Suc (length (pipe_items (snd (pipe_get p))))" by (metis length_Cons)
    then have "length (pipe_items (snd (pipe_get p))) < PIPESIZE"
      using i unfolding pipe_inv_def pipe_items_def length_ring_items by linarith
    then show ?thesis using e q by (simp add: pipe_get_def pipe_inv_def pipe_items_def)
  qed
qed

lemma pipe_full:
  assumes "pipe_inv p"
  shows "nwrite p = nread p + of_nat PIPESIZE \<longleftrightarrow> length (pipe_items p) = PIPESIZE"
proof -
  have "nwrite p = nread p + of_nat PIPESIZE \<longleftrightarrow> nwrite p - nread p = of_nat PIPESIZE"
    by (auto simp: algebra_simps)
  also have "\<dots> \<longleftrightarrow> unat (nwrite p - nread p) = PIPESIZE"
    by (simp add: word_unat_eq_iff PIPESIZE_def)
  finally show ?thesis by (simp add: pipe_items_def)
qed

lemma pipe_empty: "nread p = nwrite p \<longleftrightarrow> pipe_items p = []"
  using ring_get [of "nread p" "nwrite p" PIPESIZE "pi_data p"]
  by (cases "nread p = nwrite p") (auto simp: pipe_items_def)

lemma pipe_put_ends [simp]: "readopen (pipe_put c p) = readopen p" "writeopen (pipe_put c p) = writeopen p"
  by (simp_all add: pipe_put_def)

text \<open>How many of \<open>k\<close> more bytes fit.\<close>

definition pipe_room :: "nat \<Rightarrow> pipe \<Rightarrow> nat" where
  "pipe_room k p = min k (PIPESIZE - length (pipe_items p))"

lemma pipewrite_loop_items:
  assumes "pipe_inv p"
  shows "\<exists>q. pipe_inv q \<and> pipe_items q = pipe_items p @ map addr [i..<i + pipe_room k p] \<and>
    readopen q = readopen p \<and> writeopen q = writeopen p \<and>
    pipewrite_loop killed addr n k i p =
      (if k \<le> PIPESIZE - length (pipe_items p) then PW_Return n q [At_nread]
       else if \<not> readopen p \<or> killed then PW_Return (-1) q []
       else PW_Sleep (i + pipe_room k p) q [At_nread])"
  using assms
proof (induction k arbitrary: i p)
  case 0
  then show ?case by (simp add: pipe_room_def)
next
  case (Suc k)
  show ?case
  proof (cases "length (pipe_items p) = PIPESIZE")
    case True
    then show ?thesis using Suc.prems pipe_full [OF Suc.prems] by (intro exI [of _ p]) (simp add: pipe_room_def)
  next
    case False
    then have lt: "length (pipe_items p) < PIPESIZE" using pq.items_bound [OF Suc.prems] by simp
    note pt = pq.put_items [OF Suc.prems lt, of "addr i"]
    have r: "pipe_room (Suc k) p = Suc (pipe_room k (pipe_put (addr i) p))"
      using pt lt by (simp add: pipe_room_def)
    have "[i..<i + pipe_room (Suc k) p] = i # [Suc i..<Suc i + pipe_room k (pipe_put (addr i) p)]"
      unfolding r by (simp add: upt_conv_Cons)
    moreover obtain q where "pipe_inv q"
      "pipe_items q = pipe_items (pipe_put (addr i) p) @ map addr [Suc i..<Suc i + pipe_room k (pipe_put (addr i) p)]"
      "readopen q = readopen p" "writeopen q = writeopen p"
      "pipewrite_loop killed addr n k (Suc i) (pipe_put (addr i) p) =
        (if k \<le> PIPESIZE - length (pipe_items (pipe_put (addr i) p)) then PW_Return n q [At_nread]
         else if \<not> readopen p \<or> killed then PW_Return (-1) q []
         else PW_Sleep (Suc i + pipe_room k (pipe_put (addr i) p)) q [At_nread])"
      using Suc.IH [of "pipe_put (addr i) p" "Suc i"] pt by auto
    ultimately show ?thesis using pt lt False pipe_full [OF Suc.prems] r by (intro exI [of _ q]) auto
  qed
qed

lemma piperead_loop_items:
  assumes "pipe_inv p"
  shows "fst (piperead_loop k p) = take k (pipe_items p) \<and> pipe_inv (snd (piperead_loop k p)) \<and>
    pipe_items (snd (piperead_loop k p)) = drop k (pipe_items p)"
  using assms
proof (induction k arbitrary: p)
  case (Suc k)
  show ?case
  proof (cases "pipe_items p")
    case Nil
    then show ?thesis using Suc.prems pipe_empty [of p] by simp
  next
    case (Cons c cs)
    note g = pq.get_items [OF Suc.prems Cons]
    then show ?thesis using Suc.IH [of "snd (pipe_get p)"] Cons pipe_empty [of p] by (simp add: split_beta)
  qed
qed simp

section \<open>Readers and writers\<close>

text \<open>
  Any number of processes use the pipe. A step is what one of them does between taking the lock of
  the pipe and giving it up: a stretch of a write, from byte \<open>i\<close> of a buffer until it returns or goes
  to sleep, or a read, or closing an end. The history of all bytes stored and of all bytes handed to
  readers is kept beside the pipe.
\<close>

record pipe_sys =
  sys_pipe :: pipe
  stored :: bytes
  fetched :: bytes

inductive pipe_step :: "pipe_sys \<Rightarrow> pipe_sys \<Rightarrow> bool" where
  write_return:
    "pipewrite_loop killed addr n k i (sys_pipe s) = PW_Return v q ws \<Longrightarrow>
     pipe_step s \<lparr>sys_pipe = q, stored = stored s @ map addr [i..<i + pipe_room k (sys_pipe s)], fetched = fetched s\<rparr>"
| write_sleep:
    "pipewrite_loop killed addr n k i (sys_pipe s) = PW_Sleep j q ws \<Longrightarrow>
     pipe_step s \<lparr>sys_pipe = q, stored = stored s @ map addr [i..<j], fetched = fetched s\<rparr>"
| read:
    "piperead killed n (sys_pipe s) = PR_Return v cs q ws \<Longrightarrow>
     pipe_step s \<lparr>sys_pipe = q, stored = stored s, fetched = fetched s @ cs\<rparr>"
| close:
    "pipeclose writable (sys_pipe s) = (q, w, f) \<Longrightarrow> pipe_step s (s\<lparr>sys_pipe := q\<rparr>)"

definition pipe_new :: "pipe \<Rightarrow> pipe" where
  "pipe_new p = p\<lparr>readopen := True, writeopen := True, nwrite := 0, nread := 0\<rparr>"

inductive pipe_reach :: "pipe_sys \<Rightarrow> bool" where
  init: "pipe_reach \<lparr>sys_pipe = pipe_new p, stored = [], fetched = []\<rparr>"
| step: "pipe_reach s \<Longrightarrow> pipe_step s t \<Longrightarrow> pipe_reach t"

definition fifo :: "pipe_sys \<Rightarrow> bool" where
  "fifo s \<longleftrightarrow> pipe_inv (sys_pipe s) \<and> stored s = fetched s @ pipe_items (sys_pipe s)"

lemma pipe_new_empty: "pipe_inv (pipe_new p)" "pipe_items (pipe_new p) = []"
  by (simp_all add: pipe_new_def pipe_inv_def pipe_items_def)

lemma fifo_step: "pipe_step s t \<Longrightarrow> fifo s \<Longrightarrow> fifo t"
proof (induction rule: pipe_step.induct)
  case (write_return killed addr n k i s v q ws)
  then show ?case
    using pipewrite_loop_items [of "sys_pipe s" addr i k killed n] by (auto simp: fifo_def split: if_splits)
next
  case (write_sleep killed addr n k i s j q ws)
  then show ?case
    using pipewrite_loop_items [of "sys_pipe s" addr i k killed n] by (auto simp: fifo_def split: if_splits)
next
  case (read killed n s v cs q ws)
  then show ?case
    using piperead_loop_items [of "sys_pipe s" "nat n"]
    by (auto simp: fifo_def piperead_def split: if_splits prod.splits)
next
  case (close writable s q w f)
  then show ?case
    by (auto simp: fifo_def pipeclose_def pipe_inv_def pipe_items_def Let_def split: if_splits prod.splits)
qed

lemma pipe_reach_fifo: "pipe_reach s \<Longrightarrow> fifo s"
proof (induction rule: pipe_reach.induct)
  case (init p)
  then show ?case by (simp add: fifo_def pipe_new_empty)
qed (rule fifo_step)

section \<open>Properties\<close>

definition demo_pipe :: pipe where
  "demo_pipe = \<lparr>pi_data = (\<lambda>_. 0), nread = 0, nwrite = 0, readopen = True, writeopen = True\<rparr>"

text \<open>
  C12: a pipe is a queue of bytes. Whatever the readers and writers do, in whatever order, the bytes
  handed to readers followed by the bytes still in the buffer are exactly the bytes the writers
  stored, in order: nothing is lost, repeated or reordered, also after the 32-bit counters have
  wrapped. The buffer never holds more than \<open>PIPESIZE\<close> bytes.
\<close>

theorem pipe_is_fifo:
  assumes "pipe_reach s"
  shows "stored s = fetched s @ pipe_items (sys_pipe s) \<and> length (pipe_items (sys_pipe s)) \<le> PIPESIZE"
  using pipe_reach_fifo [OF assms] pq.items_bound by (auto simp: fifo_def)

theorem pipe_is_fifo_witness:
  "\<exists>s. pipe_reach s \<and> stored s = [7, 7] \<and> fetched s @ pipe_items (sys_pipe s) = [7, 7]"
proof -
  let ?s = "\<lparr>sys_pipe = pipe_new demo_pipe, stored = [], fetched = []\<rparr>"
  have r: "pipe_reach ?s" by (rule pipe_reach.init)
  obtain q where "pipewrite_loop False (\<lambda>_. 7) 2 2 0 (sys_pipe ?s) = PW_Return 2 q [At_nread]"
    using pipewrite_loop_items [OF pipe_new_empty(1), of demo_pipe "\<lambda>_. 7" 0 2 False 2]
    by (auto simp: pipe_new_empty PIPESIZE_def)
  from pipe_reach.step [OF r pipe_step.write_return [OF this]]
  have "pipe_reach \<lparr>sys_pipe = q, stored = [7, 7], fetched = []\<rparr>"
    by (simp add: pipe_room_def pipe_new_empty PIPESIZE_def numeral_2_eq_2)
  then show ?thesis using pipe_is_fifo [of "\<lparr>sys_pipe = q, stored = [7, 7], fetched = []\<rparr>"] by force
qed

text \<open>
  C21: readers and writers of a pipe never wait for each other. When a write goes to sleep the
  buffer is full, the readers have been woken, and a read returns at once with data; when a read
  goes to sleep the buffer is empty and a write of up to \<open>PIPESIZE\<close> bytes returns, having woken the readers.
\<close>

theorem pipe_no_deadlock:
  assumes "pipe_inv p"
  shows "(pipewrite_loop False addr n k i p = PW_Sleep j q ws \<longrightarrow>
      At_nread \<in> set ws \<and> length (pipe_items q) = PIPESIZE \<and>
      (\<forall>m>0. \<exists>cs q'. piperead False m q = PR_Return (int (length cs)) cs q' [At_nwrite] \<and> cs \<noteq> [])) \<and>
    (piperead False m p = PR_Sleep r \<longrightarrow>
      r = p \<and> pipe_items p = [] \<and> (nat n \<le> PIPESIZE \<longrightarrow>
        (\<exists>q'. pipewrite False addr n p = PW_Return n q' [At_nread] \<and> pipe_items q' = map addr [0..<nat n])))"
proof (intro conjI impI)
  assume w: "pipewrite_loop False addr n k i p = PW_Sleep j q ws"
  from pipewrite_loop_items [OF assms, of addr i k False n] w
  have q: "pipe_inv q" "ws = [At_nread]" "length (pipe_items q) = PIPESIZE"
    using pq.items_bound [OF assms] by (auto simp: pipe_room_def split: if_splits)
  then show "At_nread \<in> set ws" "length (pipe_items q) = PIPESIZE" by simp_all
  have ne: "pipe_items q \<noteq> []" using q(3) pipesize(3) by auto
  then show "\<forall>m>0. \<exists>cs q'. piperead False m q = PR_Return (int (length cs)) cs q' [At_nwrite] \<and> cs \<noteq> []"
    using q pipe_empty [of q] piperead_loop_items [OF q(1)] by (auto simp: piperead_def split_beta)
next
  assume "piperead False m p = PR_Sleep r"
  then show e: "r = p" "pipe_items p = []"
    using pipe_empty [of p] by (auto simp: piperead_def split: if_splits prod.splits)
  assume "nat n \<le> PIPESIZE"
  then show "\<exists>q'. pipewrite False addr n p = PW_Return n q' [At_nread] \<and> pipe_items q' = map addr [0..<nat n]"
    using pipewrite_loop_items [OF assms, of addr 0 "nat n" False n] e
    by (auto simp: pipewrite_def pipe_room_def)
qed

theorem pipe_no_deadlock_witness:
  "piperead False 1 (pipe_new demo_pipe) = PR_Sleep (pipe_new demo_pipe) \<and>
   (\<exists>q. pipewrite False (\<lambda>_. 7) 3 (pipe_new demo_pipe) = PW_Return 3 q [At_nread])"
proof -
  have s: "piperead False 1 (pipe_new demo_pipe) = PR_Sleep (pipe_new demo_pipe)"
    by (simp add: piperead_def pipe_new_def)
  then show ?thesis
    using pipe_no_deadlock [OF pipe_new_empty(1), where addr = "\<lambda>_. 7" and n = 3 and k = 0 and i = 0 and j = 0
        and q = demo_pipe and ws = "[]" and m = 1 and p1 = demo_pipe and r = "pipe_new demo_pipe"]
    by (auto simp: PIPESIZE_def)
qed

end
