(* ===== verification/Kbd.thy ===== *)
theory Kbd
  imports Xv6_Prelude
begin

text \<open>
  The keyboard driver: the tables of \<open>include/xv6/kbd.h\<close> and \<open>kbdgetc\<close> of \<open>kern/kbd.c\<close>, which turns scan
  codes into characters and keeps the state of the modifier keys. The status and data bytes read
  from the controller's ports are arguments.
\<close>

section \<open>Tables\<close>

definition KBS_DIB :: u32 where "KBS_DIB = 1"
definition SHIFT :: u32 where "SHIFT = 1"
definition CTL :: u32 where "CTL = 2"
definition ALT :: u32 where "ALT = 4"
definition CAPSLOCK :: u32 where "CAPSLOCK = 8"
definition NUMLOCK :: u32 where "NUMLOCK = 16"
definition SCROLLLOCK :: u32 where "SCROLLLOCK = 32"
definition E0ESC :: u32 where "E0ESC = 64"

text \<open>A table given by its first entries and by designated initialisers; the rest is zero.\<close>

definition scancodes :: "u8 list \<Rightarrow> (nat \<times> u8) list \<Rightarrow> nat \<Rightarrow> u8" where
  "scancodes xs ys i = (case map_of ys i of Some v \<Rightarrow> v | None \<Rightarrow> if i < length xs then xs ! i else 0)"

definition shiftcode :: "nat \<Rightarrow> u8" where
  "shiftcode = scancodes
     []
     [(0x1d, 2), (0x2a, 1), (0x36, 1), (0x38, 4), (0x9d, 2), (0xb8, 4)]"

definition togglecode :: "nat \<Rightarrow> u8" where
  "togglecode = scancodes
     []
     [(0x3a, 8), (0x45, 16), (0x46, 32)]"

definition normalmap :: "nat \<Rightarrow> u8" where
  "normalmap = scancodes
     [0, 27, 49, 50, 51, 52, 53, 54, 55, 56, 57, 48, 45, 61, 8, 9,
      113, 119, 101, 114, 116, 121, 117, 105, 111, 112, 91, 93, 10, 0, 97, 115,
      100, 102, 103, 104, 106, 107, 108, 59, 39, 96, 0, 92, 122, 120, 99, 118,
      98, 110, 109, 44, 46, 47, 0, 42, 0, 32, 0, 0, 0, 0, 0, 0,
      0, 0, 0, 0, 0, 0, 0, 55, 56, 57, 45, 52, 53, 54, 43, 49,
      50, 51, 48, 46, 0, 0, 0, 0]
     [(0x9c, 10), (0xb5, 47), (0xc8, 226), (0xd0, 227), (0xc9, 230), (0xd1, 231),
      (0xcb, 228), (0xcd, 229), (0x97, 224), (0xcf, 225), (0xd2, 232), (0xd3, 233)]"

definition shiftmap :: "nat \<Rightarrow> u8" where
  "shiftmap = scancodes
     [0, 27, 33, 64, 35, 36, 37, 94, 38, 42, 40, 41, 95, 43, 8, 9,
      81, 87, 69, 82, 84, 89, 85, 73, 79, 80, 123, 125, 10, 0, 65, 83,
      68, 70, 71, 72, 74, 75, 76, 58, 34, 126, 0, 124, 90, 88, 67, 86,
      66, 78, 77, 60, 62, 63, 0, 42, 0, 32, 0, 0, 0, 0, 0, 0,
      0, 0, 0, 0, 0, 0, 0, 55, 56, 57, 45, 52, 53, 54, 43, 49,
      50, 51, 48, 46, 0, 0, 0, 0]
     [(0x9c, 10), (0xb5, 47), (0xc8, 226), (0xd0, 227), (0xc9, 230), (0xd1, 231),
      (0xcb, 228), (0xcd, 229), (0x97, 224), (0xcf, 225), (0xd2, 232), (0xd3, 233)]"

definition ctlmap :: "nat \<Rightarrow> u8" where
  "ctlmap = scancodes
     [0, 0, 0, 0, 0, 0, 0, 0, 0, 0, 0, 0, 0, 0, 0, 0,
      17, 23, 5, 18, 20, 25, 21, 9, 15, 16, 0, 0, 13, 0, 1, 19,
      4, 6, 7, 8, 10, 11, 12, 0, 0, 0, 0, 28, 26, 24, 3, 22,
      2, 14, 13, 0, 0, 239, 0, 0]
     [(0x9c, 13), (0xb5, 239), (0xc8, 226), (0xd0, 227), (0xc9, 230), (0xd1, 231),
      (0xcb, 228), (0xcd, 229), (0x97, 224), (0xcf, 225), (0xd2, 232), (0xd3, 233)]"

definition charcode :: "u32 \<Rightarrow> nat \<Rightarrow> u8" where
  "charcode k = (if k = 0 then normalmap else if k = 1 then shiftmap else ctlmap)"

section \<open>Reading a key\<close>

definition kbd_caps :: "u32 \<Rightarrow> u32" where
  "kbd_caps c =
     (if 97 \<le> c \<and> c \<le> 122 then c + 65 - 97
      else if 65 \<le> c \<and> c \<le> 90 then c + 97 - 65 else c)"

text \<open>A key that is pressed, once an escape code has been taken into account.\<close>

definition kbd_press :: "u32 \<Rightarrow> u32 \<Rightarrow> int \<times> u32" where
  "kbd_press data shift =
     (let shift = shift OR ucast (shiftcode (unat data));
          shift = shift XOR ucast (togglecode (unat data));
          c = ucast (charcode (shift AND (CTL OR SHIFT)) (unat data));
          c = (if shift AND CAPSLOCK \<noteq> 0 then kbd_caps c else c)
      in (uint c, shift))"

definition kbdgetc :: "u32 \<Rightarrow> u32 \<Rightarrow> u32 \<Rightarrow> int \<times> u32" where
  "kbdgetc st data shift =
     (if st AND KBS_DIB = 0 then (-1, shift)
      else if data = 0xE0 then (0, shift OR E0ESC)
      else if data AND 0x80 \<noteq> 0 then
        let data = (if shift AND E0ESC \<noteq> 0 then data else data AND 0x7F)
        in (0, shift AND NOT (ucast (shiftcode (unat data)) OR E0ESC))
      else if shift AND E0ESC \<noteq> 0 then kbd_press (data OR 0x80) (shift AND NOT E0ESC)
      else kbd_press data shift)"

section \<open>Properties\<close>

lemma shiftcode_bits: "take_bit 7 (ucast (shiftcode i) :: u32) = ucast (shiftcode i)"
  by (simp add: shiftcode_def scancodes_def)

lemma togglecode_bits: "take_bit 7 (ucast (togglecode i) :: u32) = ucast (togglecode i)"
  by (simp add: togglecode_def scancodes_def)

lemma kbd_caps_byte: "c < 256 \<Longrightarrow> kbd_caps c < 256"
  by (auto simp: kbd_caps_def word_less_nat_alt word_le_nat_alt unat_word_ariths unat_sub_if_size word_size)

lemma kbd_press_range:
  assumes "take_bit 7 shift = shift"
  shows "case kbd_press data shift of (c, shift') \<Rightarrow> 0 \<le> c \<and> c < 256 \<and> take_bit 7 shift' = shift'"
proof -
  have b: "uint (if p then kbd_caps (ucast (v :: u8)) else ucast v) < 256" for p v
  proof -
    have "unat v < 2 ^ LENGTH(8)" by (rule unsigned_less)
    then have "(ucast v :: u32) < 256" by (simp add: word_less_nat_alt unsigned_ucast_eq take_bit_nat_eq_self)
    then have "(if p then kbd_caps (ucast v) else ucast v) < (256 :: u32)" using kbd_caps_byte by simp
    then show ?thesis by (simp add: word_less_def)
  qed
  show ?thesis
    unfolding kbd_press_def Let_def prod.case
    using b assms by (simp add: take_bit_or take_bit_xor shiftcode_bits togglecode_bits del: if_split)
qed

lemma take_bit_and_not: "take_bit n w = w \<Longrightarrow> take_bit n (w AND NOT x) = (w :: u32) AND NOT x"
  by (metis take_bit_and and.assoc take_bit_eq_mask and.commute)

text \<open>
  \<open>kbdgetc\<close> returns -1 exactly when the controller has no data, and a byte otherwise, and it never leaves the
  eight modifier bits: the state of the modifier keys stays below 128, so its index into the table of maps is in range.
\<close>

theorem kbdgetc_range:
  assumes "take_bit 7 shift = shift"
  shows "case kbdgetc st data shift of (c, shift') \<Rightarrow>
    (c = -1 \<longleftrightarrow> st AND KBS_DIB = 0) \<and> -1 \<le> c \<and> c < 256 \<and> take_bit 7 shift' = shift'"
proof -
  have e: "take_bit 7 E0ESC = E0ESC" by (simp add: E0ESC_def)
  have n: "take_bit 7 (shift AND NOT x) = shift AND NOT x" for x by (rule take_bit_and_not [OF assms])
  note n2 = take_bit_and_not [OF n]
  show ?thesis
    unfolding kbdgetc_def Let_def
    using kbd_press_range [of shift data] kbd_press_range [of "shift AND NOT E0ESC" "data OR 0x80"] assms e n n2
    by (auto simp: take_bit_or and.assoc split: prod.splits)
qed

theorem kbdgetc_range_witness:
  "take_bit 7 (1 :: u32) = 1 \<and> kbdgetc 1 0x1E 1 = (65, 1)"
proof -
  have "kbdgetc 1 0x1E 1 = (65, 1)"
    by code_simp
  then show ?thesis using kbdgetc_range [of 1 1 "0x1E"] by simp
qed

end
