(* ===== verification/Console.thy ===== *)
theory Console
  imports Ring_Queue Kbd
begin

text \<open>
  \<open>kern/console.c\<close> and \<open>kern/uart.c\<close>: formatted output, the CGA screen, the serial port, and the
  line discipline of the two terminals (0 is the serial port, 1 the console). The characters an
  interrupt delivers are a list; what the serial port sends is a history. Locks make the functions
  atomic.
\<close>

section \<open>State\<close>

definition ECHO :: u32 where "ECHO = 8"
definition ICANON :: u32 where "ICANON = 0x100"
definition TCGETA :: int where "TCGETA = 0x5405"
definition TCSETA :: int where "TCSETA = 0x5406"
definition BACKSPACE :: int where "BACKSPACE = 0x100"
definition INPUT_BUF :: nat where "INPUT_BUF = 128"
definition Ctl_D :: int where "Ctl_D = 4"
definition Ctl_H :: int where "Ctl_H = 8"
definition Ctl_P :: int where "Ctl_P = 16"
definition Ctl_U :: int where "Ctl_U = 21"

record termios =
  c_iflag :: u32
  c_oflag :: u32
  c_cflag :: u32
  c_lflag :: u32
  c_cc :: bytes
  c_ispeed :: u32
  c_ospeed :: u32

record cinput =
  ci_buf :: "nat \<Rightarrow> u8"
  ci_r :: u32
  ci_w :: u32
  ci_e :: u32

record console =
  input :: "nat \<Rightarrow> cinput"
  termios :: "nat \<Rightarrow> termios"
  locking :: bool
  panicked :: bool
  uart :: bool
  uart_out :: "int list"
  crt :: "nat \<Rightarrow> u16"
  crt_pos :: u16

section \<open>Output\<close>

definition uartputc :: "int \<Rightarrow> 'a console_scheme \<Rightarrow> 'a console_scheme" where
  "uartputc c s = (if uart s then s\<lparr>uart_out := uart_out s @ [c]\<rparr> else s)"

text \<open>The screen memory after the \<open>memmove\<close> and \<open>memset\<close> that scroll it up by one line.\<close>

definition scroll :: "nat \<Rightarrow> (nat \<Rightarrow> u16) \<Rightarrow> nat \<Rightarrow> u16" where
  "scroll pos m i = (if pos \<le> i \<and> i < 24 * 80 then 0 else if i < 23 * 80 then m (i + 80) else m i)"

definition cgaputc :: "int \<Rightarrow> 'a console_scheme \<Rightarrow> 'a console_scheme outcome" where
  "cgaputc c s =
     (let pos = uint (crt_pos s);
          (pos, m) =
            (if c = 10 then (pos + (80 - pos mod 80), crt s)
             else if c = BACKSPACE then (if pos > 0 then pos - 1 else pos, crt s)
             else (pos + 1, (crt s)(nat pos := of_int c AND 0xff OR 0x0700)))
      in if pos < 0 \<or> pos > 25 * 80 then Panic ''pos under/overflow''
         else
           let (pos, m) = (if pos div 80 \<ge> 24 then (pos - 80, scroll (nat (pos - 80)) m) else (pos, m))
           in Done (s\<lparr>crt := m(nat pos := 0x20 OR 0x0700), crt_pos := of_int pos\<rparr>))"

definition consputc :: "int \<Rightarrow> int \<Rightarrow> 'a console_scheme \<Rightarrow> 'a console_scheme outcome" where
  "consputc c minor s =
     (if panicked s then Diverge
      else if minor = 0
      then if c = BACKSPACE then Done (uartputc 8 (uartputc 32 (uartputc 8 s))) else Done (uartputc c s)
      else cgaputc c s)"

primrec consputs :: "int list \<Rightarrow> int \<Rightarrow> 'a console_scheme \<Rightarrow> 'a console_scheme outcome" where
  "consputs [] minor s = Done s"
| "consputs (c # cs) minor s = obind (consputc c minor s) (consputs cs minor)"

definition consechoc :: "int \<Rightarrow> nat \<Rightarrow> 'a console_scheme \<Rightarrow> 'a console_scheme outcome" where
  "consechoc c minor s =
     (if c \<noteq> Ctl_D \<and> c_lflag (termios s minor) AND ECHO \<noteq> 0 then consputc c (int minor) s else Done s)"

section \<open>Formatted output\<close>

definition digit_char :: "nat \<Rightarrow> int" where
  "digit_char d = (if d < 10 then 48 + int d else 87 + int d)"

text \<open>The \<open>do\<close> loop of \<open>printint\<close>: the digits of \<open>x\<close>, least significant first.\<close>

function printint_digits :: "nat \<Rightarrow> nat \<Rightarrow> int list" where
  "printint_digits b x =
     digit_char (x mod b) # (if x div b \<noteq> 0 \<and> 2 \<le> b then printint_digits b (x div b) else [])"
  by auto
termination
  by (relation "measure (\<lambda>(b, x). x)") (auto intro: div_less_dividend simp: div_greater_zero_iff)

declare printint_digits.simps [simp del]

definition printint :: "u32 \<Rightarrow> nat \<Rightarrow> bool \<Rightarrow> int list" where
  "printint xx b sign =
     (let neg = (sign \<and> sint xx < 0);
          x = (if neg then - xx else xx);
          buf = printint_digits b (unat x);
          buf = (if neg then buf @ [45] else buf)
      in rev buf)"

text \<open>
  The characters \<open>cprintf\<close> prints for a format string, up to its terminating NUL. \<open>arg i\<close> is the
  \<open>i\<close>-th word of the variable arguments and \<open>str\<close> gives the string an argument points to.
\<close>

fun cprintf_out :: "(u32 \<Rightarrow> bytes) \<Rightarrow> (nat \<Rightarrow> u32) \<Rightarrow> nat \<Rightarrow> bytes \<Rightarrow> int list" where
  "cprintf_out str arg i [] = []"
| "cprintf_out str arg i [c] = (if c = 0 \<or> c = 37 then [] else [uint c])"
| "cprintf_out str arg i (c # d # fmt) =
     (if c = 0 then []
      else if c \<noteq> 37 then uint c # cprintf_out str arg i (d # fmt)
      else if d = 0 then []
      else if d = 100 then printint (arg i) 10 True @ cprintf_out str arg (Suc i) fmt
      else if d = 120 \<or> d = 112 then printint (arg i) 16 False @ cprintf_out str arg (Suc i) fmt
      else if d = 115 then
        (if arg i = 0 then [40, 110, 117, 108, 108, 41] else map uint (str (arg i))) @ cprintf_out str arg (Suc i) fmt
      else if d = 37 then 37 # cprintf_out str arg i fmt
      else 37 # uint d # cprintf_out str arg i fmt)"

definition cprintf :: "(u32 \<Rightarrow> bytes) \<Rightarrow> (nat \<Rightarrow> u32) \<Rightarrow> bytes option \<Rightarrow> 'a console_scheme \<Rightarrow> 'a console_scheme outcome" where
  "cprintf str arg fmt s =
     (case fmt of None \<Rightarrow> Panic ''null fmt'' | Some f \<Rightarrow> consputs (cprintf_out str arg 0 f) 1 s)"

section \<open>Input\<close>

abbreviation upd_input :: "nat \<Rightarrow> (cinput \<Rightarrow> cinput) \<Rightarrow> 'a console_scheme \<Rightarrow> 'a console_scheme" where
  "upd_input minor f s \<equiv> s\<lparr>input := (input s)(minor := f (input s minor))\<rparr>"

definition ci_put :: "u8 \<Rightarrow> cinput \<Rightarrow> cinput" where
  "ci_put c q = q\<lparr>ci_buf := (ci_buf q)(unat (ci_e q) mod INPUT_BUF := c), ci_e := ci_e q + 1\<rparr>"

definition ci_get :: "cinput \<Rightarrow> u8 \<times> cinput" where
  "ci_get q = (ci_buf q (unat (ci_r q) mod INPUT_BUF), q\<lparr>ci_r := ci_r q + 1\<rparr>)"

text \<open>
  The kill-line loop; at most \<open>k\<close> characters lie between the write and the edit index.
\<close>

primrec kill_line :: "nat \<Rightarrow> nat \<Rightarrow> 'a console_scheme \<Rightarrow> 'a console_scheme outcome" where
  "kill_line 0 minor s = Done s"
| "kill_line (Suc k) minor s =
     (let q = input s minor in
      if ci_e q \<noteq> ci_w q \<and> ci_buf q (unat (ci_e q - 1) mod INPUT_BUF) \<noteq> 10
      then obind (consechoc BACKSPACE minor (upd_input minor (\<lambda>q. q\<lparr>ci_e := ci_e q - 1\<rparr>) s)) (kill_line k minor)
      else Done s)"

text \<open>
  One character. The result says whether readers were woken up and whether a process listing was
  asked for.
\<close>

definition canon_char :: "int \<Rightarrow> nat \<Rightarrow> 'a console_scheme \<Rightarrow> (bool \<times> bool \<times> 'a console_scheme) outcome" where
  "canon_char c minor s =
     (let q = input s minor in
      if c = Ctl_P then Done (False, True, s)
      else if c = Ctl_U then obind (kill_line (unat (ci_e q - ci_w q)) minor s) (\<lambda>s. Done (False, False, s))
      else if c = Ctl_H \<or> c = 127 then
        (if ci_e q \<noteq> ci_w q
         then obind (consechoc BACKSPACE minor (upd_input minor (\<lambda>q. q\<lparr>ci_e := ci_e q - 1\<rparr>) s))
                (\<lambda>s. Done (False, False, s))
         else Done (False, False, s))
      else if c \<noteq> 0 \<and> unat (ci_e q - ci_r q) < INPUT_BUF then
        let c = (if c = 13 then 10 else c) in
        obind (consechoc c minor (upd_input minor (ci_put (of_int c)) s)) (\<lambda>s.
          let q = input s minor in
          if c = 10 \<or> c = Ctl_D \<or> ci_e q = ci_r q + of_nat INPUT_BUF
          then Done (True, False, upd_input minor (\<lambda>q. q\<lparr>ci_w := ci_e q\<rparr>) s)
          else Done (False, False, s))
      else Done (False, False, s))"

definition raw_char :: "int \<Rightarrow> nat \<Rightarrow> 'a console_scheme \<Rightarrow> (bool \<times> bool \<times> 'a console_scheme) outcome" where
  "raw_char c minor s =
     (let q = input s minor in
      if c \<noteq> 0 \<and> unat (ci_e q - ci_r q) < INPUT_BUF then
        obind (consechoc c minor (upd_input minor (ci_put (of_int c)) s)) (\<lambda>s.
          Done (True, False, upd_input minor (\<lambda>q. q\<lparr>ci_w := ci_e q\<rparr>) s))
      else Done (False, False, s))"

text \<open>\<open>consoleintr\<close>: the loop over the characters \<open>getc\<close> delivers until it returns a negative value.\<close>

primrec consoleintr :: "int list \<Rightarrow> nat \<Rightarrow> 'a console_scheme \<Rightarrow> (bool \<times> bool \<times> 'a console_scheme) outcome" where
  "consoleintr [] minor s = Done (False, False, s)"
| "consoleintr (c # cs) minor s =
     (if c < 0 then Done (False, False, s)
      else obind (if c_lflag (termios s minor) AND ICANON \<noteq> 0 then canon_char c minor s else raw_char c minor s)
             (\<lambda>(w, d, s). obind (consoleintr cs minor s) (\<lambda>(w', d', s). Done (w \<or> w', d \<or> d', s))))"

text \<open>
  The loop of \<open>consoleread\<close>, with \<open>n\<close> of \<open>target\<close> characters still to deliver and \<open>acc\<close> already
  delivered.
\<close>

datatype cons_read = CR_Return int bytes cinput | CR_Sleep nat bytes cinput

primrec consoleread_loop :: "bool \<Rightarrow> bool \<Rightarrow> nat \<Rightarrow> nat \<Rightarrow> bytes \<Rightarrow> cinput \<Rightarrow> cons_read" where
  "consoleread_loop canon killed target 0 acc q = CR_Return (int target) acc q"
| "consoleread_loop canon killed target (Suc n) acc q =
     (if ci_r q = ci_w q then (if killed then CR_Return (-1) acc q else CR_Sleep (Suc n) acc q)
      else case ci_get q of (c, q) \<Rightarrow>
        if c = 4 \<and> canon
        then CR_Return (int target - int (Suc n)) acc (if Suc n < target then q\<lparr>ci_r := ci_r q - 1\<rparr> else q)
        else if c = 10 \<or> \<not> canon then CR_Return (int target - int n) (acc @ [c]) q
        else consoleread_loop canon killed target n (acc @ [c]) q)"

definition consolewrite_loop :: "bytes \<Rightarrow> int \<Rightarrow> 'a console_scheme \<Rightarrow> 'a console_scheme outcome" where
  "consolewrite_loop buf minor s = consputs (map uint buf) minor s"

text \<open>\<open>consoleinit\<close>: both terminals echo and edit lines.\<close>

definition consoleinit :: "'a console_scheme \<Rightarrow> 'a console_scheme" where
  "consoleinit s = s\<lparr>termios := (termios s)(0 := (termios s 0)\<lparr>c_lflag := ECHO OR ICANON\<rparr>,
     1 := (termios s 1)\<lparr>c_lflag := ECHO OR ICANON\<rparr>), locking := True\<rparr>"

text \<open>
  \<open>panic\<close>: the state in which the CPU stops after printing the message and the call stack; it never
  returns to its caller.
\<close>

definition panic_stop :: "(u32 \<Rightarrow> bytes) \<Rightarrow> u32 \<Rightarrow> bytes \<Rightarrow> (nat \<Rightarrow> u32) \<Rightarrow> u32 list \<Rightarrow> 'a console_scheme \<Rightarrow> 'a console_scheme outcome" where
  "panic_stop str cpu_id msg arg pcs s =
     obind (cprintf str (\<lambda>_. cpu_id) (Some [99, 112, 117, 37, 100, 58, 32, 112, 97, 110, 105, 99, 58, 32]) (s\<lparr>locking := False\<rparr>)) (\<lambda>s.
     obind (cprintf str arg (Some msg) s) (\<lambda>s.
     obind (cprintf str arg (Some [10]) s) (\<lambda>s.
     obind (consputs (concat (map (\<lambda>pc. cprintf_out str (\<lambda>_. pc) 0 [32, 37, 112]) pcs)) 1 s) (\<lambda>s.
       Done (s\<lparr>panicked := True\<rparr>)))))"

section \<open>The serial port\<close>

definition COM1 :: nat where "COM1 = 0x3f8"

text \<open>\<open>uartinit\<close>: the bytes sent to the ports, and the state; \<open>status\<close> is read from the line status port.\<close>

definition uartinit :: "u8 \<Rightarrow> 'a console_scheme \<Rightarrow> (nat \<times> u8) list \<times> 'a console_scheme" where
  "uartinit status s =
     ([(COM1 + 2, 0), (COM1 + 3, 0x80), (COM1, 12), (COM1 + 1, 0), (COM1 + 3, 3), (COM1 + 4, 0), (COM1 + 1, 1)],
      if status = 0xFF then s
      else fold uartputc [120, 118, 54, 46, 46, 46, 10] (s\<lparr>uart := True\<rparr>))"

definition uartgetc :: "u8 \<Rightarrow> u8 \<Rightarrow> 'a console_scheme \<Rightarrow> int" where
  "uartgetc status byte s = (if \<not> uart s then -1 else if status AND 1 = 0 then -1 else uint byte)"

definition uartintr :: "int list \<Rightarrow> 'a console_scheme \<Rightarrow> (bool \<times> bool \<times> 'a console_scheme) outcome" where
  "uartintr cs s = consoleintr cs 0 s"

definition kbdintr :: "int list \<Rightarrow> 'a console_scheme \<Rightarrow> (bool \<times> bool \<times> 'a console_scheme) outcome" where
  "kbdintr cs s = consoleintr cs 1 s"

section \<open>Output never fails\<close>

definition cons_ok :: "'a console_scheme \<Rightarrow> bool" where
  "cons_ok s \<longleftrightarrow> \<not> panicked s \<and> uint (crt_pos s) < 24 * 80"

lemma uint_u16: "0 \<le> k \<Longrightarrow> k < 65536 \<Longrightarrow> uint (of_int k :: u16) = k"
  by (simp add: uint_word_of_int)

lemma cgaputc_ok:
  assumes "uint (crt_pos s) < 24 * 80"
  shows "\<exists>t. cgaputc c s = Done t \<and> uint (crt_pos t) < 24 * 80 \<and> input t = input s \<and> termios t = termios s \<and>
    panicked t = panicked s \<and> uart_out t = uart_out s"
proof -
  let ?p = "uint (crt_pos s)"
  define q where "q = (if c = 10 then ?p + (80 - ?p mod 80) else if c = BACKSPACE then (if ?p > 0 then ?p - 1 else ?p) else ?p + 1)"
  have "?p = 80 * (?p div 80) + ?p mod 80" "0 \<le> ?p mod 80" "?p mod 80 < 80" "0 \<le> ?p" by simp_all
  moreover have "?p div 80 < 24" using assms by (simp add: div_less_iff_less_mult)
  ultimately have "0 \<le> ?p + (80 - ?p mod 80)" "?p + (80 - ?p mod 80) \<le> 24 * 80" "0 \<le> ?p" by linarith+
  then have q: "0 \<le> q" "q \<le> 24 * 80" using assms unfolding q_def by simp_all
  define p' where "p' = (if q div 80 \<ge> 24 then q - 80 else q)"
  have "24 \<le> q div 80 \<longleftrightarrow> 24 * 80 \<le> q" by presburger
  then have p': "0 \<le> p'" "p' < 24 * 80" using q unfolding p'_def by simp_all
  have "\<exists>m. cgaputc c s = Done (s\<lparr>crt := m, crt_pos := of_int p'\<rparr>)"
  proof -
    define m where "m = (if c = 10 \<or> c = BACKSPACE then crt s else (crt s)(nat ?p := of_int c AND 0xff OR 0x0700))"
    have "(if c = 10 then (?p + (80 - ?p mod 80), crt s)
      else if c = BACKSPACE then (if ?p > 0 then ?p - 1 else ?p, crt s)
      else (?p + 1, (crt s)(nat ?p := of_int c AND 0xff OR 0x0700))) = (q, m)"
      by (simp add: q_def m_def)
    then show ?thesis using q unfolding cgaputc_def Let_def p'_def by simp blast
  qed
  then show ?thesis using p' uint_u16 [of p'] by auto
qed

lemma consputc_ok:
  assumes "cons_ok s"
  shows "\<exists>t. consputc c m s = Done t \<and> cons_ok t \<and> input t = input s \<and> termios t = termios s"
  using assms cgaputc_ok [of s c] by (auto simp: consputc_def cons_ok_def uartputc_def)

lemma consputs_ok:
  assumes "cons_ok s"
  shows "\<exists>t. consputs cs m s = Done t \<and> cons_ok t \<and> input t = input s \<and> termios t = termios s"
  using assms
proof (induction cs arbitrary: s)
  case (Cons c cs)
  obtain t where t: "consputc c m s = Done t" "cons_ok t" "input t = input s" "termios t = termios s"
    using consputc_ok [OF Cons.prems] by blast
  then show ?case using Cons.IH [OF t(2)] by auto
qed simp

lemma consechoc_ok:
  assumes "cons_ok s"
  shows "\<exists>t. consechoc c m s = Done t \<and> cons_ok t \<and> input t = input s \<and> termios t = termios s"
  using assms consputc_ok by (auto simp: consechoc_def)

section \<open>The line discipline on lists\<close>

text \<open>
  The abstract view of a terminal's input: the characters readers may take, and the line that is
  still being edited. \<open>edit\<close> is what a typed character does to them.
\<close>

definition committed :: "cinput \<Rightarrow> bytes" where
  "committed q = ring_items INPUT_BUF (ci_buf q) (ci_r q) (ci_w q)"

definition pending :: "cinput \<Rightarrow> bytes" where
  "pending q = ring_items INPUT_BUF (ci_buf q) (ci_w q) (ci_e q)"

definition ci_inv :: "cinput \<Rightarrow> bool" where
  "ci_inv q \<longleftrightarrow> unat (ci_w q - ci_r q) \<le> unat (ci_e q - ci_r q) \<and> unat (ci_e q - ci_r q) \<le> INPUT_BUF"

definition edit :: "int \<Rightarrow> bytes \<times> bytes \<Rightarrow> bytes \<times> bytes" where
  "edit c = (\<lambda>(done, line).
     if c = Ctl_P then (done, line)
     else if c = Ctl_U then (done, rev (dropWhile (\<lambda>x. x \<noteq> 10) (rev line)))
     else if c = Ctl_H \<or> c = 127 then (done, butlast line)
     else if c \<noteq> 0 \<and> length done + length line < INPUT_BUF then
       let c = (if c = 13 then 10 else c);
           line = line @ [of_int c]
       in if c = 10 \<or> c = Ctl_D \<or> length done + length line = INPUT_BUF then (done @ line, []) else (done, line)
     else (done, line))"

definition ci_items :: "cinput \<Rightarrow> bytes" where
  "ci_items q = ring_items INPUT_BUF (ci_buf q) (ci_r q) (ci_e q)"

lemma inputbuf: "INPUT_BUF dvd 2 ^ 32" "INPUT_BUF < 2 ^ 32" "0 < INPUT_BUF"
  by (simp_all add: INPUT_BUF_def)

interpretation cq: bounded_queue "\<lambda>q. unat (ci_e q - ci_r q) \<le> INPUT_BUF" ci_items INPUT_BUF ci_put ci_get
proof
  fix q :: cinput and c :: u8 and cs
  assume i: "unat (ci_e q - ci_r q) \<le> INPUT_BUF"
  then show "length (ci_items q) \<le> INPUT_BUF" by (simp add: ci_items_def)
  show "unat (ci_e (ci_put c q) - ci_r (ci_put c q)) \<le> INPUT_BUF \<and> ci_items (ci_put c q) = ci_items q @ [c]"
    if "length (ci_items q) < INPUT_BUF"
    using that ring_put [OF inputbuf(1,2), where w = "ci_e q" and r = "ci_r q"]
    by (simp add: ci_items_def ci_put_def)
  show "fst (ci_get q) = c \<and> unat (ci_e (snd (ci_get q)) - ci_r (snd (ci_get q))) \<le> INPUT_BUF \<and>
      ci_items (snd (ci_get q)) = cs"
    if s: "ci_items q = c # cs"
  proof -
    have ne: "ci_r q \<noteq> ci_e q" using s by (auto simp: ci_items_def)
    have e: "ci_items q = ci_buf q (unat (ci_r q) mod INPUT_BUF) # ci_items (snd (ci_get q))"
      using ring_get [OF ne] by (simp add: ci_items_def ci_get_def)
    then have "length (ci_items q) = Suc (length (ci_items (snd (ci_get q))))" by (metis length_Cons)
    then have "length (ci_items (snd (ci_get q))) \<le> INPUT_BUF"
      using i unfolding ci_items_def length_ring_items by linarith
    then show ?thesis using e s by (simp add: ci_get_def ci_items_def)
  qed
qed

lemma ci_items_split:
  assumes "ci_inv q"
  shows "ci_items q = committed q @ pending q"
    "length (committed q) + length (pending q) = unat (ci_e q - ci_r q)"
  using ring_split [where r = "ci_r q" and w = "ci_w q" and e = "ci_e q"] assms
  by (auto simp: ci_items_def committed_def pending_def ci_inv_def)

lemma pending_empty: "ci_e q = ci_w q \<longleftrightarrow> pending q = []"
  using ring_get [of "ci_w q" "ci_e q" INPUT_BUF "ci_buf q"]
  by (cases "ci_e q = ci_w q") (auto simp: pending_def)

lemma committed_empty: "ci_r q = ci_w q \<longleftrightarrow> committed q = []"
  using ring_get [of "ci_r q" "ci_w q" INPUT_BUF "ci_buf q"]
  by (cases "ci_r q = ci_w q") (auto simp: committed_def)

text \<open>Taking back the last character of the line.\<close>

lemma ci_unput:
  assumes i: "ci_inv q" and ne: "ci_e q \<noteq> ci_w q"
  defines "q' \<equiv> q\<lparr>ci_e := ci_e q - 1\<rparr>"
  shows "ci_inv q'" "committed q' = committed q" "pending q' = butlast (pending q)"
    "last (pending q) = ci_buf q (unat (ci_e q - 1) mod INPUT_BUF)" "ci_w q' = ci_w q"
    "unat (ci_e q - ci_w q) = Suc (unat (ci_e q' - ci_w q'))"
proof -
  note s = ring_snoc [OF ne, of INPUT_BUF "ci_buf q"]
  show "committed q' = committed q" "pending q' = butlast (pending q)"
    "last (pending q) = ci_buf q (unat (ci_e q - 1) mod INPUT_BUF)" "ci_w q' = ci_w q"
    using s by (simp_all add: q'_def committed_def pending_def)
  have u: "unat (ci_e q - ci_w q) = Suc (unat (ci_e q - 1 - ci_w q))"
    using arg_cong [OF s, of length] by simp
  then show "unat (ci_e q - ci_w q) = Suc (unat (ci_e q' - ci_w q'))" by (simp add: q'_def)
  have d: "unat (ci_e q - ci_w q) = unat (ci_e q - ci_r q) - unat (ci_w q - ci_r q)"
    using i by (intro ring_split(2)) (simp add: ci_inv_def)
  have "ci_e q - ci_r q \<noteq> 0" using u d by auto
  then have "unat (ci_e q - ci_r q - 1) = unat (ci_e q - ci_r q) - 1" by (simp add: unat_minus_one)
  moreover have "ci_e q - 1 - ci_r q = ci_e q - ci_r q - 1" by simp
  ultimately have "unat (ci_e q - 1 - ci_r q) = unat (ci_e q - ci_r q) - 1" by (simp only:)
  then show "ci_inv q'" using i u d unfolding ci_inv_def q'_def by (simp; linarith)
qed

lemma ci_put_view:
  assumes i: "ci_inv q" and room: "unat (ci_e q - ci_r q) < INPUT_BUF"
  shows "ci_inv (ci_put c q)" "committed (ci_put c q) = committed q" "pending (ci_put c q) = pending q @ [c]"
    "unat (ci_e (ci_put c q) - ci_r (ci_put c q)) = unat (ci_e q - ci_r q) + 1"
proof -
  note p = cq.put_items [of q c]
  have u: "unat (ci_e q + 1 - ci_r q) = unat (ci_e q - ci_r q) + 1"
    by (rule ring_put(1) [OF inputbuf(1,2) room])
  then show "unat (ci_e (ci_put c q) - ci_r (ci_put c q)) = unat (ci_e q - ci_r q) + 1" by (simp add: ci_put_def)
  show i': "ci_inv (ci_put c q)" using i u room by (simp add: ci_inv_def ci_put_def)
  have "committed (ci_put c q) @ pending (ci_put c q) = committed q @ (pending q @ [c])"
    using p ci_items_split(1) [OF i] ci_items_split(1) [OF i'] room by (simp add: ci_items_def)
  moreover have "length (committed (ci_put c q)) = length (committed q)"
    by (simp add: committed_def ci_put_def)
  ultimately show "committed (ci_put c q) = committed q" "pending (ci_put c q) = pending q @ [c]" by simp_all
qed

lemma ci_commit_view:
  assumes "ci_inv q"
  shows "ci_inv (q\<lparr>ci_w := ci_e q\<rparr>)" "committed (q\<lparr>ci_w := ci_e q\<rparr>) = committed q @ pending q"
    "pending (q\<lparr>ci_w := ci_e q\<rparr>) = []"
  using assms ci_items_split(1) [OF assms] by (simp_all add: ci_inv_def committed_def pending_def ci_items_def)

lemma ci_full:
  assumes "ci_inv q"
  shows "ci_e q = ci_r q + of_nat INPUT_BUF \<longleftrightarrow> length (committed q) + length (pending q) = INPUT_BUF"
proof -
  have "ci_e q = ci_r q + of_nat INPUT_BUF \<longleftrightarrow> ci_e q - ci_r q = of_nat INPUT_BUF" by (auto simp: algebra_simps)
  also have "\<dots> \<longleftrightarrow> unat (ci_e q - ci_r q) = INPUT_BUF" by (simp add: word_unat_eq_iff INPUT_BUF_def)
  finally show ?thesis using ci_items_split(2) [OF assms] by simp
qed

text \<open>Taking the first committed character.\<close>

lemma ci_get_view:
  assumes i: "ci_inv q" and ne: "ci_r q \<noteq> ci_w q"
  shows "committed q = fst (ci_get q) # committed (snd (ci_get q))" "ci_inv (snd (ci_get q))"
    "pending (snd (ci_get q)) = pending q"
proof -
  show c: "committed q = fst (ci_get q) # committed (snd (ci_get q))"
    using ring_get [OF ne] by (simp add: committed_def ci_get_def)
  show "pending (snd (ci_get q)) = pending q" by (simp add: pending_def ci_get_def)
  have w: "unat (ci_w q - ci_r q) = Suc (unat (ci_w q - (ci_r q + 1)))"
    using arg_cong [OF c, of length] by (simp add: committed_def ci_get_def)
  then have "ci_e q - ci_r q \<noteq> 0" using i by (auto simp: ci_inv_def)
  then have "unat (ci_e q - ci_r q - 1) = unat (ci_e q - ci_r q) - 1" by (simp add: unat_minus_one)
  moreover have "ci_e q - (ci_r q + 1) = ci_e q - ci_r q - 1" by (simp add: algebra_simps)
  ultimately have "unat (ci_e q - (ci_r q + 1)) = unat (ci_e q - ci_r q) - 1" by (simp only:)
  then show "ci_inv (snd (ci_get q))" using i w unfolding ci_inv_def by (simp add: ci_get_def; linarith)
qed

text \<open>What processing a character keeps: the other terminal and the settings.\<close>

definition term_view :: "'a console_scheme \<Rightarrow> nat \<Rightarrow> bytes \<times> bytes" where
  "term_view s m = (committed (input s m), pending (input s m))"

definition term_frame :: "nat \<Rightarrow> 'a console_scheme \<Rightarrow> 'a console_scheme \<Rightarrow> bool" where
  "term_frame m s t \<longleftrightarrow> cons_ok t \<and> ci_inv (input t m) \<and> termios t = termios s \<and> (\<forall>k. k \<noteq> m \<longrightarrow> input t k = input s k)"

lemma cons_ok_upd [simp]: "cons_ok (s\<lparr>input := i\<rparr>) = cons_ok s"
  by (simp add: cons_ok_def)

lemma kill_line_view:
  assumes "cons_ok s" "ci_inv (input s m)" "unat (ci_e (input s m) - ci_w (input s m)) = k"
  shows "\<exists>t. kill_line k m s = Done t \<and> term_frame m s t \<and>
    term_view t m = (committed (input s m), rev (dropWhile (\<lambda>x. x \<noteq> 10) (rev (pending (input s m)))))"
  using assms
proof (induction k arbitrary: s)
  case 0
  then have "pending (input s m) = []" using pending_empty [of "input s m"] by (simp add: unat_eq_0)
  then show ?case using 0 by (simp add: term_view_def term_frame_def)
next
  case (Suc k)
  let ?q = "input s m"
  have ne: "ci_e ?q \<noteq> ci_w ?q" using Suc.prems(3) by auto
  note u = ci_unput [OF Suc.prems(2) ne]
  have pe: "pending ?q \<noteq> []" using ne pending_empty by blast
  have "rev (butlast (pending ?q) @ [last (pending ?q)]) = last (pending ?q) # rev (butlast (pending ?q))" by simp
  then have pl: "rev (pending ?q) = last (pending ?q) # rev (butlast (pending ?q))"
    by (simp only: append_butlast_last_id [OF pe])
  show ?case
  proof (cases "last (pending ?q) = 10")
    case True
    then have "dropWhile (\<lambda>x. x \<noteq> 10) (rev (pending ?q)) = rev (pending ?q)" unfolding pl by simp
    then have "rev (dropWhile (\<lambda>x. x \<noteq> 10) (rev (pending ?q))) = pending ?q" by simp
    then show ?thesis
      using Suc.prems u(4) True by (simp add: term_view_def term_frame_def Let_def)
  next
    case False
    let ?s = "upd_input m (\<lambda>q. q\<lparr>ci_e := ci_e q - 1\<rparr>) s"
    obtain t where t: "consechoc BACKSPACE m ?s = Done t" "cons_ok t" "input t = input ?s" "termios t = termios s"
      using consechoc_ok [of ?s BACKSPACE m] Suc.prems(1) by auto
    have "\<exists>t'. kill_line k m t = Done t' \<and> term_frame m t t' \<and>
        term_view t' m = (committed (input t m), rev (dropWhile (\<lambda>x. x \<noteq> 10) (rev (pending (input t m)))))"
      using t u Suc.prems by (intro Suc.IH) auto
    moreover have "dropWhile (\<lambda>x. x \<noteq> 10) (rev (pending ?q)) = dropWhile (\<lambda>x. x \<noteq> 10) (rev (butlast (pending ?q)))"
      unfolding pl using False by simp
    ultimately show ?thesis using t u ne False by (auto simp: term_frame_def Let_def)
  qed
qed

lemma canon_char_view:
  assumes ok: "cons_ok s" "ci_inv (input s m)"
  shows "\<exists>w d t. canon_char c m s = Done (w, d, t) \<and> term_frame m s t \<and> term_view t m = edit c (term_view s m) \<and>
    (w \<longrightarrow> committed (input t m) \<noteq> []) \<and> (d \<longleftrightarrow> c = Ctl_P)"
proof -
  let ?q = "input s m"
  have len: "length (committed ?q) + length (pending ?q) = unat (ci_e ?q - ci_r ?q)"
    by (rule ci_items_split(2) [OF ok(2)])
  have ctl: "Ctl_P \<noteq> Ctl_U" "Ctl_H \<noteq> Ctl_P" "Ctl_H \<noteq> Ctl_U" "127 \<noteq> Ctl_P" "127 \<noteq> Ctl_U" "Ctl_P = 16"
    by (simp_all add: Ctl_P_def Ctl_U_def Ctl_H_def)
  have same: "term_frame m s s" using ok by (simp add: term_frame_def)
  consider (list) "c = Ctl_P" | (kill) "c = Ctl_U" | (bs) "c = Ctl_H \<or> c = 127"
    | (store) "c \<noteq> Ctl_P" "c \<noteq> Ctl_U" "\<not> (c = Ctl_H \<or> c = 127)" "c \<noteq> 0" "unat (ci_e ?q - ci_r ?q) < INPUT_BUF"
    | (drop) "c \<noteq> Ctl_P" "c \<noteq> Ctl_U" "\<not> (c = Ctl_H \<or> c = 127)" "\<not> (c \<noteq> 0 \<and> unat (ci_e ?q - ci_r ?q) < INPUT_BUF)"
    by blast
  then show ?thesis
  proof cases
    case list
    then show ?thesis using same by (auto simp: ex_bool_eq canon_char_def edit_def term_view_def)
  next
    case kill
    then show ?thesis
      using kill_line_view [OF ok refl] ctl by (auto simp: ex_bool_eq canon_char_def edit_def term_view_def Let_def)
  next
    case bs
    then have n: "c \<noteq> Ctl_P" "c \<noteq> Ctl_U" using ctl by auto
    show ?thesis
    proof (cases "ci_e ?q = ci_w ?q")
      case True
      then have "pending ?q = []" using pending_empty by blast
      then show ?thesis using bs n True same by (auto simp: ex_bool_eq canon_char_def edit_def term_view_def Let_def)
    next
      case False
      let ?s = "upd_input m (\<lambda>q. q\<lparr>ci_e := ci_e q - 1\<rparr>) s"
      obtain t where "consechoc BACKSPACE m ?s = Done t" "cons_ok t" "input t = input ?s" "termios t = termios s"
        using consechoc_ok [of ?s BACKSPACE m] ok(1) by auto
      then show ?thesis
        using bs n False ci_unput [OF ok(2) False]
        by (auto simp: ex_bool_eq canon_char_def edit_def term_view_def term_frame_def Let_def)
    qed
  next
    case store
    define c' where "c' = (if c = 13 then 10 else c)"
    let ?s = "upd_input m (ci_put (of_int c')) s"
    obtain t where t: "consechoc c' m ?s = Done t" "cons_ok t" "input t = input ?s" "termios t = termios s"
      using consechoc_ok [of ?s c' m] ok(1) by auto
    note v = ci_put_view [OF ok(2) store(5), of "of_int c'"]
    note cv = ci_commit_view [OF v(1)]
    have f: "ci_e (input t m) = ci_r (input t m) + of_nat INPUT_BUF \<longleftrightarrow>
        length (committed ?q) + length (pending ?q @ [of_int c' :: u8]) = INPUT_BUF"
      using ci_full [OF v(1)] v(2,3) t(3) by simp
    show ?thesis
      using store t v cv f len unfolding canon_char_def edit_def term_view_def term_frame_def Let_def
      by (auto simp: ex_bool_eq c'_def [symmetric])
  next
    case drop
    then show ?thesis using same len by (auto simp: ex_bool_eq canon_char_def edit_def term_view_def Let_def)
  qed
qed

lemma consoleread_line:
  assumes "ci_inv q" "committed q = l @ [10] @ rest" "\<forall>c\<in>set l. c \<noteq> 10 \<and> c \<noteq> 4" "length l < n"
  shows "\<exists>q'. consoleread_loop True killed target n acc q = CR_Return (int target - int (n - length l - 1)) (acc @ l @ [10]) q' \<and>
    ci_inv q' \<and> committed q' = rest \<and> pending q' = pending q"
  using assms
proof (induction l arbitrary: q n acc)
  case Nil
  obtain k where n: "n = Suc k" using Nil.prems(4) by (cases n) auto
  have ne: "ci_r q \<noteq> ci_w q" using Nil.prems(2) committed_empty [of q] by auto
  note g = ci_get_view [OF Nil.prems(1) ne]
  have "fst (ci_get q) = 10" "committed (snd (ci_get q)) = rest" using g(1) Nil.prems(2) by auto
  then show ?case using n ne g by (auto simp: split_beta)
next
  case (Cons c l)
  obtain k where n: "n = Suc k" using Cons.prems(4) by (cases n) auto
  have ne: "ci_r q \<noteq> ci_w q" using Cons.prems(2) committed_empty [of q] by auto
  note g = ci_get_view [OF Cons.prems(1) ne]
  have c: "fst (ci_get q) = c" "committed (snd (ci_get q)) = l @ [10] @ rest" using g(1) Cons.prems(2) by auto
  then show ?case
    using Cons.IH [OF g(2) c(2), of k "acc @ [c]"] Cons.prems n ne g(3) by (auto simp: split_beta)
qed

lemma consoleintr_view:
  assumes "cons_ok s" "ci_inv (input s m)" "c_lflag (termios s m) AND ICANON \<noteq> 0" "\<forall>c\<in>set cs. 0 \<le> c"
  shows "\<exists>w d t. consoleintr cs m s = Done (w, d, t) \<and> term_frame m s t \<and> term_view t m = fold edit cs (term_view s m) \<and>
    (d \<longleftrightarrow> Ctl_P \<in> set cs)"
  using assms
proof (induction cs arbitrary: s)
  case Nil
  then show ?case by (auto simp: term_frame_def intro: exI [of _ False])
next
  case (Cons c cs)
  obtain w d t where c: "canon_char c m s = Done (w, d, t)" "term_frame m s t" "term_view t m = edit c (term_view s m)"
    "d \<longleftrightarrow> c = Ctl_P"
    using canon_char_view [OF Cons.prems(1,2), of c] by blast
  have "\<exists>w d u. consoleintr cs m t = Done (w, d, u) \<and> term_frame m t u \<and> term_view u m = fold edit cs (term_view t m) \<and>
      (d \<longleftrightarrow> Ctl_P \<in> set cs)"
    using c(2) Cons.prems by (intro Cons.IH) (auto simp: term_frame_def)
  then show ?case using c Cons.prems(3,4) by (auto simp: term_frame_def)
qed

definition plain :: "u8 \<Rightarrow> bool" where
  "plain c \<longleftrightarrow> c \<notin> {0, 4, 8, 10, 13, 16, 21, 127}"

lemma edit_plain:
  assumes "plain c" "length a + length l + 1 < INPUT_BUF"
  shows "edit (uint c) (a, l) = (a, l @ [c])"
proof -
  have "uint c \<notin> {0, 4, 8, 10, 13, 16, 21, 127}" using assms(1) by (auto simp: plain_def word_uint_eq_iff)
  then show ?thesis using assms(2) by (simp add: edit_def Ctl_P_def Ctl_U_def Ctl_H_def Ctl_D_def Let_def)
qed

lemma fold_edit_plain:
  "\<forall>c\<in>set xs. plain c \<Longrightarrow> length a + length l + length xs < INPUT_BUF \<Longrightarrow>
   fold edit (map uint xs) (a, l) = (a, l @ xs)"
  by (induction xs arbitrary: l) (simp_all add: edit_plain)

section \<open>Digits\<close>

definition digit_value :: "int \<Rightarrow> nat" where
  "digit_value c = nat (if c < 58 then c - 48 else c - 87)"

definition digits_value :: "nat \<Rightarrow> int list \<Rightarrow> nat" where
  "digits_value b ds = foldr (\<lambda>d v. digit_value d + b * v) ds 0"

lemma digit_value_char: "d < 16 \<Longrightarrow> digit_value (digit_char d) = d"
  by (simp add: digit_value_def digit_char_def)

lemma printint_digits_value:
  assumes "2 \<le> b" "b \<le> 16"
  shows "digits_value b (printint_digits b x) = x"
proof (induction x rule: less_induct)
  case (less x)
  have "x mod b < 16" using assms by (intro less_le_trans [OF mod_less_divisor]) auto
  then have d: "digit_value (digit_char (x mod b)) = x mod b" by (rule digit_value_char)
  show ?case
  proof (cases "x div b = 0")
    case True
    then show ?thesis using d by (subst printint_digits.simps) (auto simp: digits_value_def div_eq_0_iff)
  next
    case False
    then have "x div b < x" using assms by (intro div_less_dividend) (auto intro: Nat.gr0I)
    then have "digits_value b (printint_digits b (x div b)) = x div b" by (rule less.IH)
    then show ?thesis using d False assms by (subst printint_digits.simps) (simp add: digits_value_def)
  qed
qed

lemma printint_digits_length:
  assumes "2 \<le> b" "x < b ^ Suc k"
  shows "length (printint_digits b x) \<le> Suc k"
  using assms(2)
proof (induction k arbitrary: x)
  case 0
  then have "x div b = 0" by simp
  then show ?case by (subst printint_digits.simps) simp
next
  case (Suc k)
  then have "x div b < b ^ Suc k" using assms(1) by (simp add: less_mult_imp_div_less mult.commute)
  then have "length (printint_digits b (x div b)) \<le> Suc k" by (rule Suc.IH)
  then show ?case by (subst printint_digits.simps) simp
qed

lemma sint_32: "sint (x :: u32) = (if uint x < 2 ^ 31 then uint x else uint x - 2 ^ 32)"
proof -
  have b: "0 \<le> uint x" "uint x < 2 ^ 32" using uint_lt2p [of x] by simp_all
  have s: "sint x = (uint x + 2 ^ 31) mod 2 ^ 32 - 2 ^ 31"
    by (simp add: sint_uint signed_take_bit_eq_take_bit_shift take_bit_eq_mod)
  show ?thesis
  proof (cases "uint x < 2 ^ 31")
    case True
    then have "(uint x + 2 ^ 31) mod 2 ^ 32 = uint x + 2 ^ 31" using b by (intro mod_pos_pos_trivial) auto
    then show ?thesis using s True by simp
  next
    case False
    then have "(uint x + 2 ^ 31 - 2 ^ 32) mod 2 ^ 32 = uint x + 2 ^ 31 - 2 ^ 32" using b by (intro mod_pos_pos_trivial) auto
    then have "(uint x + 2 ^ 31) mod 2 ^ 32 = uint x + 2 ^ 31 - 2 ^ 32" by (metis minus_mod_self2)
    then show ?thesis using s False by simp
  qed
qed

lemma unat_sint: "0 \<le> sint x \<Longrightarrow> unat (x :: u32) = nat (sint x)"
  using uint_lt2p [of x] by (simp add: sint_32 split: if_splits)

lemma unat_minus_sint: "sint x < 0 \<Longrightarrow> unat (- x :: u32) = nat (- sint x)"
proof -
  assume n: "sint x < 0"
  then have s: "sint x = uint x - 2 ^ 32" "2 ^ 31 \<le> uint x" using uint_lt2p [of x] by (auto simp: sint_32 split: if_splits)
  have "uint (- x) = (- uint x) mod 2 ^ 32" by (simp add: uint_word_ariths)
  also have "\<dots> = (2 ^ 32 - uint x) mod 2 ^ 32" by (simp add: zmod_zminus1_eq_if mod_diff_left_eq [symmetric])
  also have "\<dots> = 2 ^ 32 - uint x" using s(2) uint_lt2p [of x] by (intro mod_pos_pos_trivial) auto
  finally show ?thesis using s(1) by (simp flip: nat_uint_eq)
qed

section \<open>Properties\<close>

definition demo_console :: console where
  "demo_console = consoleinit \<lparr>input = (\<lambda>_. \<lparr>ci_buf = (\<lambda>_. 0), ci_r = 0, ci_w = 0, ci_e = 0\<rparr>),
     termios = (\<lambda>_. \<lparr>c_iflag = 0, c_oflag = 0, c_cflag = 0, c_lflag = 0, c_cc = [], c_ispeed = 0, c_ospeed = 0\<rparr>),
     locking = False, panicked = False, uart = True, uart_out = [], crt = (\<lambda>_. 0), crt_pos = 0\<rparr>"

lemma demo_console_ok:
  "cons_ok demo_console" "ci_inv (input demo_console m)" "committed (input demo_console m) = []"
  "pending (input demo_console m) = []" "c_lflag (termios demo_console 1) AND ICANON \<noteq> 0"
  by (simp_all add: demo_console_def consoleinit_def cons_ok_def ci_inv_def committed_def pending_def ECHO_def ICANON_def)

text \<open>
  C23: in canonical mode the interrupt handler of the console implements line editing. For every
  sequence of characters it returns, and what it leaves in the circular buffer is what the editing rules on plain
  lists prescribe: characters are appended to the line, backspace and kill-line take back only what has not been
  committed, a newline, end-of-file or a full buffer commits the line. The other terminal is not touched.
\<close>

theorem consoleintr_edits:
  assumes "cons_ok s" "ci_inv (input s m)" "c_lflag (termios s m) AND ICANON \<noteq> 0" "\<forall>c\<in>set cs. 0 \<le> c"
  shows "\<exists>w d t. consoleintr cs m s = Done (w, d, t) \<and> cons_ok t \<and> ci_inv (input t m) \<and>
    (committed (input t m), pending (input t m)) = fold edit cs (committed (input s m), pending (input s m)) \<and>
    (\<forall>k. k \<noteq> m \<longrightarrow> input t k = input s k) \<and> (d \<longleftrightarrow> Ctl_P \<in> set cs)"
  using consoleintr_view [OF assms] unfolding term_frame_def term_view_def by blast

theorem consoleintr_edits_witness:
  "\<exists>w d t. consoleintr [97, 98, 8, 99, 13] 1 demo_console = Done (w, d, t) \<and> committed (input t 1) = [97, 99, 10]"
proof -
  have "fold edit [97, 98, 8, 99, 13] ([], []) = ([97, 99, 10], [])"
    by (simp add: edit_def Ctl_P_def Ctl_U_def Ctl_H_def Ctl_D_def INPUT_BUF_def Let_def)
  then show ?thesis
    using consoleintr_edits [OF demo_console_ok(1,2,5), of "[97, 98, 8, 99, 13]"] demo_console_ok(3,4) [of 1] by auto
qed



text \<open>
  C25: \<open>printint\<close> prints the number it is given: in base 10 or 16 the digits it emits denote its
  argument, a minus sign comes first exactly for a negative signed argument, also for the smallest integer, and the
  16-byte buffer is never overrun.
\<close>

theorem printint_denotes:
  assumes "b = 10 \<or> b = 16"
  shows "\<exists>ds. printint xx b sign = (if sign \<and> sint xx < 0 then 45 # rev ds else rev ds) \<and>
    digits_value b ds = (if sign then nat \<bar>sint xx\<bar> else unat xx) \<and> length (printint xx b sign) \<le> 16"
proof -
  define x where "x = (if sign \<and> sint xx < 0 then - xx else xx)"
  have "unat x < 2 ^ 32" using unsigned_less [of x] by simp
  then have "unat x < b ^ Suc 9" using assms by auto
  then have "length (printint_digits b (unat x)) \<le> Suc 9" using assms by (intro printint_digits_length) auto
  moreover have "digits_value b (printint_digits b (unat x)) = unat x" using assms by (intro printint_digits_value) auto
  moreover have "unat x = (if sign then nat \<bar>sint xx\<bar> else unat xx)"
    using unat_sint [of xx] unat_minus_sint [of xx] by (auto simp: x_def)
  ultimately show ?thesis by (intro exI [of _ "printint_digits b (unat x)"]) (auto simp: printint_def x_def Let_def)
qed

theorem printint_denotes_witness:
  "\<exists>ds. printint 0x80000000 10 True = 45 # rev ds \<and> digits_value 10 ds = 2147483648"
  using printint_denotes [of 10 "0x80000000" True] by (auto simp: sint_32)

end
