(* ===== verification/Kstate.thy ===== *)
theory Kstate
  imports Fs_Dir Vm Pipe Console
begin

text \<open>
  The state of the whole kernel: the file system state extended by memory, console, open files, pipes
  and processes; access to user memory through the page table that is loaded; and the argument
  fetching of \<open>kern/syscall.c\<close>. Pointers into \<open>ftable.file\<close>, \<open>ptable.proc\<close> and \<open>icache.inode\<close> are
  indices, null pointers are \<open>None\<close>. A trap frame and a saved context lie in the page of the kernel
  stack, a pipe lies in a page of its own; the model keeps these objects beside the bytes of memory.
  Functions run with the locks of the source held: a call that would have to wait for another process
  has the outcome \<open>Sleep\<close>.
\<close>

section \<open>Open files and processes\<close>

datatype ftype = FD_NONE | FD_PIPE | FD_INODE

record file_struct =
  f_type :: ftype
  f_ref :: int
  readable :: bool
  writable :: bool
  f_pipe :: u32
  f_ip :: "nat option"
  f_off :: u32

datatype procstate = UNUSED | EMBRYO | SLEEPING | RUNNABLE | RUNNING | ZOMBIE

record context_struct =
  ctx_edi :: u32
  ctx_esi :: u32
  ctx_ebx :: u32
  ctx_ebp :: u32
  ctx_eip :: u32

record trapframe =
  tf_edi :: u32
  tf_esi :: u32
  tf_ebp :: u32
  tf_oesp :: u32
  tf_ebx :: u32
  tf_edx :: u32
  tf_ecx :: u32
  tf_eax :: u32
  tf_gs :: u16
  tf_fs :: u16
  tf_es :: u16
  tf_ds :: u16
  tf_trapno :: u32
  tf_err :: u32
  tf_eip :: u32
  tf_cs :: u16
  tf_eflags :: u32
  tf_esp :: u32
  tf_ss :: u16

record proc =
  p_sz :: u32
  p_pgdir :: u32
  p_kstack :: u32
  p_state :: procstate
  p_pid :: u32
  p_parent :: "nat option"
  p_tf :: trapframe
  p_context :: context_struct
  p_chan :: "chan option"
  p_killed :: bool
  p_exitstatus :: u32
  p_ofile :: "nat \<Rightarrow> nat option"
  p_cwd :: "nat option"
  p_name :: bytes

section \<open>The state of the kernel\<close>

text \<open>
  \<open>cur\<close> is the variable \<open>proc\<close> of the running CPU, \<open>cpu_id\<close> its number; \<open>first\<close> is the static variable of
  \<open>forkret\<close>; \<open>kdata\<close>, \<open>trapret\<close> and \<open>forkret_addr\<close> are symbols of the linker.
\<close>

record kstate = fs_state +
  km :: kmem
  cons :: console
  ftable :: "nat \<Rightarrow> file_struct"
  pipes :: "u32 \<Rightarrow> pipe"
  ptable :: "nat \<Rightarrow> proc"
  cur :: "nat option"
  cpu_id :: u32
  initproc :: "nat option"
  nextpid :: u32
  ticks :: u32
  kpgdir :: u32
  cr3 :: u32
  first :: bool
  kdata :: u32
  trapret :: u32
  forkret_addr :: u32

definition upd_proc :: "nat \<Rightarrow> (proc \<Rightarrow> proc) \<Rightarrow> kstate \<Rightarrow> kstate" where
  "upd_proc p f s = s\<lparr>ptable := (ptable s)(p := f (ptable s p))\<rparr>"

definition upd_file :: "nat \<Rightarrow> (file_struct \<Rightarrow> file_struct) \<Rightarrow> kstate \<Rightarrow> kstate" where
  "upd_file f g s = s\<lparr>ftable := (ftable s)(f := g (ftable s f))\<rparr>"

text \<open>The running process. Code that runs without one would read through the null pointer.\<close>

definition myproc :: "kstate \<Rightarrow> proc" where
  "myproc s = (case cur s of Some p \<Rightarrow> ptable s p | None \<Rightarrow> ptable s 0)"

definition upd_cur :: "(proc \<Rightarrow> proc) \<Rightarrow> kstate \<Rightarrow> kstate" where
  "upd_cur f s = (case cur s of Some p \<Rightarrow> upd_proc p f s | None \<Rightarrow> s)"

text \<open>Operations on the memory allocator and on page tables, in the state of the kernel.\<close>

definition on_km :: "(kmem \<Rightarrow> ('b \<times> kmem) outcome) \<Rightarrow> kstate \<Rightarrow> ('b \<times> kstate) outcome" where
  "on_km f s = obind (f (km s)) (\<lambda>(r, k). Done (r, s\<lparr>km := k\<rparr>))"

definition on_km' :: "(kmem \<Rightarrow> kmem outcome) \<Rightarrow> kstate \<Rightarrow> kstate outcome" where
  "on_km' f s = obind (f (km s)) (\<lambda>k. Done (s\<lparr>km := k\<rparr>))"

definition on_cons :: "(console \<Rightarrow> console outcome) \<Rightarrow> kstate \<Rightarrow> kstate outcome" where
  "on_cons f s = obind (f (cons s)) (\<lambda>c. Done (s\<lparr>cons := c\<rparr>))"

definition k_alloc :: "kstate \<Rightarrow> u32 \<times> kstate" where
  "k_alloc s = (case kalloc (km s) of (a, k) \<Rightarrow> (a, s\<lparr>km := k\<rparr>))"

section \<open>Switching page tables\<close>

definition switchkvm :: "kstate \<Rightarrow> kstate" where
  "switchkvm s = s\<lparr>cr3 := v2p (kpgdir s)\<rparr>"

definition kvmalloc :: "kstate \<Rightarrow> kstate outcome" where
  "kvmalloc s = obind (on_km (setupkvm (kdata s)) s) (\<lambda>(d, s). Done (switchkvm (s\<lparr>kpgdir := d\<rparr>)))"

definition switchuvm :: "nat \<Rightarrow> kstate \<Rightarrow> kstate outcome" where
  "switchuvm p s =
     (if p_pgdir (ptable s p) = 0 then Panic ''switchuvm: no pgdir''
      else Done (s\<lparr>cr3 := v2p (p_pgdir (ptable s p))\<rparr>))"

section \<open>User memory\<close>

text \<open>
  The address of the byte a virtual address refers to. A page that is missing, or one that may not be
  written, raises a page fault, and \<open>trap\<close> panics since the fault is in the kernel.
\<close>

definition vaddr :: "bool \<Rightarrow> u32 \<Rightarrow> kstate \<Rightarrow> u32 outcome" where
  "vaddr wr va s =
     (let pte = fst (walkpgdir (p2v (cr3 s)) va False (km s)); e = load32 (kmem_mem (km s)) pte in
      if pte = 0 \<or> e AND PTE_P = 0 \<or> wr \<and> e AND PTE_W = 0 then Panic ''trap''
      else Done (p2v (PTE_ADDR e) + (va AND 0xFFF)))"

primrec uread :: "nat \<Rightarrow> u32 \<Rightarrow> kstate \<Rightarrow> bytes outcome" where
  "uread 0 va s = Done []"
| "uread (Suc n) va s =
     obind (vaddr False va s) (\<lambda>a. obind (uread n (va + 1) s) (\<lambda>bs. Done (kmem_mem (km s) a # bs)))"

primrec uwrite :: "bytes \<Rightarrow> u32 \<Rightarrow> kstate \<Rightarrow> kstate outcome" where
  "uwrite [] va s = Done s"
| "uwrite (b # bs) va s =
     obind (vaddr True va s) (\<lambda>a. uwrite bs (va + 1) (s\<lparr>km := km s\<lparr>kmem_mem := (kmem_mem (km s))(a := b)\<rparr>\<rparr>))"

section \<open>System call arguments\<close>

definition fetchint :: "u32 \<Rightarrow> kstate \<Rightarrow> u32 option outcome" where
  "fetchint addr s =
     (if addr \<ge> p_sz (myproc s) \<or> addr + 4 > p_sz (myproc s) then Done None
      else obind (uread 4 addr s) (\<lambda>bs. Done (Some (u32_of_bytes bs))))"

text \<open>The loop of \<open>fetchstr\<close>: at most \<open>n\<close> bytes lie between the address and the end of the process.\<close>

primrec fetchstr_loop :: "nat \<Rightarrow> u32 \<Rightarrow> kstate \<Rightarrow> bytes option outcome" where
  "fetchstr_loop 0 va s = Done None"
| "fetchstr_loop (Suc n) va s =
     obind (vaddr False va s) (\<lambda>a.
       if kmem_mem (km s) a = 0 then Done (Some [])
       else obind (fetchstr_loop n (va + 1) s) (\<lambda>r.
         Done (case r of None \<Rightarrow> None | Some bs \<Rightarrow> Some (kmem_mem (km s) a # bs))))"

text \<open>\<open>fetchstr\<close> gives the string at the address; the length it returns is that of the string.\<close>

definition fetchstr :: "u32 \<Rightarrow> kstate \<Rightarrow> bytes option outcome" where
  "fetchstr addr s =
     (if addr \<ge> p_sz (myproc s) then Done None
      else fetchstr_loop (unat (p_sz (myproc s) - addr)) addr s)"

definition argint :: "nat \<Rightarrow> kstate \<Rightarrow> u32 option outcome" where
  "argint n s = fetchint (tf_esp (p_tf (myproc s)) + 4 + 4 * of_nat n) s"

definition argptr :: "nat \<Rightarrow> u32 \<Rightarrow> kstate \<Rightarrow> u32 option outcome" where
  "argptr n size' s =
     obind (argint n s) (\<lambda>r. Done (case r of
         None \<Rightarrow> None
       | Some i \<Rightarrow> if i \<ge> p_sz (myproc s) \<or> i + size' > p_sz (myproc s) then None else Some i))"

definition argstr :: "nat \<Rightarrow> kstate \<Rightarrow> bytes option outcome" where
  "argstr n s = obind (argint n s) (\<lambda>r. case r of None \<Rightarrow> Done None | Some addr \<Rightarrow> fetchstr addr s)"

section \<open>Wakeups\<close>

definition wakeup1 :: "chan \<Rightarrow> kstate \<Rightarrow> kstate" where
  "wakeup1 ch s = s\<lparr>ptable := (\<lambda>p.
     if p < NPROC \<and> p_state (ptable s p) = SLEEPING \<and> p_chan (ptable s p) = Some ch
     then (ptable s p)\<lparr>p_state := RUNNABLE\<rparr> else ptable s p)\<rparr>"

definition wakeup :: "chan \<Rightarrow> kstate \<Rightarrow> kstate" where
  "wakeup ch s = wakeup1 ch s"

end
