(* ===== verification/Devices.thy ===== *)
theory Devices
  imports Kstate
begin

text \<open>
  The device switch: reading, writing and controlling the terminals (\<open>kern/console.c\<close>), the raw disk
  and \<open>/dev/null\<close>, \<open>/dev/zero\<close> (\<open>kern/ide.c\<close>), with the table that \<open>consoleinit\<close> and \<open>ideinit\<close> fill.
\<close>

section \<open>Terminals\<close>

definition consoleread :: "nat \<Rightarrow> u32 \<Rightarrow> u32 \<Rightarrow> kstate \<Rightarrow> (int \<times> bytes \<times> kstate) outcome" where
  "consoleread ip off n s =
     (let minor = sint (i_minor (icache s ip)) in
      if minor < 0 \<or> minor > 1 then Done (0, [], s)
      else
        obind (iunlock (Some ip) s) (\<lambda>s.
          let q = input (cons s) (nat minor);
              canon = (c_lflag (termios (cons s) (nat minor)) AND ICANON \<noteq> 0)
          in if sint n \<le> 0 then obind (ilock (Some ip) s) (\<lambda>s. Done (0, [], s))
             else
               (case consoleread_loop canon (p_killed (myproc s)) (unat n) (unat n) [] q of
                  CR_Sleep _ _ _ \<Rightarrow> Sleep (Chan_Input (nat minor))
                | CR_Return r bs q \<Rightarrow>
                    obind (ilock (Some ip) (s\<lparr>cons := upd_input (nat minor) (\<lambda>_. q) (cons s)\<rparr>)) (\<lambda>s.
                      Done (r, bs, s)))))"

definition consolewrite :: "nat \<Rightarrow> (nat \<Rightarrow> u8) \<Rightarrow> u32 \<Rightarrow> u32 \<Rightarrow> kstate \<Rightarrow> (int \<times> kstate) outcome" where
  "consolewrite ip buf off n s =
     obind (iunlock (Some ip) s) (\<lambda>s.
     obind (on_cons (consolewrite_loop (map buf [0..<nat (sint n)]) (sint (i_minor (icache s ip)))) s) (\<lambda>s.
     obind (ilock (Some ip) s) (\<lambda>s.
     Done (sint n, s))))"

text \<open>\<open>struct termios\<close> in memory.\<close>

definition NCCS :: nat where "NCCS = 20"

definition bytes_of_termios :: "termios \<Rightarrow> bytes" where
  "bytes_of_termios t = bytes_of_u32 (c_iflag t) @ bytes_of_u32 (c_oflag t) @ bytes_of_u32 (c_cflag t) @
     bytes_of_u32 (c_lflag t) @ c_cc t @ bytes_of_u32 (c_ispeed t) @ bytes_of_u32 (c_ospeed t)"

definition termios_of_bytes :: "bytes \<Rightarrow> termios" where
  "termios_of_bytes d = \<lparr>c_iflag = get32 0 d, c_oflag = get32 4 d, c_cflag = get32 8 d, c_lflag = get32 12 d,
     c_cc = slice 16 NCCS d, c_ispeed = get32 (16 + NCCS) d, c_ospeed = get32 (20 + NCCS) d\<rparr>"

definition sizeof_termios :: nat where "sizeof_termios = 24 + NCCS"

text \<open>
  The code does not check the minor number before it indexes \<open>cons.termios\<close>; an index outside of the
  array is an error of the model.
\<close>

definition consoleioctl :: "nat \<Rightarrow> u32 \<Rightarrow> kstate \<Rightarrow> (int \<times> kstate) outcome" where
  "consoleioctl ip req s =
     (let minor = sint (i_minor (icache s ip)) in
      if sint req \<noteq> TCGETA \<and> sint req \<noteq> TCSETA then Done (-1, s)
      else
        obind (argptr 2 (of_nat sizeof_termios) s) (\<lambda>r.
          case r of
            None \<Rightarrow> Done (-1, s)
          | Some termios_p \<Rightarrow>
              if minor < 0 \<or> minor > 1 then Panic ''cons.termios: index out of bounds''
              else if sint req = TCGETA
              then obind (uwrite (bytes_of_termios (termios (cons s) (nat minor))) termios_p s) (\<lambda>s. Done (0, s))
              else
                obind (uread sizeof_termios termios_p s) (\<lambda>d.
                Done (0, s\<lparr>cons := (cons s)\<lparr>termios := (termios (cons s))(nat minor := termios_of_bytes d)\<rparr>\<rparr>))))"

section \<open>The raw disk\<close>

text \<open>The loops run until \<open>n\<close>, the number of bytes that remain, is zero.\<close>

function ideread_loop :: "u32 \<Rightarrow> u32 \<Rightarrow> nat \<Rightarrow> kstate \<Rightarrow> (bytes \<times> kstate) outcome" where
  "ideread_loop d off n s =
     (if n = 0 then Done ([], s)
      else
        obind (bread d (of_nat (unat off div BSIZE)) s) (\<lambda>(bp, s).
          let m = min n (BSIZE - unat off mod BSIZE);
              x = slice (unat off mod BSIZE) m (data (bufs s bp))
          in obind (brelse bp s) (\<lambda>s.
             obind (ideread_loop d (off + of_nat m) (n - m) s) (\<lambda>(y, s). Done (x @ y, s)))))"
  by auto
termination
  by (relation "measure (\<lambda>(d, off, n, s). n)") (auto simp: BSIZE_def)

definition ideread :: "nat \<Rightarrow> u32 \<Rightarrow> u32 \<Rightarrow> kstate \<Rightarrow> (int \<times> bytes \<times> kstate) outcome" where
  "ideread ip off n s =
     (let lim = of_nat (FSSIZE * BSIZE) in
      if off > lim then Done (-1, [], s)
      else
        let n = (if off + n > lim then lim - off else n) in
        obind (ideread_loop (scast (i_minor (icache s ip))) off (unat n) s) (\<lambda>(y, s). Done (sint n, y, s)))"

function idewrite_loop :: "u32 \<Rightarrow> (nat \<Rightarrow> u8) \<Rightarrow> u32 \<Rightarrow> nat \<Rightarrow> kstate \<Rightarrow> (u32 \<times> kstate) outcome" where
  "idewrite_loop d src off n s =
     (if n = 0 then Done (off, s)
      else
        obind (bread d (of_nat (unat off div BSIZE)) s) (\<lambda>(bp, s).
          let m = min n (BSIZE - unat off mod BSIZE);
              s = set_data bp (patch (unat off mod BSIZE) (map src [0..<m]) (data (bufs s bp))) s;
              s = upd_buf bp (\<lambda>b. b\<lparr>flags := insert B_BUSY (flags b)\<rparr>) s
          in obind (bwrite bp s) (\<lambda>s.
             obind (brelse bp s) (\<lambda>s.
             idewrite_loop d (\<lambda>i. src (m + i)) (off + of_nat m) (n - m) s))))"
  by auto
termination
  by (relation "measure (\<lambda>(d, src, off, n, s). n)") (auto simp: BSIZE_def)

definition idewrite :: "nat \<Rightarrow> (nat \<Rightarrow> u8) \<Rightarrow> u32 \<Rightarrow> u32 \<Rightarrow> kstate \<Rightarrow> (int \<times> kstate) outcome" where
  "idewrite ip src off n s =
     (let lim = of_nat (FSSIZE * BSIZE) in
      if off > lim then Done (-1, s)
      else if off + n > lim then Done (-1, s)
      else
        obind (idewrite_loop (scast (i_minor (icache s ip))) src off (unat n) s) (\<lambda>(off, s).
          Done (sint n, if sint n > 0 \<and> off > lim then upd_inode ip (\<lambda>x. x\<lparr>i_size := lim\<rparr>) s else s)))"

section \<open>Null and zero\<close>

definition nullread :: "nat \<Rightarrow> u32 \<Rightarrow> u32 \<Rightarrow> kstate \<Rightarrow> (int \<times> bytes \<times> kstate) outcome" where
  "nullread ip off n s =
     (if i_minor (icache s ip) = 0 then Done (0, [], s) else Done (sint n, replicate (unat n) 0, s))"

definition nullwrite :: "nat \<Rightarrow> (nat \<Rightarrow> u8) \<Rightarrow> u32 \<Rightarrow> u32 \<Rightarrow> kstate \<Rightarrow> (int \<times> kstate) outcome" where
  "nullwrite ip src off n s = Done (sint n, s)"

section \<open>The table\<close>

definition CONSOLE :: nat where "CONSOLE = 1"
definition DISK :: nat where "DISK = 2"
definition DEVNULL :: nat where "DEVNULL = 3"

definition devsw_table :: "kstate devsw" where
  "devsw_table = (\<lambda>_. \<lparr>dev_read = None, dev_write = None, dev_ioctl = None\<rparr>)
     (CONSOLE := \<lparr>dev_read = Some consoleread, dev_write = Some consolewrite, dev_ioctl = Some consoleioctl\<rparr>,
      DISK := \<lparr>dev_read = Some ideread, dev_write = Some idewrite, dev_ioctl = None\<rparr>,
      DEVNULL := \<lparr>dev_read = Some nullread, dev_write = Some nullwrite, dev_ioctl = None\<rparr>)"

declare ideread_loop.simps [simp del] idewrite_loop.simps [simp del]

end
