(* ===== verification/File.thy ===== *)
theory File
  imports Devices
begin

text \<open>
  Open files, \<open>kern/file.c\<close>, with the allocation of a pipe and its two files (\<open>kern/pipe.c\<close>). Buffers
  of system calls are addresses in the address space of the running process.
\<close>

section \<open>The file table\<close>

definition filealloc :: "kstate \<Rightarrow> nat option \<times> kstate" where
  "filealloc s =
     (case find (\<lambda>f. f_ref (ftable s f) = 0) [0..<NFILE] of
        Some f \<Rightarrow> (Some f, upd_file f (\<lambda>x. x\<lparr>f_ref := 1\<rparr>) s)
      | None \<Rightarrow> (None, s))"

definition filedup :: "nat \<Rightarrow> kstate \<Rightarrow> (nat \<times> kstate) outcome" where
  "filedup f s =
     (if f_ref (ftable s f) < 1 then Panic ''filedup''
      else Done (f, upd_file f (\<lambda>x. x\<lparr>f_ref := f_ref x + 1\<rparr>) s))"

text \<open>The wakeup that an operation on a pipe asks for.\<close>

primrec wakeup_pipe :: "u32 \<Rightarrow> pipe_chan \<Rightarrow> kstate \<Rightarrow> kstate" where
  "wakeup_pipe p At_nread s = wakeup (Chan_Nread (unat p)) s"
| "wakeup_pipe p At_nwrite s = wakeup (Chan_Nwrite (unat p)) s"

definition k_pipeclose :: "u32 \<Rightarrow> bool \<Rightarrow> kstate \<Rightarrow> kstate outcome" where
  "k_pipeclose p w s =
     (case pipeclose w (pipes s p) of (q, ch, free) \<Rightarrow>
        let s = wakeup_pipe p ch (s\<lparr>pipes := (pipes s)(p := q)\<rparr>) in
        if free then on_km' (kfree p) s else Done s)"

text \<open>Putting the inode of an open file: the pointer is not null for a file of type \<open>FD_INODE\<close>.\<close>

definition put_ip :: "nat option \<Rightarrow> kstate \<Rightarrow> kstate outcome" where
  "put_ip p s = (case p of None \<Rightarrow> Panic ''trap'' | Some ip \<Rightarrow> iput ip s)"

definition fileclose :: "nat \<Rightarrow> kstate \<Rightarrow> kstate outcome" where
  "fileclose f s =
     (if f_ref (ftable s f) < 1 then Panic ''fileclose''
      else
        let s = upd_file f (\<lambda>x. x\<lparr>f_ref := f_ref x - 1\<rparr>) s in
        if f_ref (ftable s f) > 0 then Done s
        else
          let ff = ftable s f;
              s = upd_file f (\<lambda>x. x\<lparr>f_ref := 0, f_type := FD_NONE\<rparr>) s
          in case f_type ff of
               FD_PIPE \<Rightarrow> k_pipeclose (f_pipe ff) (writable ff) s
             | FD_INODE \<Rightarrow> obind (begin_op s) (\<lambda>s. obind (put_ip (f_ip ff) s) (\<lambda>s. end_op s))
             | FD_NONE \<Rightarrow> Done s)"

section \<open>Pipes\<close>

definition pipe_new :: "pipe \<Rightarrow> pipe" where
  "pipe_new p = p\<lparr>readopen := True, writeopen := True, nwrite := 0, nread := 0\<rparr>"

definition close_opt :: "nat option \<Rightarrow> kstate \<Rightarrow> kstate outcome" where
  "close_opt f s = (case f of None \<Rightarrow> Done s | Some f \<Rightarrow> fileclose f s)"

definition pipealloc :: "kstate \<Rightarrow> ((nat \<times> nat) option \<times> kstate) outcome" where
  "pipealloc s =
     (let bad = (\<lambda>f0 f1 s. obind (close_opt f0 s) (\<lambda>s. obind (close_opt f1 s) (\<lambda>s. Done (None, s)))) in
      case filealloc s of
        (None, s) \<Rightarrow> bad None None s
      | (Some f0, s) \<Rightarrow>
          (case filealloc s of
             (None, s) \<Rightarrow> bad (Some f0) None s
           | (Some f1, s) \<Rightarrow>
               (case k_alloc s of (p, s) \<Rightarrow>
                  if p = 0 then bad (Some f0) (Some f1) s
                  else
                    let s = s\<lparr>pipes := (pipes s)(p := pipe_new (pipes s p))\<rparr>;
                        s = upd_file f0 (\<lambda>x. x\<lparr>f_type := FD_PIPE, readable := True, writable := False, f_pipe := p\<rparr>) s;
                        s = upd_file f1 (\<lambda>x. x\<lparr>f_type := FD_PIPE, readable := False, writable := True, f_pipe := p\<rparr>) s
                    in Done (Some (f0, f1), s))))"

definition k_piperead :: "u32 \<Rightarrow> u32 \<Rightarrow> int \<Rightarrow> kstate \<Rightarrow> (int \<times> kstate) outcome" where
  "k_piperead p addr n s =
     (case piperead (p_killed (myproc s)) n (pipes s p) of
        PR_Sleep _ \<Rightarrow> Sleep (Chan_Nread (unat p))
      | PR_Return r bs q ws \<Rightarrow>
          obind (uwrite bs addr s) (\<lambda>s.
          Done (r, fold (wakeup_pipe p) ws (s\<lparr>pipes := (pipes s)(p := q)\<rparr>))))"

definition k_pipewrite :: "u32 \<Rightarrow> u32 \<Rightarrow> int \<Rightarrow> kstate \<Rightarrow> (int \<times> kstate) outcome" where
  "k_pipewrite p addr n s =
     obind (uread (nat n) addr s) (\<lambda>bs.
       case pipewrite (p_killed (myproc s)) (\<lambda>i. bs ! i) n (pipes s p) of
         PW_Sleep _ _ _ \<Rightarrow> Sleep (Chan_Nwrite (unat p))
       | PW_Return r q ws \<Rightarrow> Done (r, fold (wakeup_pipe p) ws (s\<lparr>pipes := (pipes s)(p := q)\<rparr>)))"

section \<open>Operations on open files\<close>

definition ENOENT :: int where "ENOENT = -2"
definition EBADF :: int where "EBADF = -9"
definition EFBIG :: int where "EFBIG = -27"

text \<open>\<open>struct stat\<close> in memory: the fields at their offsets, with the padding left alone.\<close>

definition put_stat :: "u32 \<Rightarrow> stat \<Rightarrow> kstate \<Rightarrow> kstate outcome" where
  "put_stat st x s =
     obind (uwrite (bytes_of_u16 (st_type x)) st s) (\<lambda>s.
     obind (uwrite (bytes_of_u32 (st_dev x)) (st + 4) s) (\<lambda>s.
     obind (uwrite (bytes_of_u32 (st_ino x)) (st + 8) s) (\<lambda>s.
     obind (uwrite (bytes_of_u16 (st_nlink x)) (st + 12) s) (\<lambda>s.
     obind (uwrite (bytes_of_u32 (st_mtime x)) (st + 16) s) (\<lambda>s.
     uwrite (bytes_of_u32 (st_size x)) (st + 20) s)))))"

definition sizeof_stat :: nat where "sizeof_stat = 24"

definition filestat :: "nat \<Rightarrow> u32 \<Rightarrow> kstate \<Rightarrow> (int \<times> kstate) outcome" where
  "filestat f st s =
     (let x = ftable s f in
      case f_type x of
        FD_INODE \<Rightarrow>
          obind (ilock (f_ip x) s) (\<lambda>s.
          obind (put_stat st (stati (the (f_ip x)) s) s) (\<lambda>s.
          obind (iunlock (f_ip x) s) (\<lambda>s.
          Done (0, s))))
      | FD_PIPE \<Rightarrow>
          obind (uwrite (replicate sizeof_stat 0) st s) (\<lambda>s.
          obind (uwrite (bytes_of_u16 T_PIPE) st s) (\<lambda>s.
          obind (uwrite (bytes_of_u32 (of_nat PIPESIZE)) (st + 20) s) (\<lambda>s.
          Done (0, s))))
      | FD_NONE \<Rightarrow> Done (ENOENT, s))"

definition fileread :: "nat \<Rightarrow> u32 \<Rightarrow> u32 \<Rightarrow> kstate \<Rightarrow> (int \<times> kstate) outcome" where
  "fileread f addr n s =
     (let x = ftable s f in
      if \<not> readable x then Done (EBADF, s)
      else case f_type x of
        FD_PIPE \<Rightarrow> k_piperead (f_pipe x) addr (sint n) s
      | FD_INODE \<Rightarrow>
          obind (ilock (f_ip x) s) (\<lambda>s.
          obind (readi devsw_table (the (f_ip x)) (f_off x) n s) (\<lambda>(r, bs, s).
          obind (uwrite bs addr s) (\<lambda>s.
            let s = (if r > 0 then upd_file f (\<lambda>x. x\<lparr>f_off := f_off x + of_int r\<rparr>) s else s) in
          obind (iunlock (f_ip x) s) (\<lambda>s.
          Done (r, s)))))
      | FD_NONE \<Rightarrow> Panic ''fileread'')"

text \<open>The number of bytes that \<open>filewrite\<close> writes in one transaction.\<close>

definition filewrite_max :: nat where "filewrite_max = ((LOGSIZE - 1 - 1 - 2) div 2) * 512"

text \<open>
  The loop of \<open>filewrite\<close>: \<open>i\<close> bytes of \<open>n\<close> are written; the result is the value of \<open>i\<close> at the end.
\<close>

function filewrite_loop :: "nat \<Rightarrow> u32 \<Rightarrow> nat \<Rightarrow> nat \<Rightarrow> kstate \<Rightarrow> (nat \<times> kstate) outcome" where
  "filewrite_loop f addr n i s =
     (if i < n
      then
        let n1 = min (n - i) filewrite_max in
        obind (begin_op s) (\<lambda>s.
        obind (ilock (f_ip (ftable s f)) s) (\<lambda>s.
        obind (uread n1 (addr + of_nat i) s) (\<lambda>bs.
        obind (writei devsw_table (the (f_ip (ftable s f))) (\<lambda>j. bs ! j) (f_off (ftable s f)) (of_nat n1) s) (\<lambda>(r, s).
          let s = (if r > 0 then upd_file f (\<lambda>x. x\<lparr>f_off := f_off x + of_int r\<rparr>) s else s) in
        obind (iunlock (f_ip (ftable s f)) s) (\<lambda>s.
        obind (end_op s) (\<lambda>s.
          if r < 0 then Done (i, s)
          else if r \<noteq> int n1 then Panic ''short filewrite''
          else filewrite_loop f addr n (i + n1) s))))))
      else Done (i, s))"
  by auto
termination
  by (relation "measure (\<lambda>(f, addr, n, i, s). n - i)") (auto simp: filewrite_max_def layout_defs)

declare filewrite_loop.simps [simp del]

definition filewrite :: "nat \<Rightarrow> u32 \<Rightarrow> u32 \<Rightarrow> kstate \<Rightarrow> (int \<times> kstate) outcome" where
  "filewrite f addr n s =
     (let x = ftable s f in
      if \<not> writable x then Done (EBADF, s)
      else case f_type x of
        FD_PIPE \<Rightarrow> k_pipewrite (f_pipe x) addr (sint n) s
      | FD_INODE \<Rightarrow>
          obind (filewrite_loop f addr (nat (sint n)) 0 s) (\<lambda>(i, s).
          Done (if int i = sint n then sint n else EFBIG, s))
      | FD_NONE \<Rightarrow> Panic ''filewrite'')"

section \<open>Paths of the running process\<close>

definition k_namei :: "bytes \<Rightarrow> kstate \<Rightarrow> (nat option \<times> kstate) outcome" where
  "k_namei path s =
     (case p_cwd (myproc s) of
        Some c \<Rightarrow> namei devsw_table c path s
      | None \<Rightarrow> if path \<noteq> [] \<and> hd path = 47 then namei devsw_table 0 path s else Panic ''trap'')"

text \<open>The buffer for the last element is not initialised; what lies behind its NUL is never used.\<close>

definition k_nameiparent :: "bytes \<Rightarrow> kstate \<Rightarrow> (nat option \<times> bytes \<times> kstate) outcome" where
  "k_nameiparent path s =
     (case p_cwd (myproc s) of
        Some c \<Rightarrow> nameiparent devsw_table c path (replicate DIRSIZ 0) s
      | None \<Rightarrow> if path \<noteq> [] \<and> hd path = 47 then nameiparent devsw_table 0 path (replicate DIRSIZ 0) s
          else Panic ''trap'')"

end
