(* ===== verification/Exec.thy ===== *)
theory Exec
  imports File
begin

text \<open>
  Program loading: \<open>kern/exec.c\<close>, with \<open>loaduvm\<close> of \<open>kern/vm.c\<close> and the headers of \<open>include/xv6/elf.h\<close>. The
  argument strings are lists of bytes without the terminating NUL.
\<close>

section \<open>Headers\<close>

definition ELF_MAGIC :: u32 where "ELF_MAGIC = 0x464C457F"
definition ELF_PROG_LOAD :: u32 where "ELF_PROG_LOAD = 1"

record elfhdr =
  eh_magic :: u32
  eh_entry :: u32
  eh_phoff :: u32
  eh_phnum :: u16

definition sizeof_elfhdr :: nat where "sizeof_elfhdr = 52"

definition elfhdr_of :: "bytes \<Rightarrow> elfhdr" where
  "elfhdr_of d = \<lparr>eh_magic = get32 0 d, eh_entry = get32 24 d, eh_phoff = get32 28 d, eh_phnum = get16 44 d\<rparr>"

record proghdr =
  ph_type :: u32
  ph_off :: u32
  ph_vaddr :: u32
  ph_filesz :: u32
  ph_memsz :: u32

definition sizeof_proghdr :: nat where "sizeof_proghdr = 32"

definition proghdr_of :: "bytes \<Rightarrow> proghdr" where
  "proghdr_of d = \<lparr>ph_type = get32 0 d, ph_off = get32 4 d, ph_vaddr = get32 8 d, ph_filesz = get32 16 d, ph_memsz = get32 20 d\<rparr>"

section \<open>Loading a segment\<close>

text \<open>The offset \<open>i\<close> in the segment is counted in \<open>nat\<close>.\<close>

function loaduvm_loop :: "u32 \<Rightarrow> u32 \<Rightarrow> nat \<Rightarrow> u32 \<Rightarrow> nat \<Rightarrow> nat \<Rightarrow> kstate \<Rightarrow> (int \<times> kstate) outcome" where
  "loaduvm_loop pgdir addr ip offset sz i s =
     (if i < sz
      then
        let pte = fst (walkpgdir pgdir (addr + of_nat i) False (km s)) in
        if pte = 0 then Panic ''loaduvm: address should exist''
        else
          let pa = PTE_ADDR (load32 (kmem_mem (km s)) pte);
              n = (if sz - i < 4096 then sz - i else 4096)
          in obind (readi devsw_table ip (offset + of_nat i) (of_nat n) s) (\<lambda>(r, bs, s).
               let s = s\<lparr>km := (km s)\<lparr>kmem_mem := store_bytes (p2v pa) bs (kmem_mem (km s))\<rparr>\<rparr> in
               if r \<noteq> int n then Done (-1, s)
               else loaduvm_loop pgdir addr ip offset sz (i + 4096) s)
      else Done (0, s))"
  by auto
termination
  by (relation "measure (\<lambda>(pgdir, addr, ip, offset, sz, i, s). sz - i)") auto

definition loaduvm :: "u32 \<Rightarrow> u32 \<Rightarrow> nat \<Rightarrow> u32 \<Rightarrow> u32 \<Rightarrow> kstate \<Rightarrow> (int \<times> kstate) outcome" where
  "loaduvm pgdir addr ip offset sz s =
     (if addr mod PGSIZE \<noteq> 0 then Panic ''loaduvm: addr must be page aligned''
      else loaduvm_loop pgdir addr ip offset (unat sz) 0 s)"

section \<open>The new image\<close>

text \<open>The label \<open>bad\<close> of \<open>exec\<close>.\<close>

definition exec_bad :: "u32 \<Rightarrow> nat option \<Rightarrow> kstate \<Rightarrow> (int \<times> kstate) outcome" where
  "exec_bad pgdir ip s =
     obind (if pgdir \<noteq> 0 then on_km' (freevm pgdir) s else Done s) (\<lambda>s.
     case ip of
       Some ip \<Rightarrow> obind (iunlockput ip s) (\<lambda>s. obind (end_op s) (\<lambda>s. Done (-1, s)))
     | None \<Rightarrow> Done (-1, s))"

text \<open>
  The loop over the program headers: \<open>k\<close> more of them, the next at \<open>off\<close>; the result is the size of the
  process, or \<open>None\<close> where the code jumps to \<open>bad\<close>.
\<close>

primrec exec_load :: "nat \<Rightarrow> u32 \<Rightarrow> nat \<Rightarrow> u32 \<Rightarrow> u32 \<Rightarrow> kstate \<Rightarrow> (u32 option \<times> kstate) outcome" where
  "exec_load 0 pgdir ip off sz s = Done (Some sz, s)"
| "exec_load (Suc k) pgdir ip off sz s =
     obind (readi devsw_table ip off (of_nat sizeof_proghdr) s) (\<lambda>(r, d, s).
       if r \<noteq> int sizeof_proghdr then Done (None, s)
       else
         let ph = proghdr_of d; off = off + of_nat sizeof_proghdr in
         if ph_type ph \<noteq> ELF_PROG_LOAD then exec_load k pgdir ip off sz s
         else if ph_memsz ph < ph_filesz ph then Done (None, s)
         else
           obind (on_km (allocuvm pgdir sz (ph_vaddr ph + ph_memsz ph)) s) (\<lambda>(sz, s).
             if sz = 0 then Done (None, s)
             else
               obind (loaduvm pgdir (ph_vaddr ph) ip (ph_off ph) (ph_filesz ph) s) (\<lambda>(r, s).
                 if r < 0 then Done (None, s) else exec_load k pgdir ip off sz s)))"

text \<open>
  The loop that pushes the argument strings: \<open>argc\<close> of them are pushed, at the addresses \<open>us\<close>.
\<close>

primrec exec_args :: "bytes list \<Rightarrow> nat \<Rightarrow> u32 \<Rightarrow> u32 \<Rightarrow> u32 list \<Rightarrow> kstate \<Rightarrow> ((u32 \<times> u32 list) option \<times> kstate) outcome" where
  "exec_args [] argc pgdir sp us s = Done (Some (sp, us), s)"
| "exec_args (a # as) argc pgdir sp us s =
     (if argc \<ge> MAXARG then Done (None, s)
      else
        let sp = (sp - of_nat (length a + 1)) AND NOT 3 in
        case copyout pgdir sp (a @ [0]) (km s) of (r, k) \<Rightarrow>
          let s = s\<lparr>km := k\<rparr> in
          if r < 0 then Done (None, s) else exec_args as (Suc argc) pgdir sp (us @ [sp]) s)"

text \<open>The words that end up on top of the argument strings.\<close>

definition exec_ustack :: "u32 \<Rightarrow> u32 list \<Rightarrow> u32 list" where
  "exec_ustack sp us = [0xffffffff, of_nat (length us), sp - of_nat (length us + 1) * 4] @ us @ [0]"

text \<open>The last element of the path, for the name of the process.\<close>

definition last_elem :: "bytes \<Rightarrow> bytes" where
  "last_elem path = rev (takeWhile (\<lambda>c. c \<noteq> 47) (rev path))"

definition exec_commit :: "u32 \<Rightarrow> u32 \<Rightarrow> u32 \<Rightarrow> u32 \<Rightarrow> bytes \<Rightarrow> kstate \<Rightarrow> (int \<times> kstate) outcome" where
  "exec_commit pgdir sz entry sp path s =
     (case cur s of
        None \<Rightarrow> Panic ''trap''
      | Some p \<Rightarrow>
          let s = upd_proc p (\<lambda>x. x\<lparr>p_name := patch 0 (safestrcpy (cstr (last_elem path)) 16) (p_name x)\<rparr>) s;
              oldpgdir = p_pgdir (ptable s p);
              s = upd_proc p (\<lambda>x. x\<lparr>p_pgdir := pgdir, p_sz := sz,
                    p_tf := (p_tf x)\<lparr>tf_eip := entry, tf_esp := sp\<rparr>\<rparr>) s
          in obind (switchuvm p s) (\<lambda>s.
             obind (on_km' (freevm oldpgdir) s) (\<lambda>s.
             Done (0, s))))"

definition exec_stack :: "u32 \<Rightarrow> u32 \<Rightarrow> u32 \<Rightarrow> bytes \<Rightarrow> bytes list \<Rightarrow> kstate \<Rightarrow> (int \<times> kstate) outcome" where
  "exec_stack pgdir sz entry path argv s =
     (let sz = PGROUNDUP sz; stack = of_nat USTACKPAGES * PGSIZE in
      obind (on_km (allocuvm pgdir sz (sz + stack)) s) (\<lambda>(sz, s).
        if sz = 0 then exec_bad pgdir None s
        else
          obind (on_km' (clearpteu pgdir (sz - stack)) s) (\<lambda>s.
          obind (exec_args argv 0 pgdir sz [] s) (\<lambda>(r, s).
            case r of
              None \<Rightarrow> exec_bad pgdir None s
            | Some (sp, us) \<Rightarrow>
                let ws = exec_ustack sp us;
                    sp = sp - of_nat (3 + length us + 1) * 4
                in case copyout pgdir sp (concat (map bytes_of_u32 ws)) (km s) of (r, k) \<Rightarrow>
                     let s = s\<lparr>km := k\<rparr> in
                     if r < 0 then exec_bad pgdir None s else exec_commit pgdir sz entry sp path s))))"

text \<open>
  \<open>exec\<close>; \<open>elf0\<close> is what the variable \<open>elf\<close> holds before it is read. The comparison of the result of
  \<open>readi\<close> with \<open>sizeof(elf)\<close> is unsigned, so that the error result passes it.
\<close>

definition exec :: "bytes \<Rightarrow> bytes \<Rightarrow> bytes list \<Rightarrow> kstate \<Rightarrow> (int \<times> kstate) outcome" where
  "exec elf0 path argv s =
     obind (begin_op s) (\<lambda>s.
     obind (k_namei path s) (\<lambda>(r, s).
       case r of
         None \<Rightarrow> obind (end_op s) (\<lambda>s. Done (-1, s))
       | Some ip \<Rightarrow>
           obind (ilock (Some ip) s) (\<lambda>s.
           obind (readi devsw_table ip 0 (of_nat sizeof_elfhdr) s) (\<lambda>(r, d, s).
             let elf = elfhdr_of (patch 0 d elf0) in
             if (of_int r :: u32) < of_nat sizeof_elfhdr then exec_bad 0 (Some ip) s
             else if eh_magic elf \<noteq> ELF_MAGIC then exec_bad 0 (Some ip) s
             else
               obind (on_km (setupkvm (kdata s)) s) (\<lambda>(pgdir, s).
                 if pgdir = 0 then exec_bad 0 (Some ip) s
                 else
                   obind (exec_load (unat (eh_phnum elf)) pgdir ip (eh_phoff elf) 0 s) (\<lambda>(r, s).
                     case r of
                       None \<Rightarrow> exec_bad pgdir (Some ip) s
                     | Some sz \<Rightarrow>
                         obind (iunlockput ip s) (\<lambda>s.
                         obind (end_op s) (\<lambda>s.
                         exec_stack pgdir sz (eh_entry elf) path argv s))))))))"

declare loaduvm_loop.simps [simp del]

end
