(* ===== verification/Spinlock.thy ===== *)
theory Spinlock
  imports Layout
begin

text \<open>
  \<open>kern/spinlock.c\<close>: spin locks and nested disabling of interrupts. Every operation is a function of
  the CPU that runs it. Since CPUs run concurrently, \<open>acquire\<close> and \<open>release\<close> are also split at their
  atomic instructions into a step relation, whose reachable states satisfy mutual exclusion.
\<close>

section \<open>State\<close>

record cpu =
  ncli :: int
  intena :: bool
  if_flag :: bool

text \<open>\<open>lk_cpu\<close> is the index of the holding CPU, \<open>None\<close> for the null pointer.\<close>

record spinlock =
  lk_name :: string
  locked :: u32
  lk_cpu :: "nat option"
  lk_pcs :: "u32 list"

record 'l smp =
  cpus :: "nat \<Rightarrow> cpu"
  locks :: "'l \<Rightarrow> spinlock"

abbreviation upd_cpu :: "nat \<Rightarrow> (cpu \<Rightarrow> cpu) \<Rightarrow> ('l, 'a) smp_scheme \<Rightarrow> ('l, 'a) smp_scheme" where
  "upd_cpu c f s \<equiv> s\<lparr>cpus := (cpus s)(c := f (cpus s c))\<rparr>"

abbreviation upd_lock :: "'l \<Rightarrow> (spinlock \<Rightarrow> spinlock) \<Rightarrow> ('l, 'a) smp_scheme \<Rightarrow> ('l, 'a) smp_scheme" where
  "upd_lock l f s \<equiv> s\<lparr>locks := (locks s)(l := f (locks s l))\<rparr>"

section \<open>Operations\<close>

definition initlock :: "'l \<Rightarrow> string \<Rightarrow> ('l, 'a) smp_scheme \<Rightarrow> ('l, 'a) smp_scheme" where
  "initlock lk nm s = upd_lock lk (\<lambda>x. x\<lparr>lk_name := nm, locked := 0, lk_cpu := None\<rparr>) s"

definition holding :: "nat \<Rightarrow> 'l \<Rightarrow> ('l, 'a) smp_scheme \<Rightarrow> bool" where
  "holding c lk s \<longleftrightarrow> locked (locks s lk) \<noteq> 0 \<and> lk_cpu (locks s lk) = Some c"

definition pushcli :: "nat \<Rightarrow> ('l, 'a) smp_scheme \<Rightarrow> ('l, 'a) smp_scheme" where
  "pushcli c s =
     (let eflags = if_flag (cpus s c);
          s = upd_cpu c (\<lambda>x. x\<lparr>if_flag := False\<rparr>) s;
          first = (ncli (cpus s c) = 0);
          s = upd_cpu c (\<lambda>x. x\<lparr>ncli := ncli x + 1\<rparr>) s
      in if first then upd_cpu c (\<lambda>x. x\<lparr>intena := eflags\<rparr>) s else s)"

definition popcli :: "nat \<Rightarrow> ('l, 'a) smp_scheme \<Rightarrow> ('l, 'a) smp_scheme outcome" where
  "popcli c s =
     (if if_flag (cpus s c) then Panic ''popcli - interruptible''
      else
        let s = upd_cpu c (\<lambda>x. x\<lparr>ncli := ncli x - 1\<rparr>) s in
        if ncli (cpus s c) < 0 then Panic ''popcli''
        else if ncli (cpus s c) = 0 \<and> intena (cpus s c) then Done (upd_cpu c (\<lambda>x. x\<lparr>if_flag := True\<rparr>) s)
        else Done s)"

text \<open>The atomic exchange of \<open>include/xv6/x86.h\<close> on the \<open>locked\<close> word of a lock.\<close>

definition xchg :: "'l \<Rightarrow> u32 \<Rightarrow> ('l, 'a) smp_scheme \<Rightarrow> u32 \<times> ('l, 'a) smp_scheme" where
  "xchg lk v s = (locked (locks s lk), upd_lock lk (\<lambda>x. x\<lparr>locked := v\<rparr>) s)"

text \<open>
  \<open>getcallerpcs\<close> follows the chain of saved frame pointers; \<open>rd\<close> reads a word of kernel memory and
  \<open>k\<close> entries are still to be filled.
\<close>

primrec getcallerpcs_loop :: "(u32 \<Rightarrow> u32) \<Rightarrow> nat \<Rightarrow> u32 \<Rightarrow> u32 list" where
  "getcallerpcs_loop rd 0 ebp = []"
| "getcallerpcs_loop rd (Suc k) ebp =
     (if ebp = 0 \<or> ebp < KERNBASE \<or> ebp = 0xffffffff then replicate (Suc k) 0
      else rd (ebp + 4) # getcallerpcs_loop rd k (rd ebp))"

definition getcallerpcs :: "(u32 \<Rightarrow> u32) \<Rightarrow> u32 \<Rightarrow> u32 list" where
  "getcallerpcs rd v = getcallerpcs_loop rd 10 (v - 8)"

text \<open>
  A whole \<open>acquire\<close> with no other CPU in between: if the lock is taken, the loop never ends.
  \<open>v\<close> is the address of the argument on the stack.
\<close>

definition acquire :: "nat \<Rightarrow> (u32 \<Rightarrow> u32) \<Rightarrow> u32 \<Rightarrow> 'l \<Rightarrow> ('l, 'a) smp_scheme \<Rightarrow> ('l, 'a) smp_scheme outcome" where
  "acquire c rd v lk s =
     (let s = pushcli c s in
      if holding c lk s then Panic ''acquire''
      else case xchg lk 1 s of (old, s) \<Rightarrow>
        if old \<noteq> 0 then Diverge
        else Done (upd_lock lk (\<lambda>x. x\<lparr>lk_cpu := Some c, lk_pcs := getcallerpcs rd v\<rparr>) s))"

definition release :: "nat \<Rightarrow> 'l \<Rightarrow> ('l, 'a) smp_scheme \<Rightarrow> ('l, 'a) smp_scheme outcome" where
  "release c lk s =
     (if \<not> holding c lk s then Panic ''release''
      else
        let s = upd_lock lk (\<lambda>x. x\<lparr>lk_pcs := (lk_pcs x)[0 := 0]\<rparr>) s;
            s = upd_lock lk (\<lambda>x. x\<lparr>lk_cpu := None\<rparr>) s;
            s = snd (xchg lk 0 s)
        in popcli c s)"

section \<open>Concurrent CPUs\<close>

text \<open>
  Where a CPU is: outside both functions, in the \<open>xchg\<close> loop of \<open>acquire\<close>, past it, or between the
  assignments of \<open>release\<close> and its \<open>xchg\<close>. \<open>held\<close> records which locks a CPU has acquired, \<open>pushes\<close> how
  often it called \<open>pushcli\<close> on its own.
\<close>

datatype 'l pc = Run | Spin 'l | Won 'l | Clear 'l

record 'l conc = "'l smp" +
  pcs :: "nat \<Rightarrow> 'l pc"
  held :: "nat \<Rightarrow> 'l set"
  pushes :: "nat \<Rightarrow> nat"

inductive lock_step :: "'l conc \<Rightarrow> 'l conc \<Rightarrow> bool" where
  acquire_enter:
    "pcs s c = Run \<Longrightarrow> \<not> holding c lk (pushcli c s) \<Longrightarrow>
     lock_step s ((pushcli c s)\<lparr>pcs := (pcs s)(c := Spin lk)\<rparr>)"
| acquire_xchg:
    "pcs s c = Spin lk \<Longrightarrow> xchg lk 1 s = (old, t) \<Longrightarrow>
     lock_step s (t\<lparr>pcs := (pcs s)(c := if old \<noteq> 0 then Spin lk else Won lk)\<rparr>)"
| acquire_record:
    "pcs s c = Won lk \<Longrightarrow>
     lock_step s ((upd_lock lk (\<lambda>x. x\<lparr>lk_cpu := Some c, lk_pcs := p\<rparr>) s)
       \<lparr>pcs := (pcs s)(c := Run), held := (held s)(c := insert lk (held s c))\<rparr>)"
| release_enter:
    "pcs s c = Run \<Longrightarrow> holding c lk s \<Longrightarrow>
     lock_step s ((upd_lock lk (\<lambda>x. x\<lparr>lk_pcs := (lk_pcs x)[0 := 0], lk_cpu := None\<rparr>) s)
       \<lparr>pcs := (pcs s)(c := Clear lk), held := (held s)(c := held s c - {lk})\<rparr>)"
| release_xchg:
    "pcs s c = Clear lk \<Longrightarrow> popcli c (snd (xchg lk 0 s)) = Done t \<Longrightarrow>
     lock_step s (t\<lparr>pcs := (pcs s)(c := Run)\<rparr>)"
| push:
    "pcs s c = Run \<Longrightarrow> lock_step s ((pushcli c s)\<lparr>pushes := (pushes s)(c := pushes s c + 1)\<rparr>)"
| pop:
    "pcs s c = Run \<Longrightarrow> 0 < pushes s c \<Longrightarrow> popcli c s = Done t \<Longrightarrow>
     lock_step s (t\<lparr>pushes := (pushes s)(c := pushes s c - 1)\<rparr>)"

text \<open>The state after boot: no lock is taken and no CPU is inside one of the functions.\<close>

definition lock_init :: "'l conc \<Rightarrow> bool" where
  "lock_init s \<longleftrightarrow>
     (\<forall>l. locked (locks s l) = 0 \<and> lk_cpu (locks s l) = None) \<and>
     (\<forall>c. pcs s c = Run \<and> held s c = {} \<and> pushes s c = 0 \<and> ncli (cpus s c) = 0)"

inductive lock_reach :: "'l conc \<Rightarrow> bool" where
  init: "lock_init s \<Longrightarrow> lock_reach s"
| step: "lock_reach s \<Longrightarrow> lock_step s t \<Longrightarrow> lock_reach t"

section \<open>Invariant\<close>

definition owns :: "'l conc \<Rightarrow> nat \<Rightarrow> 'l \<Rightarrow> bool" where
  "owns s c l \<longleftrightarrow> l \<in> held s c \<or> pcs s c = Won l \<or> pcs s c = Clear l"

definition lock_inv :: "'l conc \<Rightarrow> bool" where
  "lock_inv s \<longleftrightarrow>
     (\<forall>l. locked (locks s l) \<noteq> 0 \<longleftrightarrow> (\<exists>c. owns s c l)) \<and>
     (\<forall>l c d. owns s c l \<longrightarrow> owns s d l \<longrightarrow> c = d) \<and>
     (\<forall>l c. lk_cpu (locks s l) = Some c \<longleftrightarrow> l \<in> held s c) \<and>
     (\<forall>c l. pcs s c = Won l \<or> pcs s c = Clear l \<longrightarrow> l \<notin> held s c) \<and>
     (\<forall>c. finite (held s c)) \<and>
     (\<forall>c. ncli (cpus s c) = int (card (held s c) + pushes s c + (if pcs s c = Run then 0 else 1))) \<and>
     (\<forall>c. 0 < ncli (cpus s c) \<longrightarrow> \<not> if_flag (cpus s c))"

lemma lock_invD:
  assumes "lock_inv s"
  shows "locked (locks s l) \<noteq> 0 \<longleftrightarrow> (\<exists>c. owns s c l)" "owns s c l \<Longrightarrow> owns s d l \<Longrightarrow> c = d"
    "lk_cpu (locks s l) = Some c \<longleftrightarrow> l \<in> held s c" "pcs s c = Won l \<or> pcs s c = Clear l \<Longrightarrow> l \<notin> held s c"
    "finite (held s c)"
    "ncli (cpus s c) = int (card (held s c) + pushes s c + (if pcs s c = Run then 0 else 1))"
    "0 < ncli (cpus s c) \<Longrightarrow> \<not> if_flag (cpus s c)"
  using assms unfolding lock_inv_def by blast+

lemma lock_inv_init: "lock_init s \<Longrightarrow> lock_inv s"
  by (simp add: lock_init_def lock_inv_def owns_def)

lemma pushcli_fields [simp]:
  "locks (pushcli c s) = locks s" "smp.more (pushcli c s) = smp.more s"
  "ncli (cpus (pushcli c s) d) = (if d = c then ncli (cpus s c) + 1 else ncli (cpus s d))"
  "if_flag (cpus (pushcli c s) d) = (d \<noteq> c \<and> if_flag (cpus s d))"
  by (simp_all add: pushcli_def Let_def)

lemma conc_more:
  assumes "smp.more t = smp.more s"
  shows "pcs t = pcs s" "held t = held s" "pushes t = pushes s"
  using assms by (cases s; cases t; simp)+

lemma popcli_Done:
  assumes "popcli c s = Done t"
  shows "locks t = locks s" "smp.more t = smp.more s"
    "ncli (cpus t d) = (if d = c then ncli (cpus s c) - 1 else ncli (cpus s d))"
    "d \<noteq> c \<Longrightarrow> if_flag (cpus t d) = if_flag (cpus s d)"
    "if_flag (cpus t c) \<Longrightarrow> ncli (cpus t c) = 0"
  using assms by (auto simp: popcli_def Let_def split: if_splits)

text \<open>A step that leaves ownership and the locks alone.\<close>

lemma lock_inv_same_owners:
  assumes i: "lock_inv s" and l: "locks t = locks s" and h: "held t = held s" and o: "owns t = owns s"
    and p: "\<And>d l. pcs t d = Won l \<or> pcs t d = Clear l \<Longrightarrow> pcs s d = pcs t d"
    and n: "\<And>d. ncli (cpus t d) = int (card (held s d) + pushes t d + (if pcs t d = Run then 0 else 1))"
    and f: "\<And>d. 0 < ncli (cpus t d) \<Longrightarrow> \<not> if_flag (cpus t d)"
  shows "lock_inv t"
proof -
  have "pcs t d = Won k \<or> pcs t d = Clear k \<longrightarrow> k \<notin> held s d" for d k
    using lock_invD(4) [OF i, of d k] p [of d k] by auto
  then show ?thesis
    using i n f unfolding lock_inv_def l h o by (intro conjI) simp_all
qed

lemma lock_inv_acquire_enter:
  assumes i: "lock_inv s" and c: "pcs s c = Run"
  shows "lock_inv ((pushcli c s)\<lparr>pcs := (pcs s)(c := Spin lk)\<rparr>)"
  using conc_more [of "pushcli c s" s] c
  by (intro lock_inv_same_owners [OF i])
    (auto simp: owns_def fun_eq_iff lock_invD(6,7) [OF i] split: if_splits)

lemma lock_inv_push:
  assumes i: "lock_inv s" and c: "pcs s c = Run"
  shows "lock_inv ((pushcli c s)\<lparr>pushes := (pushes s)(c := pushes s c + 1)\<rparr>)"
  using conc_more [of "pushcli c s" s] c
  by (intro lock_inv_same_owners [OF i])
    (auto simp: owns_def fun_eq_iff lock_invD(6,7) [OF i] split: if_splits)

lemma lock_inv_pop:
  assumes i: "lock_inv s" and c: "pcs s c = Run" "0 < pushes s c" "popcli c s = Done t"
  shows "lock_inv (t\<lparr>pushes := (pushes s)(c := pushes s c - 1)\<rparr>)"
proof -
  note q = popcli_Done [OF c(3)] and m = conc_more [OF popcli_Done(2) [OF c(3)]]
  show ?thesis
  proof (rule lock_inv_same_owners [OF i])
    show "\<not> if_flag (cpus (t\<lparr>pushes := (pushes s)(c := pushes s c - 1)\<rparr>) d)"
      if "0 < ncli (cpus (t\<lparr>pushes := (pushes s)(c := pushes s c - 1)\<rparr>) d)" for d
      using that q(3) [of d] q(4) [of d] q(5) lock_invD(7) [OF i, of d] by (cases "d = c") auto
  qed (use q m c lock_invD(6) [OF i] in \<open>auto simp: owns_def fun_eq_iff\<close>)
qed

lemma lock_inv_xchg:
  assumes i: "lock_inv s" and c: "pcs s c = Spin lk" and x: "xchg lk 1 s = (old, t)"
  shows "lock_inv (t\<lparr>pcs := (pcs s)(c := if old \<noteq> 0 then Spin lk else Won lk)\<rparr>)"
proof -
  have t: "old = locked (locks s lk)" "t = upd_lock lk (\<lambda>x. x\<lparr>locked := 1\<rparr>) s"
    using x by (simp_all add: xchg_def)
  let ?t = "t\<lparr>pcs := (pcs s)(c := if old \<noteq> 0 then Spin lk else Won lk)\<rparr>"
  note d = lock_invD [OF i]
  have o: "owns ?t e l \<longleftrightarrow> owns s e l \<or> (old = 0 \<and> e = c \<and> l = lk)" for e l
    using c by (auto simp: owns_def t)
  have nolk: "\<not> owns s e lk" if "old = 0" for e using d(1) [of lk] that t(1) by auto
  show ?thesis
    unfolding lock_inv_def
  proof (intro conjI allI)
    show "(locked (locks ?t l) \<noteq> 0) = (\<exists>c. owns ?t c l)" for l
      using d(1) [of l] o t by auto
    show "owns ?t e l \<longrightarrow> owns ?t e' l \<longrightarrow> e = e'" for l e e'
      using o nolk d(2) by metis
    show "(lk_cpu (locks ?t l) = Some e) = (l \<in> held ?t e)" for l e
      using d(3) [of l e] by (cases "l = lk") (auto simp: t)
    show "pcs ?t e = Won l \<or> pcs ?t e = Clear l \<longrightarrow> l \<notin> held ?t e" for e l
      using d(4) [of e l] nolk [of e] by (auto simp: t owns_def)
    show "finite (held ?t e)" for e using d(5) by (simp add: t)
    show "ncli (cpus ?t e) = int (card (held ?t e) + pushes ?t e + (if pcs ?t e = Run then 0 else 1))" for e
      using d(6) [of e] c by (simp add: t)
    show "0 < ncli (cpus ?t e) \<longrightarrow> \<not> if_flag (cpus ?t e)" for e
      using d(7) [of e] by (simp add: t)
  qed
qed

lemma lock_inv_record:
  assumes i: "lock_inv s" and c: "pcs s c = Won lk"
  shows "lock_inv ((upd_lock lk (\<lambda>x. x\<lparr>lk_cpu := Some c, lk_pcs := p\<rparr>) s)
    \<lparr>pcs := (pcs s)(c := Run), held := (held s)(c := insert lk (held s c))\<rparr>)" (is "lock_inv ?t")
proof -
  note d = lock_invD [OF i]
  have o: "owns ?t e l \<longleftrightarrow> owns s e l" for e l using c by (auto simp: owns_def)
  have own: "owns s c lk" using c by (simp add: owns_def)
  have nh: "lk \<notin> held s e" for e
    using d(2) [OF own, of e] d(4) [of c lk] c unfolding owns_def by blast
  show ?thesis
    unfolding lock_inv_def o
  proof (intro conjI allI)
    show "(locked (locks ?t l) \<noteq> 0) = (\<exists>c. owns s c l)" for l
      using d(1) [of l] by (cases "l = lk") auto
    show "owns s e l \<longrightarrow> owns s e' l \<longrightarrow> e = e'" for l e e' using d(2) by blast
    show "(lk_cpu (locks ?t l) = Some e) = (l \<in> held ?t e)" for l e
      using d(3) [of l e] nh by auto
    show "pcs ?t e = Won l \<or> pcs ?t e = Clear l \<longrightarrow> l \<notin> held ?t e" for e l
      using d(4) [of e l] by auto
    show "finite (held ?t e)" for e using d(5) by simp
    show "ncli (cpus ?t e) = int (card (held ?t e) + pushes ?t e + (if pcs ?t e = Run then 0 else 1))" for e
      using d(6) [of e] c d(5) nh by simp
    show "0 < ncli (cpus ?t e) \<longrightarrow> \<not> if_flag (cpus ?t e)" for e using d(7) [of e] by simp
  qed
qed

lemma lock_inv_release_enter:
  assumes i: "lock_inv s" and c: "pcs s c = Run" and h: "holding c lk s"
  shows "lock_inv ((upd_lock lk (\<lambda>x. x\<lparr>lk_pcs := (lk_pcs x)[0 := 0], lk_cpu := None\<rparr>) s)
    \<lparr>pcs := (pcs s)(c := Clear lk), held := (held s)(c := held s c - {lk})\<rparr>)" (is "lock_inv ?t")
proof -
  note d = lock_invD [OF i]
  have hl: "lk \<in> held s c" using h d(3) by (simp add: holding_def)
  have o: "owns ?t e l \<longleftrightarrow> owns s e l" for e l using c hl by (auto simp: owns_def)
  have nh: "e = c" if "lk \<in> held s e" for e
    using d(2) [of e lk c] that hl unfolding owns_def by blast
  show ?thesis
    unfolding lock_inv_def o
  proof (intro conjI allI)
    show "(locked (locks ?t l) \<noteq> 0) = (\<exists>c. owns s c l)" for l
      using d(1) [of l] by (cases "l = lk") auto
    show "owns s e l \<longrightarrow> owns s e' l \<longrightarrow> e = e'" for l e e' using d(2) by blast
    show "(lk_cpu (locks ?t l) = Some e) = (l \<in> held ?t e)" for l e
      using d(3) [of l e] nh by auto
    show "pcs ?t e = Won l \<or> pcs ?t e = Clear l \<longrightarrow> l \<notin> held ?t e" for e l
      using d(4) [of e l] by auto
    show "finite (held ?t e)" for e using d(5) by simp
    have "0 < card (held s c)" using hl d(5) by (auto simp: card_gt_0_iff)
    then show "ncli (cpus ?t e) = int (card (held ?t e) + pushes ?t e + (if pcs ?t e = Run then 0 else 1))" for e
      using d(6) [of e] c d(5) [of c] hl by simp
    show "0 < ncli (cpus ?t e) \<longrightarrow> \<not> if_flag (cpus ?t e)" for e using d(7) [of e] by simp
  qed
qed

lemma lock_inv_release_xchg:
  assumes i: "lock_inv s" and c: "pcs s c = Clear lk" and p: "popcli c (snd (xchg lk 0 s)) = Done t"
  shows "lock_inv (t\<lparr>pcs := (pcs s)(c := Run)\<rparr>)" (is "lock_inv ?t")
proof -
  note d = lock_invD [OF i]
  note q = popcli_Done [OF p]
  have m: "pcs t = pcs s" "held t = held s" "pushes t = pushes s" "cpus (snd (xchg lk 0 s)) = cpus s"
    "locks t = (locks s)(lk := (locks s lk)\<lparr>locked := 0\<rparr>)"
    using conc_more [OF q(2)] q(1) by (simp_all add: xchg_def)
  have own: "owns s c lk" using c by (simp add: owns_def)
  have o: "owns ?t e l \<longleftrightarrow> owns s e l \<and> l \<noteq> lk" for e l
  proof (cases "e = c")
    case True
    then show ?thesis using c d(4) [of c lk] by (auto simp: owns_def m)
  next
    case False
    then have "\<not> owns s e lk" using own d(2) by blast
    then show ?thesis using False by (auto simp: owns_def m)
  qed
  show ?thesis
    unfolding lock_inv_def o
  proof (intro conjI allI)
    show "(locked (locks ?t l) \<noteq> 0) = (\<exists>c. owns s c l \<and> l \<noteq> lk)" for l
      using d(1) [of l] by (simp add: m)
    show "owns s e l \<and> l \<noteq> lk \<longrightarrow> owns s e' l \<and> l \<noteq> lk \<longrightarrow> e = e'" for l e e' using d(2) by blast
    show "(lk_cpu (locks ?t l) = Some e) = (l \<in> held ?t e)" for l e
      using d(3) [of l e] by (cases "l = lk") (auto simp: m)
    show "pcs ?t e = Won l \<or> pcs ?t e = Clear l \<longrightarrow> l \<notin> held ?t e" for e l
      using d(4) [of e l] by (simp add: m)
    show "finite (held ?t e)" for e using d(5) by (simp add: m)
    show "ncli (cpus ?t e) = int (card (held ?t e) + pushes ?t e + (if pcs ?t e = Run then 0 else 1))" for e
      using d(6) [of e] c q(3) [of e] by (cases "e = c") (simp_all add: m)
    show "0 < ncli (cpus ?t e) \<longrightarrow> \<not> if_flag (cpus ?t e)" for e
      using d(7) [of e] q(3) [of e] q(4) [of e] q(5) by (cases "e = c") (auto simp: m)
  qed
qed

lemma lock_inv_step: "lock_step s t \<Longrightarrow> lock_inv s \<Longrightarrow> lock_inv t"
proof (induction rule: lock_step.induct)
  case (acquire_enter s c lk)
  then show ?case by (intro lock_inv_acquire_enter)
next
  case (acquire_xchg s c lk old t)
  then show ?case by (intro lock_inv_xchg)
next
  case (acquire_record s c lk p)
  then show ?case by (intro lock_inv_record)
next
  case (release_enter s c lk)
  then show ?case by (intro lock_inv_release_enter)
next
  case (release_xchg s c lk t)
  then show ?case by (intro lock_inv_release_xchg)
next
  case (push s c)
  then show ?case by (intro lock_inv_push)
next
  case (pop s c t)
  then show ?case by (intro lock_inv_pop)
qed

lemma lock_reach_inv: "lock_reach s \<Longrightarrow> lock_inv s"
  by (induction rule: lock_reach.induct) (auto intro: lock_inv_init lock_inv_step)

section \<open>Properties\<close>

definition demo_locks :: "nat conc" where
  "demo_locks = \<lparr>cpus = (\<lambda>_. \<lparr>ncli = 0, intena = False, if_flag = True\<rparr>),
     locks = (\<lambda>_. \<lparr>lk_name = ''lock'', locked = 0, lk_cpu = None, lk_pcs = replicate 10 0\<rparr>),
     pcs = (\<lambda>_. Run), held = (\<lambda>_. {}), pushes = (\<lambda>_. 0)\<rparr>"

text \<open>
  C13: mutual exclusion. Whatever way the CPUs interleave their \<open>acquire\<close> and \<open>release\<close> calls, two
  CPUs never hold the same lock, a held lock has its \<open>locked\<close> word set and records its holder, and a CPU that
  holds a lock runs with interrupts disabled.
\<close>

theorem lock_mutual_exclusion:
  assumes "lock_reach s" "l \<in> held s c"
  shows "locked (locks s l) \<noteq> 0 \<and> holding c l s \<and> \<not> if_flag (cpus s c) \<and> (\<forall>d. l \<in> held s d \<longrightarrow> d = c)"
proof -
  note d = lock_invD [OF lock_reach_inv [OF assms(1)]]
  have "locked (locks s l) \<noteq> 0" using d(1) [of l] assms(2) by (auto simp: owns_def)
  moreover have "0 < card (held s c)" using d(5) [of c] assms(2) by (auto simp: card_gt_0_iff)
  then have "0 < ncli (cpus s c)" using d(6) [of c] by linarith
  then have "\<not> if_flag (cpus s c)" by (rule d(7))
  moreover have "d = c" if "l \<in> held s d" for d using d(2) [of d l c] assms(2) that unfolding owns_def by blast
  ultimately show ?thesis using d(3) [of l c] assms(2) unfolding holding_def by blast
qed

text \<open>CPU 0 enters \<open>acquire\<close> on lock 7, wins the exchange and records itself.\<close>

lemma demo_locks_acquired: "\<exists>s :: nat conc. lock_reach s \<and> 7 \<in> held s 0 \<and> pcs s 0 = Run"
proof -
  let ?s1 = "(pushcli 0 demo_locks)\<lparr>pcs := (pcs demo_locks)(0 := Spin 7)\<rparr>"
  have "lock_reach demo_locks" by (rule lock_reach.init) (simp add: lock_init_def demo_locks_def)
  moreover have m: "held (pushcli 0 demo_locks) = held demo_locks"
    by (rule conc_more(2)) simp
  have "lock_step demo_locks ?s1"
    by (rule lock_step.acquire_enter) (simp_all add: demo_locks_def holding_def)
  ultimately have r1: "lock_reach ?s1" by (rule lock_reach.step)
  obtain t where x: "xchg 7 1 ?s1 = (0, t)" and t: "t = upd_lock 7 (\<lambda>x. x\<lparr>locked := 1\<rparr>) ?s1"
    by (simp add: xchg_def demo_locks_def)
  let ?s2 = "t\<lparr>pcs := (pcs ?s1)(0 := if (0 :: u32) \<noteq> 0 then Spin 7 else Won 7)\<rparr>"
  have "lock_step ?s1 ?s2" by (rule lock_step.acquire_xchg [OF _ x]) simp
  with r1 have r2: "lock_reach ?s2" by (rule lock_reach.step)
  let ?s3 = "(upd_lock 7 (\<lambda>x. x\<lparr>lk_cpu := Some 0, lk_pcs := []\<rparr>) ?s2)
    \<lparr>pcs := (pcs ?s2)(0 := Run), held := (held ?s2)(0 := insert 7 (held ?s2 0))\<rparr>"
  have "lock_step ?s2 ?s3" by (rule lock_step.acquire_record) simp
  with r2 have "lock_reach ?s3" by (rule lock_reach.step)
  then show ?thesis by (intro exI [of _ ?s3]) simp
qed

theorem lock_mutual_exclusion_witness:
  "\<exists>s :: nat conc. lock_reach s \<and> 7 \<in> held s 0 \<and> holding 0 7 s \<and> \<not> if_flag (cpus s 0) \<and> 7 \<notin> held s 1"
proof -
  obtain s :: "nat conc" where s: "lock_reach s" "7 \<in> held s 0" using demo_locks_acquired by blast
  from lock_mutual_exclusion [OF this] have "7 \<notin> held s 1" by (metis zero_neq_one)
  then show ?thesis using s lock_mutual_exclusion [OF s] by blast
qed

text \<open>
  The holder's \<open>release\<close> never panics: it returns, the lock is free afterwards and the
  nesting depth of the CPU is one less; a \<open>release\<close> by any other CPU and a second \<open>acquire\<close> by the
  holder panic.
\<close>

theorem release_by_holder:
  assumes "lock_reach s" "l \<in> held s c" "pcs s c = Run"
  shows "(\<exists>t. release c l s = Done t \<and> locked (locks t l) = 0 \<and> ncli (cpus t c) = ncli (cpus s c) - 1) \<and>
    (\<forall>d. d \<noteq> c \<longrightarrow> release d l s = Panic ''release'') \<and> acquire c rd v l s = Panic ''acquire''"
proof -
  note d = lock_invD [OF lock_reach_inv [OF assms(1)]]
  have h: "locked (locks s l) \<noteq> 0" "lk_cpu (locks s l) = Some c"
    using d(1) [of l] d(3) [of l c] assms(2) by (auto simp: owns_def)
  have "0 < card (held s c)" using d(5) [of c] assms(2) by (auto simp: card_gt_0_iff)
  then have n: "0 < ncli (cpus s c)" using d(6) [of c] by linarith
  then have "\<not> if_flag (cpus s c)" by (rule d(7))
  then show ?thesis
    using h n by (auto simp: release_def acquire_def holding_def popcli_def xchg_def Let_def)
qed

theorem release_by_holder_witness:
  "\<exists>(s :: nat conc) t. lock_reach s \<and> 7 \<in> held s 0 \<and> release 0 7 s = Done t \<and> release 1 7 s = Panic ''release''"
proof -
  obtain s :: "nat conc" where s: "lock_reach s" "7 \<in> held s 0" "pcs s 0 = Run" using demo_locks_acquired by blast
  then show ?thesis using release_by_holder [OF s, where rd = "\<lambda>_. 0" and v = 0] by auto
qed

primrec popclis :: "nat \<Rightarrow> nat \<Rightarrow> ('l, 'a) smp_scheme \<Rightarrow> ('l, 'a) smp_scheme outcome" where
  "popclis c 0 s = Done s"
| "popclis c (Suc n) s = obind (popcli c s) (popclis c n)"

lemma pushcli_iter:
  "ncli (cpus ((pushcli c ^^ n) s) c) = ncli (cpus s c) + int n"
  "0 \<le> ncli (cpus s c) \<Longrightarrow> intena (cpus ((pushcli c ^^ n) s) c) =
     (if ncli (cpus s c) = 0 \<and> 0 < n then if_flag (cpus s c) else intena (cpus s c))"
  "if_flag (cpus ((pushcli c ^^ n) s) c) = (n = 0 \<and> if_flag (cpus s c))"
  by (induction n) (auto simp: pushcli_def Let_def)

lemma popclis_restore:
  assumes "ncli (cpus s c) = k + int n" "0 \<le> k" "\<not> if_flag (cpus s c)"
  shows "\<exists>t. popclis c n s = Done t \<and> ncli (cpus t c) = k \<and>
    if_flag (cpus t c) = (0 < n \<and> k = 0 \<and> intena (cpus s c))"
  using assms
proof (induction n arbitrary: s)
  case (Suc n)
  let ?u = "upd_cpu c (\<lambda>x. x\<lparr>ncli := ncli x - 1\<rparr>) s"
  show ?case
  proof (cases "n = 0")
    case True
    then show ?thesis using Suc.prems by (simp add: popcli_def Let_def)
  next
    case False
    then have "popcli c s = Done ?u" using Suc.prems by (simp add: popcli_def Let_def)
    moreover have "\<exists>t. popclis c n ?u = Done t \<and> ncli (cpus t c) = k \<and>
        if_flag (cpus t c) = (0 < n \<and> k = 0 \<and> intena (cpus ?u c))"
      using Suc.prems by (intro Suc.IH) simp_all
    ultimately show ?thesis using False by simp
  qed
qed simp

text \<open>
  C22: \<open>pushcli\<close> and \<open>popcli\<close> are matched. From a state of a CPU outside any nesting, or inside one
  with interrupts off, \<open>n\<close> calls of \<open>pushcli\<close> followed by \<open>n\<close> calls of \<open>popcli\<close> return and leave the interrupt flag and the
  nesting depth as they were; interrupts are off in between.
\<close>

theorem cli_nesting:
  fixes s :: "('l, 'a) smp_scheme"
  assumes "0 \<le> ncli (cpus s c)" "0 < ncli (cpus s c) \<longrightarrow> \<not> if_flag (cpus s c)" "0 < n"
  shows "\<not> if_flag (cpus ((pushcli c ^^ n) s) c) \<and>
    (\<exists>t. popclis c n ((pushcli c ^^ n) s) = Done t \<and> ncli (cpus t c) = ncli (cpus s c) \<and>
       if_flag (cpus t c) = if_flag (cpus s c))"
proof -
  have "\<not> if_flag (cpus ((pushcli c ^^ n) s) c)" using pushcli_iter(3) [of n c s] assms(3) by simp
  moreover from this have "\<exists>t. popclis c n ((pushcli c ^^ n) s) = Done t \<and> ncli (cpus t c) = ncli (cpus s c) \<and>
    if_flag (cpus t c) = (0 < n \<and> ncli (cpus s c) = 0 \<and> intena (cpus ((pushcli c ^^ n) s) c))"
    using assms(1) by (intro popclis_restore) (simp_all add: pushcli_iter(1))
  moreover have "(0 < n \<and> ncli (cpus s c) = 0 \<and> intena (cpus ((pushcli c ^^ n) s) c)) = if_flag (cpus s c)"
    using pushcli_iter(2) [OF assms(1), of n] assms by auto
  ultimately show ?thesis by simp
qed

theorem cli_nesting_witness:
  "\<exists>t. popclis 0 3 ((pushcli 0 ^^ 3) demo_locks) = Done t \<and> if_flag (cpus t 0)"
  using cli_nesting [of demo_locks 0 3] by (auto simp: demo_locks_def)

end
