(* ===== verification/Proc.thy ===== *)
theory Proc
  imports File Spinlock
begin

text \<open>
  Processes, \<open>kern/proc.c\<close>: creation, exit, waiting, the scheduler, sleep and wakeup. The lock of the
  process table makes each function atomic; the functions that hand the CPU to the scheduler are also
  modelled with the locks of the CPU, on which \<open>sched\<close> depends.
\<close>

section \<open>Creation\<close>

definition sizeof_trapframe :: u32 where "sizeof_trapframe = 76"
definition sizeof_context :: u32 where "sizeof_context = 20"
definition zero_context :: context_struct where
  "zero_context = \<lparr>ctx_edi = 0, ctx_esi = 0, ctx_ebx = 0, ctx_ebp = 0, ctx_eip = 0\<rparr>"
definition zero_trapframe :: trapframe where
  "zero_trapframe = \<lparr>tf_edi = 0, tf_esi = 0, tf_ebp = 0, tf_oesp = 0, tf_ebx = 0, tf_edx = 0, tf_ecx = 0,
     tf_eax = 0, tf_gs = 0, tf_fs = 0, tf_es = 0, tf_ds = 0, tf_trapno = 0, tf_err = 0, tf_eip = 0, tf_cs = 0,
     tf_eflags = 0, tf_esp = 0, tf_ss = 0\<rparr>"

definition store_word :: "u32 \<Rightarrow> u32 \<Rightarrow> kstate \<Rightarrow> kstate" where
  "store_word a v s = s\<lparr>km := (km s)\<lparr>kmem_mem := store32 a v (kmem_mem (km s))\<rparr>\<rparr>"

definition allocproc :: "kstate \<Rightarrow> nat option \<times> kstate" where
  "allocproc s =
     (case find (\<lambda>p. p_state (ptable s p) = UNUSED) [0..<NPROC] of
        None \<Rightarrow> (None, s)
      | Some p \<Rightarrow>
          let s = upd_proc p (\<lambda>x. x\<lparr>p_state := EMBRYO, p_pid := nextpid s\<rparr>) (s\<lparr>nextpid := nextpid s + 1\<rparr>) in
          (case k_alloc s of (stack, s) \<Rightarrow>
             let s = upd_proc p (\<lambda>x. x\<lparr>p_kstack := stack\<rparr>) s in
             if stack = 0 then (None, upd_proc p (\<lambda>x. x\<lparr>p_state := UNUSED\<rparr>) s)
             else
               let sp = stack + of_nat KSTACKSIZE - sizeof_trapframe - 4;
                   s = store_word sp (trapret s) s;
                   s = upd_proc p (\<lambda>x. x\<lparr>p_context := zero_context\<lparr>ctx_eip := forkret_addr s\<rparr>\<rparr>) s
               in (Some p, s)))"

definition SEG_UCODE :: u16 where "SEG_UCODE = 4"
definition SEG_UDATA :: u16 where "SEG_UDATA = 5"
definition DPL_USER :: u16 where "DPL_USER = 3"
definition FL_IF :: u32 where "FL_IF = 0x200"

text \<open>A copy into the 16 bytes of \<open>p->name\<close>.\<close>

definition set_name :: "bytes \<Rightarrow> proc \<Rightarrow> proc" where
  "set_name nm x = x\<lparr>p_name := patch 0 (safestrcpy (cstr nm) 16) (p_name x)\<rparr>"

text \<open>\<open>initcode\<close> is the binary of the first process, which the build links into the kernel.\<close>

definition userinit :: "bytes \<Rightarrow> kstate \<Rightarrow> kstate outcome" where
  "userinit initcode s =
     (case allocproc s of
        (None, s) \<Rightarrow> Panic ''trap''
      | (Some p, s) \<Rightarrow>
          let s = s\<lparr>initproc := Some p\<rparr> in
          obind (on_km (setupkvm (kdata s)) s) (\<lambda>(d, s).
            let s = upd_proc p (\<lambda>x. x\<lparr>p_pgdir := d\<rparr>) s in
            if d = 0 then Panic ''userinit: out of memory?''
            else
              obind (on_km' (inituvm d initcode) s) (\<lambda>s.
                let s = upd_proc p (\<lambda>x. x\<lparr>p_sz := PGSIZE,
                      p_tf := zero_trapframe\<lparr>tf_cs := push_bit 3 SEG_UCODE OR DPL_USER,
                        tf_ds := push_bit 3 SEG_UDATA OR DPL_USER, tf_es := push_bit 3 SEG_UDATA OR DPL_USER,
                        tf_ss := push_bit 3 SEG_UDATA OR DPL_USER, tf_eflags := FL_IF, tf_esp := PGSIZE, tf_eip := 0\<rparr>\<rparr>) s;
                    s = upd_proc p (set_name [105, 110, 105, 116, 99, 111, 100, 101]) s
                in obind (namei devsw_table 0 [47] s) (\<lambda>(ip, s).
                   Done (upd_proc p (\<lambda>x. x\<lparr>p_cwd := ip, p_state := RUNNABLE\<rparr>) s)))))"

definition growproc :: "u32 \<Rightarrow> kstate \<Rightarrow> (int \<times> kstate) outcome" where
  "growproc n s =
     (let sz = p_sz (myproc s); d = p_pgdir (myproc s);
          commit = (\<lambda>sz s. let s = upd_cur (\<lambda>x. x\<lparr>p_sz := sz\<rparr>) s in
            case cur s of None \<Rightarrow> Panic ''trap'' | Some p \<Rightarrow> obind (switchuvm p s) (\<lambda>s. Done (0, s)))
      in if sint n > 0
         then obind (on_km (allocuvm d sz (sz + n)) s) (\<lambda>(sz, s). if sz = 0 then Done (-1, s) else commit sz s)
         else if sint n < 0
         then obind (on_km (deallocuvm d sz (sz + n)) s) (\<lambda>(sz, s). if sz = 0 then Done (-1, s) else commit sz s)
         else commit sz s)"

text \<open>The loop of \<open>fork\<close> that shares the open files of the parent \<open>p\<close> with the child \<open>np\<close>.\<close>

primrec fork_files :: "nat list \<Rightarrow> nat \<Rightarrow> nat \<Rightarrow> kstate \<Rightarrow> kstate outcome" where
  "fork_files [] p np s = Done s"
| "fork_files (i # is) p np s =
     (case p_ofile (ptable s p) i of
        None \<Rightarrow> fork_files is p np s
      | Some f \<Rightarrow> obind (filedup f s) (\<lambda>(f, s).
          fork_files is p np (upd_proc np (\<lambda>x. x\<lparr>p_ofile := (p_ofile x)(i := Some f)\<rparr>) s)))"

definition fork :: "kstate \<Rightarrow> (int \<times> kstate) outcome" where
  "fork s =
     (case cur s of
        None \<Rightarrow> Panic ''trap''
      | Some p \<Rightarrow>
          (case allocproc s of
             (None, s) \<Rightarrow> Done (-1, s)
           | (Some np, s) \<Rightarrow>
               obind (on_km (copyuvm (kdata s) (p_pgdir (ptable s p)) (p_sz (ptable s p))) s) (\<lambda>(d, s).
                 let s = upd_proc np (\<lambda>x. x\<lparr>p_pgdir := d\<rparr>) s in
                 if d = 0
                 then
                   obind (on_km' (kfree (p_kstack (ptable s np))) s) (\<lambda>s.
                   Done (-1, upd_proc np (\<lambda>x. x\<lparr>p_kstack := 0, p_state := UNUSED\<rparr>) s))
                 else
                   let s = upd_proc np (\<lambda>x. x\<lparr>p_sz := p_sz (ptable s p), p_parent := Some p,
                         p_tf := (p_tf (ptable s p))\<lparr>tf_eax := 0\<rparr>\<rparr>) s
                   in obind (fork_files [0..<NOFILE] p np s) (\<lambda>s.
                      case p_cwd (ptable s p) of
                        None \<Rightarrow> Panic ''trap''
                      | Some ip \<Rightarrow>
                          (case idup ip s of (ip, s) \<Rightarrow>
                             let s = upd_proc np (\<lambda>x. x\<lparr>p_cwd := Some ip\<rparr>) s;
                                 s = upd_proc np (set_name (p_name (ptable s p))) s;
                                 pid = p_pid (ptable s np)
                             in Done (sint pid, upd_proc np (\<lambda>x. x\<lparr>p_state := RUNNABLE\<rparr>) s))))))"

section \<open>Exit and wait\<close>

primrec exit_files :: "nat list \<Rightarrow> nat \<Rightarrow> kstate \<Rightarrow> kstate outcome" where
  "exit_files [] p s = Done s"
| "exit_files (fd # fds) p s =
     (case p_ofile (ptable s p) fd of
        None \<Rightarrow> exit_files fds p s
      | Some f \<Rightarrow> obind (fileclose f s) (\<lambda>s.
          exit_files fds p (upd_proc p (\<lambda>x. x\<lparr>p_ofile := (p_ofile x)(fd := None)\<rparr>) s)))"

definition wakeup_proc :: "nat option \<Rightarrow> kstate \<Rightarrow> kstate" where
  "wakeup_proc q s = (case q of None \<Rightarrow> s | Some q \<Rightarrow> wakeup1 (Chan_Proc q) s)"

primrec reparent :: "nat list \<Rightarrow> nat \<Rightarrow> kstate \<Rightarrow> kstate" where
  "reparent [] p s = s"
| "reparent (q # qs) p s =
     (if p_parent (ptable s q) = Some p
      then
        let s = upd_proc q (\<lambda>x. x\<lparr>p_parent := initproc s\<rparr>) s in
        reparent qs p (if p_state (ptable s q) = ZOMBIE then wakeup_proc (initproc s) s else s)
      else reparent qs p s)"

text \<open>\<open>exit\<close> does not return: the result is the state in which it enters the scheduler.\<close>

definition exit :: "u32 \<Rightarrow> kstate \<Rightarrow> kstate outcome" where
  "exit exitvalue s =
     (case cur s of
        None \<Rightarrow> Panic ''trap''
      | Some p \<Rightarrow>
          let s = upd_proc p (\<lambda>x. x\<lparr>p_exitstatus := exitvalue\<rparr>) s in
          if initproc s = Some p then Panic ''init exiting''
          else
            obind (exit_files [0..<NOFILE] p s) (\<lambda>s.
            obind (begin_op s) (\<lambda>s.
            obind (put_ip (p_cwd (ptable s p)) s) (\<lambda>s.
            obind (end_op s) (\<lambda>s.
              let s = upd_proc p (\<lambda>x. x\<lparr>p_cwd := None\<rparr>) s;
                  s = wakeup_proc (p_parent (ptable s p)) s;
                  s = reparent [0..<NPROC] p s
              in Done (upd_proc p (\<lambda>x. x\<lparr>p_state := ZOMBIE\<rparr>) s))))))"

text \<open>\<open>wait\<close> with the address for the status, or 0.\<close>

definition wait :: "u32 \<Rightarrow> kstate \<Rightarrow> (int \<times> kstate) outcome" where
  "wait statusptr s =
     (case cur s of
        None \<Rightarrow> Panic ''trap''
      | Some me \<Rightarrow>
          (case find (\<lambda>p. p_parent (ptable s p) = Some me \<and> p_state (ptable s p) = ZOMBIE) [0..<NPROC] of
             Some p \<Rightarrow>
               let pid = p_pid (ptable s p) in
               obind (on_km' (kfree (p_kstack (ptable s p))) s) (\<lambda>s.
                 let s = upd_proc p (\<lambda>x. x\<lparr>p_kstack := 0\<rparr>) s in
               obind (on_km' (freevm (p_pgdir (ptable s p))) s) (\<lambda>s.
                 let s = upd_proc p (\<lambda>x. x\<lparr>p_state := UNUSED, p_pid := 0, p_parent := None,
                       p_name := (p_name x)[0 := 0], p_killed := False\<rparr>) s
                 in if statusptr \<noteq> 0
                    then
                      obind (uwrite (bytes_of_u32 (p_exitstatus (ptable s p) OR
                        (if p_killed (ptable s p) then 0x100 else 0))) statusptr s) (\<lambda>s.
                      Done (sint pid, s))
                    else Done (sint pid, s)))
           | None \<Rightarrow>
               if (\<forall>p \<in> set [0..<NPROC]. p_parent (ptable s p) \<noteq> Some me) \<or> p_killed (myproc s) then Done (-1, s)
               else Sleep (Chan_Proc me)))"

definition kill :: "u32 \<Rightarrow> kstate \<Rightarrow> int \<times> kstate" where
  "kill pid s =
     (case find (\<lambda>p. p_pid (ptable s p) = pid) [0..<NPROC] of
        None \<Rightarrow> (-1, s)
      | Some p \<Rightarrow> (0, upd_proc p (\<lambda>x. x\<lparr>p_killed := True,
          p_state := if p_state x = SLEEPING then RUNNABLE else p_state x\<rparr>) s))"

section \<open>The scheduler\<close>

text \<open>
  The choice the loop of \<open>scheduler\<close> makes when it has reached entry \<open>i\<close> of the table: the first
  runnable process from there, else the first one of the next round. No choice means that the loop
  goes on until an interrupt changes the table.
\<close>

definition scheduler_pick :: "nat \<Rightarrow> kstate \<Rightarrow> nat option" where
  "scheduler_pick i s =
     (case find (\<lambda>p. p_state (ptable s p) = RUNNABLE) [i..<NPROC] of
        Some p \<Rightarrow> Some p
      | None \<Rightarrow> find (\<lambda>p. p_state (ptable s p) = RUNNABLE) [0..<NPROC])"

text \<open>The switch to a process, and what follows when it has switched back.\<close>

definition scheduler_run :: "nat \<Rightarrow> kstate \<Rightarrow> kstate outcome" where
  "scheduler_run p s = obind (switchuvm p (s\<lparr>cur := Some p\<rparr>)) (\<lambda>s.
     Done (upd_proc p (\<lambda>x. x\<lparr>p_state := RUNNING\<rparr>) s))"

definition scheduler_back :: "kstate \<Rightarrow> kstate" where
  "scheduler_back s = (switchkvm s)\<lparr>cur := None\<rparr>"

definition forkret :: "kstate \<Rightarrow> kstate outcome" where
  "forkret s =
     (if first s then obind (iinit ROOTDEV (s\<lparr>first := False\<rparr>)) (\<lambda>s. initlog ROOTDEV s) else Done s)"

section \<open>Giving up the CPU\<close>

text \<open>
  \<open>m\<close> is the state of the CPUs and locks, \<open>c\<close> the CPU, \<open>pt\<close> the lock of the process table. The result of
  \<open>sched\<close> is the state that the scheduler finds.
\<close>

definition sched :: "nat \<Rightarrow> 'l \<Rightarrow> 'l smp \<Rightarrow> kstate \<Rightarrow> ('l smp \<times> kstate) outcome" where
  "sched c pt m s =
     (if \<not> holding c pt m then Panic ''sched ptable.lock''
      else if ncli (cpus m c) \<noteq> 1 then Panic ''sched locks''
      else if p_state (myproc s) = RUNNING then Panic ''sched running''
      else if if_flag (cpus m c) then Panic ''sched interruptible''
      else Done (m, s))"

definition yield :: "nat \<Rightarrow> 'l \<Rightarrow> (u32 \<Rightarrow> u32) \<Rightarrow> u32 \<Rightarrow> 'l smp \<Rightarrow> kstate \<Rightarrow> ('l smp \<times> kstate) outcome" where
  "yield c pt rd v m s =
     obind (acquire c rd v pt m) (\<lambda>m. sched c pt m (upd_cur (\<lambda>x. x\<lparr>p_state := RUNNABLE\<rparr>) s))"

text \<open>\<open>sleep\<close> up to the switch, and what it does when it runs again.\<close>

definition sleep :: "nat \<Rightarrow> 'l \<Rightarrow> (u32 \<Rightarrow> u32) \<Rightarrow> u32 \<Rightarrow> chan \<Rightarrow> 'l option \<Rightarrow> 'l smp \<Rightarrow> kstate \<Rightarrow> ('l smp \<times> kstate) outcome" where
  "sleep c pt rd v ch lk m s =
     (case cur s of
        None \<Rightarrow> Panic ''sleep''
      | Some p \<Rightarrow>
          (case lk of
             None \<Rightarrow> Panic ''sleep without lk''
           | Some l \<Rightarrow>
               obind (if l \<noteq> pt then obind (acquire c rd v pt m) (\<lambda>m. release c l m) else Done m) (\<lambda>m.
               sched c pt m (upd_proc p (\<lambda>x. x\<lparr>p_chan := Some ch, p_state := SLEEPING\<rparr>) s))))"

definition sleep_resume :: "nat \<Rightarrow> 'l \<Rightarrow> (u32 \<Rightarrow> u32) \<Rightarrow> u32 \<Rightarrow> 'l \<Rightarrow> 'l smp \<Rightarrow> kstate \<Rightarrow> ('l smp \<times> kstate) outcome" where
  "sleep_resume c pt rd v l m s =
     (let s = upd_cur (\<lambda>x. x\<lparr>p_chan := None\<rparr>) s in
      if l \<noteq> pt then obind (release c pt m) (\<lambda>m. obind (acquire c rd v l m) (\<lambda>m. Done (m, s))) else Done (m, s))"

section \<open>The process listing\<close>

primrec state_name :: "procstate \<Rightarrow> bytes" where
  "state_name UNUSED = [117, 110, 117, 115, 101, 100]"
| "state_name EMBRYO = [101, 109, 98, 114, 121, 111]"
| "state_name SLEEPING = [115, 108, 101, 101, 112, 32]"
| "state_name RUNNABLE = [114, 117, 110, 98, 108, 101]"
| "state_name RUNNING = [114, 117, 110, 32, 32, 32]"
| "state_name ZOMBIE = [122, 111, 109, 98, 105, 101]"

text \<open>
  The characters printed for one process; the two string arguments of the first \<open>cprintf\<close> get the
  addresses 1 and 2.
\<close>

definition procdump_line :: "(u32 \<Rightarrow> u32) \<Rightarrow> proc \<Rightarrow> int list" where
  "procdump_line rd x =
     (if p_state x = UNUSED then []
      else
        cprintf_out (\<lambda>a. if a = 1 then state_name (p_state x) else takeWhile (\<lambda>c. c \<noteq> 0) (p_name x))
          (\<lambda>i. if i = 0 then p_pid x else of_nat i) 0 [37, 100, 32, 37, 115, 32, 37, 115] @
        (if p_state x = SLEEPING
         then concat (map (\<lambda>pc. cprintf_out (\<lambda>_. []) (\<lambda>_. pc) 0 [32, 37, 112])
           (takeWhile (\<lambda>pc. pc \<noteq> 0) (getcallerpcs rd (ctx_ebp (p_context x) + 8))))
         else []) @ [10])"

definition procdump :: "kstate \<Rightarrow> kstate outcome" where
  "procdump s =
     on_cons (consputs (concat (map (\<lambda>p. procdump_line (load32 (kmem_mem (km s))) (ptable s p)) [0..<NPROC])) 1) s"

end
