(* ===== verification/Sysfile.thy ===== *)
theory Sysfile
  imports Exec Proc
begin

text \<open>
  System calls on files, \<open>kern/sysfile.c\<close>. Every call is a function of the state; its arguments are
  fetched from the stack of the running process. Results are the integers the code returns.
\<close>

section \<open>Error results and flags\<close>

definition EPERM :: int where "EPERM = -1"
definition E2BIG :: int where "E2BIG = -7"
definition EACCES :: int where "EACCES = -13"
definition EEXIST :: int where "EEXIST = -17"
definition ENOTDIR :: int where "ENOTDIR = -20"
definition EISDIR :: int where "EISDIR = -21"
definition EINVAL :: int where "EINVAL = -22"
definition ENFILE :: int where "ENFILE = -23"
definition EMFILE :: int where "EMFILE = -24"
definition ENOTTY :: int where "ENOTTY = -25"

definition O_RDONLY :: u32 where "O_RDONLY = 0"
definition O_WRONLY :: u32 where "O_WRONLY = 1"
definition O_RDWR :: u32 where "O_RDWR = 2"
definition O_CREATE :: u32 where "O_CREATE = 0x200"
definition O_APPEND :: u32 where "O_APPEND = 8"
definition O_TRUNC :: u32 where "O_TRUNC = 0x400"

definition SEEK_SET :: u32 where "SEEK_SET = 0"
definition SEEK_CUR :: u32 where "SEEK_CUR = 1"
definition SEEK_END :: u32 where "SEEK_END = 2"

section \<open>File descriptors\<close>

definition argfd :: "nat \<Rightarrow> kstate \<Rightarrow> (nat \<times> nat) option outcome" where
  "argfd n s =
     obind (argint n s) (\<lambda>r. Done (case r of
         None \<Rightarrow> None
       | Some fd \<Rightarrow>
           if sint fd < 0 \<or> sint fd \<ge> int NOFILE then None
           else (case p_ofile (myproc s) (unat fd) of None \<Rightarrow> None | Some f \<Rightarrow> Some (unat fd, f))))"

definition fdalloc :: "nat \<Rightarrow> kstate \<Rightarrow> int \<times> kstate" where
  "fdalloc f s =
     (case find (\<lambda>fd. p_ofile (myproc s) fd = None) [0..<NOFILE] of
        Some fd \<Rightarrow> (int fd, upd_cur (\<lambda>x. x\<lparr>p_ofile := (p_ofile x)(fd := Some f)\<rparr>) s)
      | None \<Rightarrow> (-1, s))"

definition sys_dup :: "kstate \<Rightarrow> (int \<times> kstate) outcome" where
  "sys_dup s =
     obind (argfd 0 s) (\<lambda>r. case r of
         None \<Rightarrow> Done (EBADF, s)
       | Some (_, f) \<Rightarrow>
           (case fdalloc f s of (fd, s) \<Rightarrow>
              if fd < 0 then Done (EBADF, s) else obind (filedup f s) (\<lambda>(_, s). Done (fd, s))))"

text \<open>The three arguments of \<open>sys_read\<close> and \<open>sys_write\<close>: a file, a buffer and a size.\<close>

definition rw_args :: "kstate \<Rightarrow> (nat \<times> u32 \<times> u32) option outcome" where
  "rw_args s =
     obind (argfd 0 s) (\<lambda>r. case r of None \<Rightarrow> Done None | Some (_, f) \<Rightarrow>
     obind (argint 2 s) (\<lambda>r. case r of None \<Rightarrow> Done None | Some n \<Rightarrow>
     obind (argptr 1 n s) (\<lambda>r. case r of None \<Rightarrow> Done None | Some p \<Rightarrow> Done (Some (f, p, n)))))"

definition sys_read :: "kstate \<Rightarrow> (int \<times> kstate) outcome" where
  "sys_read s = obind (rw_args s) (\<lambda>r. case r of None \<Rightarrow> Done (EINVAL, s) | Some (f, p, n) \<Rightarrow> fileread f p n s)"

definition sys_write :: "kstate \<Rightarrow> (int \<times> kstate) outcome" where
  "sys_write s = obind (rw_args s) (\<lambda>r. case r of None \<Rightarrow> Done (EINVAL, s) | Some (f, p, n) \<Rightarrow> filewrite f p n s)"

definition sys_close :: "kstate \<Rightarrow> (int \<times> kstate) outcome" where
  "sys_close s =
     obind (argfd 0 s) (\<lambda>r. case r of
         None \<Rightarrow> Done (EBADF, s)
       | Some (fd, f) \<Rightarrow>
           obind (fileclose f (upd_cur (\<lambda>x. x\<lparr>p_ofile := (p_ofile x)(fd := None)\<rparr>) s)) (\<lambda>s. Done (0, s)))"

definition sys_fstat :: "kstate \<Rightarrow> (int \<times> kstate) outcome" where
  "sys_fstat s =
     obind (argfd 0 s) (\<lambda>r. case r of None \<Rightarrow> Done (EINVAL, s) | Some (_, f) \<Rightarrow>
     obind (argptr 1 (of_nat sizeof_stat) s) (\<lambda>r. case r of None \<Rightarrow> Done (EINVAL, s) | Some st \<Rightarrow>
     filestat f st s))"

section \<open>Links\<close>

text \<open>Ending the operation with a result.\<close>

definition end_with :: "int \<Rightarrow> kstate \<Rightarrow> (int \<times> kstate) outcome" where
  "end_with r s = obind (end_op s) (\<lambda>s. Done (r, s))"

definition add_nlink :: "nat \<Rightarrow> u16 \<Rightarrow> kstate \<Rightarrow> kstate" where
  "add_nlink ip d s = upd_inode ip (\<lambda>x. x\<lparr>i_nlink := i_nlink x + d\<rparr>) s"

definition link_bad :: "nat \<Rightarrow> kstate \<Rightarrow> (int \<times> kstate) outcome" where
  "link_bad ip s =
     obind (ilock (Some ip) s) (\<lambda>s.
     obind (iupdate ip (add_nlink ip (-1) s)) (\<lambda>s.
     obind (iunlockput ip s) (\<lambda>s.
     end_with EEXIST s)))"

definition sys_link :: "kstate \<Rightarrow> (int \<times> kstate) outcome" where
  "sys_link s =
     obind (argstr 0 s) (\<lambda>r. case r of None \<Rightarrow> Done (EINVAL, s) | Some old \<Rightarrow>
     obind (argstr 1 s) (\<lambda>r. case r of None \<Rightarrow> Done (EINVAL, s) | Some new \<Rightarrow>
     obind (begin_op s) (\<lambda>s.
     obind (k_namei old s) (\<lambda>(r, s). case r of None \<Rightarrow> end_with (-1) s | Some ip \<Rightarrow>
     obind (ilock (Some ip) s) (\<lambda>s.
       if i_type (icache s ip) = T_DIR then obind (iunlockput ip s) (\<lambda>s. end_with ENOENT s)
       else
         obind (iupdate ip (add_nlink ip 1 s)) (\<lambda>s.
         obind (iunlock (Some ip) s) (\<lambda>s.
         obind (k_nameiparent new s) (\<lambda>(r, nm, s). case r of None \<Rightarrow> link_bad ip s | Some dp \<Rightarrow>
         obind (ilock (Some dp) s) (\<lambda>s.
           obind (if i_dev (icache s dp) \<noteq> i_dev (icache s ip) then Done (-1, s)
                  else dirlink devsw_table dp nm (i_inum (icache s ip)) s) (\<lambda>(r, s).
             if r < 0 then obind (iunlockput dp s) (\<lambda>s. link_bad ip s)
             else
               obind (iunlockput dp s) (\<lambda>s.
               obind (iput ip s) (\<lambda>s.
               end_with 0 s))))))))))))"

text \<open>The loop of \<open>isdirempty\<close>: \<open>k\<close> more entries, the next one at \<open>off\<close>.\<close>

primrec isdirempty_loop :: "nat \<Rightarrow> nat \<Rightarrow> u32 \<Rightarrow> kstate \<Rightarrow> (bool \<times> kstate) outcome" where
  "isdirempty_loop 0 dp off s = Done (True, s)"
| "isdirempty_loop (Suc k) dp off s =
     obind (readi devsw_table dp off (of_nat sizeof_dirent) s) (\<lambda>(r, d, s).
       if r \<noteq> int sizeof_dirent then Panic ''isdirempty: readi''
       else if de_inum (dirent_of d) \<noteq> 0 then Done (False, s)
       else isdirempty_loop k dp (off + of_nat sizeof_dirent) s)"

definition isdirempty :: "nat \<Rightarrow> kstate \<Rightarrow> (bool \<times> kstate) outcome" where
  "isdirempty dp s = isdirempty_loop (nentries (i_size (icache s dp)) - 2) dp (2 * of_nat sizeof_dirent) s"

definition unlink_bad :: "nat \<Rightarrow> kstate \<Rightarrow> (int \<times> kstate) outcome" where
  "unlink_bad dp s = obind (iunlockput dp s) (\<lambda>s. end_with EPERM s)"

text \<open>The part of \<open>sys_unlink\<close> that removes the entry at \<open>off\<close> of the locked directory.\<close>

definition unlink_entry :: "nat \<Rightarrow> nat \<Rightarrow> u32 \<Rightarrow> kstate \<Rightarrow> (int \<times> kstate) outcome" where
  "unlink_entry dp ip off s =
     obind (writei devsw_table dp (\<lambda>_. 0) off (of_nat sizeof_dirent) s) (\<lambda>(r, s).
       if r \<noteq> int sizeof_dirent then Panic ''unlink: writei''
       else
         obind (if i_type (icache s ip) = T_DIR then iupdate dp (add_nlink dp (-1) s) else Done s) (\<lambda>s.
         obind (iunlockput dp s) (\<lambda>s.
         obind (iupdate ip (add_nlink ip (-1) s)) (\<lambda>s.
         obind (iunlockput ip s) (\<lambda>s.
         end_with 0 s)))))"

definition sys_unlink :: "kstate \<Rightarrow> (int \<times> kstate) outcome" where
  "sys_unlink s =
     obind (argstr 0 s) (\<lambda>r. case r of None \<Rightarrow> Done (EINVAL, s) | Some path \<Rightarrow>
     obind (begin_op s) (\<lambda>s.
     obind (k_nameiparent path s) (\<lambda>(r, nm, s). case r of None \<Rightarrow> end_with ENOENT s | Some dp \<Rightarrow>
     obind (ilock (Some dp) s) (\<lambda>s.
       if namecmp nm [46] = 0 \<or> namecmp nm [46, 46] = 0 then unlink_bad dp s
       else
         obind (dirlookup devsw_table dp nm s) (\<lambda>(r, s). case r of None \<Rightarrow> unlink_bad dp s | Some (ip, off) \<Rightarrow>
         obind (ilock (Some ip) s) (\<lambda>s.
           if sint (i_nlink (icache s ip)) < 1 then Panic ''unlink: nlink < 1''
           else
             obind (if i_type (icache s ip) = T_DIR then isdirempty ip s else Done (True, s)) (\<lambda>(empty, s).
               if \<not> empty then obind (iunlockput ip s) (\<lambda>s. unlink_bad dp s)
               else unlink_entry dp ip off s)))))))"

section \<open>Creating and opening\<close>

text \<open>The entries of a new directory \<open>ip\<close> in \<open>dp\<close>.\<close>

definition create_dots :: "nat \<Rightarrow> nat \<Rightarrow> kstate \<Rightarrow> kstate outcome" where
  "create_dots dp ip s =
     obind (iupdate dp (add_nlink dp 1 s)) (\<lambda>s.
     obind (dirlink devsw_table ip [46] (i_inum (icache s ip)) s) (\<lambda>(r, s).
       if r < 0 then Panic ''create dots''
       else
         obind (dirlink devsw_table ip [46, 46] (i_inum (icache s dp)) s) (\<lambda>(r, s).
           if r < 0 then Panic ''create dots'' else Done s)))"

definition create :: "bytes \<Rightarrow> u16 \<Rightarrow> u16 \<Rightarrow> u16 \<Rightarrow> kstate \<Rightarrow> (nat option \<times> kstate) outcome" where
  "create path ty major minor s =
     obind (k_nameiparent path s) (\<lambda>(r, nm, s). case r of None \<Rightarrow> Done (None, s) | Some dp \<Rightarrow>
     obind (ilock (Some dp) s) (\<lambda>s.
     obind (dirlookup devsw_table dp nm s) (\<lambda>(r, s). case r of
         Some (ip, _) \<Rightarrow>
           obind (iunlockput dp s) (\<lambda>s.
           obind (ilock (Some ip) s) (\<lambda>s.
             if ty = T_FILE \<and> i_type (icache s ip) \<noteq> T_DIR then Done (Some ip, s)
             else obind (iunlockput ip s) (\<lambda>s. Done (None, s))))
       | None \<Rightarrow>
           obind (ialloc (i_dev (icache s dp)) ty s) (\<lambda>(ip, s).
           obind (ilock (Some ip) s) (\<lambda>s.
           obind (iupdate ip (upd_inode ip (\<lambda>x. x\<lparr>i_major := major, i_minor := minor, i_nlink := 1\<rparr>) s)) (\<lambda>s.
           obind (if ty = T_DIR then create_dots dp ip s else Done s) (\<lambda>s.
           obind (dirlink devsw_table dp nm (i_inum (icache s ip)) s) (\<lambda>(r, s).
             if r < 0 then Panic ''create: dirlink''
             else obind (iunlockput dp s) (\<lambda>s. Done (Some ip, s))))))))))"

text \<open>The first half of \<open>sys_open\<close>: the locked inode, or the error result after the operation has ended.\<close>

definition open_inode :: "bytes \<Rightarrow> u32 \<Rightarrow> kstate \<Rightarrow> ((int + nat) \<times> kstate) outcome" where
  "open_inode path omode s =
     (let fail = (\<lambda>e s. obind (end_op s) (\<lambda>s. Done (Inl e, s))) in
      if omode AND O_CREATE \<noteq> 0
      then obind (create path T_FILE 0 0 s) (\<lambda>(r, s). case r of None \<Rightarrow> fail EEXIST s | Some ip \<Rightarrow> Done (Inr ip, s))
      else
        obind (k_namei path s) (\<lambda>(r, s). case r of None \<Rightarrow> fail ENOENT s | Some ip \<Rightarrow>
        obind (ilock (Some ip) s) (\<lambda>s.
          if i_type (icache s ip) = T_DIR \<and> omode \<noteq> O_RDONLY then obind (iunlockput ip s) (\<lambda>s. fail EISDIR s)
          else Done (Inr ip, s))))"

text \<open>The second half: a file and a descriptor for the locked inode.\<close>

definition open_file :: "nat \<Rightarrow> u32 \<Rightarrow> kstate \<Rightarrow> (int \<times> kstate) outcome" where
  "open_file ip omode s =
     (case filealloc s of
        (None, s) \<Rightarrow> obind (iunlockput ip s) (\<lambda>s. end_with EACCES s)
      | (Some f, s) \<Rightarrow>
          (case fdalloc f s of (fd, s) \<Rightarrow>
             if fd < 0 then obind (fileclose f s) (\<lambda>s. obind (iunlockput ip s) (\<lambda>s. end_with EACCES s))
             else
               obind (if omode AND O_TRUNC \<noteq> 0 then itrunc ip s else Done s) (\<lambda>s.
               obind (iunlock (Some ip) s) (\<lambda>s.
               obind (end_op s) (\<lambda>s.
                 let s = upd_file f (\<lambda>x. x\<lparr>f_type := FD_INODE, f_ip := Some ip, f_off := 0,
                       readable := (omode AND O_WRONLY = 0),
                       writable := (omode AND O_WRONLY \<noteq> 0 \<or> omode AND O_RDWR \<noteq> 0)\<rparr>) s;
                     s = (if omode AND O_APPEND \<noteq> 0 then upd_file f (\<lambda>x. x\<lparr>f_off := i_size (icache s ip)\<rparr>) s else s)
                 in Done (fd, s))))))"

definition sys_open :: "kstate \<Rightarrow> (int \<times> kstate) outcome" where
  "sys_open s =
     obind (argstr 0 s) (\<lambda>r. case r of None \<Rightarrow> Done (EINVAL, s) | Some path \<Rightarrow>
     obind (argint 1 s) (\<lambda>r. case r of None \<Rightarrow> Done (EINVAL, s) | Some omode \<Rightarrow>
     obind (begin_op s) (\<lambda>s.
     obind (open_inode path omode s) (\<lambda>(r, s). case r of
         Inl e \<Rightarrow> Done (e, s)
       | Inr ip \<Rightarrow> open_file ip omode s))))"

definition sys_mkdir :: "kstate \<Rightarrow> (int \<times> kstate) outcome" where
  "sys_mkdir s =
     obind (begin_op s) (\<lambda>s.
     obind (argstr 0 s) (\<lambda>r. case r of None \<Rightarrow> end_with EEXIST s | Some path \<Rightarrow>
     obind (create path T_DIR 0 0 s) (\<lambda>(r, s). case r of None \<Rightarrow> end_with EEXIST s | Some ip \<Rightarrow>
     obind (iunlockput ip s) (\<lambda>s.
     end_with 0 s))))"

definition sys_mknod :: "kstate \<Rightarrow> (int \<times> kstate) outcome" where
  "sys_mknod s =
     obind (begin_op s) (\<lambda>s.
     obind (argstr 0 s) (\<lambda>r. case r of None \<Rightarrow> end_with EINVAL s | Some path \<Rightarrow>
     obind (argint 1 s) (\<lambda>r. case r of None \<Rightarrow> end_with EINVAL s | Some major \<Rightarrow>
     obind (argint 2 s) (\<lambda>r. case r of None \<Rightarrow> end_with EINVAL s | Some minor \<Rightarrow>
     obind (create path T_DEV (ucast major) (ucast minor) s) (\<lambda>(r, s). case r of None \<Rightarrow> end_with EINVAL s | Some ip \<Rightarrow>
     obind (iunlockput ip s) (\<lambda>s.
     end_with 0 s))))))"

section \<open>The current directory\<close>

definition ichdir :: "nat option \<Rightarrow> kstate \<Rightarrow> (int \<times> kstate) outcome" where
  "ichdir p s =
     obind (ilock p s) (\<lambda>s.
       if i_type (icache s (the p)) \<noteq> T_DIR then obind (iunlockput (the p) s) (\<lambda>s. end_with ENOTDIR s)
       else
         obind (iunlock p s) (\<lambda>s.
         obind (put_ip (p_cwd (myproc s)) s) (\<lambda>s.
         obind (end_op s) (\<lambda>s.
         Done (0, upd_cur (\<lambda>x. x\<lparr>p_cwd := p\<rparr>) s)))))"

definition sys_chdir :: "kstate \<Rightarrow> (int \<times> kstate) outcome" where
  "sys_chdir s =
     obind (begin_op s) (\<lambda>s.
     obind (argstr 0 s) (\<lambda>r. case r of None \<Rightarrow> end_with ENOENT s | Some path \<Rightarrow>
     obind (k_namei path s) (\<lambda>(r, s). case r of None \<Rightarrow> end_with ENOENT s | Some ip \<Rightarrow>
     ichdir (Some ip) s)))"

definition sys_fchdir :: "kstate \<Rightarrow> (int \<times> kstate) outcome" where
  "sys_fchdir s =
     obind (argfd 0 s) (\<lambda>r. case r of None \<Rightarrow> Done (EBADF, s) | Some (_, f) \<Rightarrow> ichdir (f_ip (ftable s f)) s)"

section \<open>Programs, pipes and devices\<close>

text \<open>
  The loop of \<open>sys_exec\<close> that collects the argument strings: \<open>k\<close> more slots in \<open>argv\<close>, the next pointer
  at \<open>uargv\<close>.
\<close>

primrec exec_argv :: "nat \<Rightarrow> u32 \<Rightarrow> kstate \<Rightarrow> (int + bytes list) outcome" where
  "exec_argv 0 uargv s = Done (Inl E2BIG)"
| "exec_argv (Suc k) uargv s =
     obind (fetchint uargv s) (\<lambda>r. case r of None \<Rightarrow> Done (Inl EINVAL) | Some uarg \<Rightarrow>
       if uarg = 0 then Done (Inr [])
       else
         obind (fetchstr uarg s) (\<lambda>r. case r of None \<Rightarrow> Done (Inl ENOENT) | Some a \<Rightarrow>
         obind (exec_argv k (uargv + 4) s) (\<lambda>r. Done (case r of Inl e \<Rightarrow> Inl e | Inr as \<Rightarrow> Inr (a # as)))))"

definition sys_exec :: "bytes \<Rightarrow> kstate \<Rightarrow> (int \<times> kstate) outcome" where
  "sys_exec elf0 s =
     obind (argstr 0 s) (\<lambda>r. case r of None \<Rightarrow> Done (EINVAL, s) | Some path \<Rightarrow>
     obind (argint 1 s) (\<lambda>r. case r of None \<Rightarrow> Done (EINVAL, s) | Some uargv \<Rightarrow>
     obind (exec_argv MAXARG uargv s) (\<lambda>r. case r of
         Inl e \<Rightarrow> Done (e, s)
       | Inr argv \<Rightarrow> exec elf0 path argv s)))"

definition sys_pipe :: "kstate \<Rightarrow> (int \<times> kstate) outcome" where
  "sys_pipe s =
     obind (argptr 0 8 s) (\<lambda>r. case r of None \<Rightarrow> Done (EINVAL, s) | Some fd \<Rightarrow>
     obind (pipealloc s) (\<lambda>(r, s). case r of None \<Rightarrow> Done (EMFILE, s) | Some (rdf, wrf) \<Rightarrow>
       let fail = (\<lambda>s. obind (fileclose rdf s) (\<lambda>s. obind (fileclose wrf s) (\<lambda>s. Done (ENFILE, s)))) in
       case fdalloc rdf s of (fd0, s) \<Rightarrow>
         if fd0 < 0 then fail s
         else (case fdalloc wrf s of (fd1, s) \<Rightarrow>
           if fd1 < 0 then fail (upd_cur (\<lambda>x. x\<lparr>p_ofile := (p_ofile x)(nat fd0 := None)\<rparr>) s)
           else
             obind (uwrite (bytes_of_u32 (of_int fd0)) fd s) (\<lambda>s.
             obind (uwrite (bytes_of_u32 (of_int fd1)) (fd + 4) s) (\<lambda>s.
             Done (0, s))))))"

text \<open>
  The loop of \<open>sys_lseek\<close> that fills the gap with zeros, at the offset of the file, from the page at
  \<open>zeroed\<close>: \<open>zerosize\<close> bytes remain.
\<close>

function lseek_fill :: "nat \<Rightarrow> u32 \<Rightarrow> int \<Rightarrow> kstate \<Rightarrow> kstate outcome" where
  "lseek_fill f zeroed zerosize s =
     (if zerosize > 0
      then obind (filewrite f zeroed (of_int zerosize) s) (\<lambda>(_, s). lseek_fill f zeroed (zerosize - 4096) s)
      else Done s)"
  by auto
termination
  by (relation "measure (\<lambda>(f, zeroed, zerosize, s). nat zerosize)") auto

text \<open>
  \<open>sys_lseek\<close>; \<open>newoff0\<close> is what the variable \<open>newoff\<close> holds before it is set. A file that is not an inode
  has a null pointer where the code reads the size.
\<close>

definition lseek_offset :: "u32 \<Rightarrow> u32 \<Rightarrow> u32 \<Rightarrow> file_struct \<Rightarrow> u32 \<Rightarrow> u32" where
  "lseek_offset newoff0 offset base x size' =
     (if base = SEEK_SET then offset
      else if base = SEEK_CUR then f_off x + offset
      else if base = SEEK_END then size' + offset
      else newoff0)"

definition sys_lseek :: "u32 \<Rightarrow> kstate \<Rightarrow> (int \<times> kstate) outcome" where
  "sys_lseek newoff0 s =
     obind (argfd 0 s) (\<lambda>r. case r of None \<Rightarrow> Done (EINVAL, s) | Some (_, f) \<Rightarrow>
     obind (argint 1 s) (\<lambda>r. case r of None \<Rightarrow> Done (EINVAL, s) | Some offset \<Rightarrow>
     obind (argint 2 s) (\<lambda>r. case r of None \<Rightarrow> Done (EINVAL, s) | Some base \<Rightarrow>
       case f_ip (ftable s f) of
         None \<Rightarrow> Panic ''trap''
       | Some ip \<Rightarrow>
           let size' = i_size (icache s ip);
               newoff = lseek_offset newoff0 offset base (ftable s f) size'
           in if sint newoff < 0 then Done (EINVAL, s)
              else
                obind (if newoff > size'
                       then
                         case k_alloc s of (zeroed, s) \<Rightarrow>
                           obind (uwrite (replicate 4096 0) zeroed s) (\<lambda>s.
                           obind (lseek_fill f zeroed (sint (newoff - size')) s) (\<lambda>s.
                           on_km' (kfree zeroed) s))
                       else Done s) (\<lambda>s.
                Done (sint newoff, upd_file f (\<lambda>x. x\<lparr>f_off := newoff\<rparr>) s)))))"

definition sys_ioctl :: "kstate \<Rightarrow> (int \<times> kstate) outcome" where
  "sys_ioctl s =
     obind (argfd 0 s) (\<lambda>r. case r of None \<Rightarrow> Done (EINVAL, s) | Some (_, f) \<Rightarrow>
     obind (argint 1 s) (\<lambda>r. case r of None \<Rightarrow> Done (EINVAL, s) | Some request \<Rightarrow>
       if f_type (ftable s f) \<noteq> FD_INODE then Done (ENOTTY, s)
       else case f_ip (ftable s f) of
         None \<Rightarrow> Panic ''trap''
       | Some ip \<Rightarrow>
           let x = icache s ip in
           if i_type x \<noteq> T_DEV then Done (ENOTTY, s)
           else if sint (i_major x) < 0 \<or> sint (i_major x) \<ge> int NDEV then Done (ENOTTY, s)
           else (case dev_ioctl (devsw_table (unat (i_major x))) of
               None \<Rightarrow> Done (ENOTTY, s)
             | Some io \<Rightarrow> io ip request s)))"

declare lseek_fill.simps [simp del]

end
