(* ===== verification/Trap.thy ===== *)
theory Trap
  imports Sysfile
begin

text \<open>
  System calls on processes (\<open>kern/sysproc.c\<close>), the dispatch of system calls (\<open>kern/syscall.c\<close>) and of
  traps (\<open>kern/trap.c\<close>). The values of uninitialised variables and what devices deliver are arguments.
  \<open>exit\<close> does not return to its caller, so a result says whether the call returned.
\<close>

section \<open>System calls on processes\<close>

definition ENOMEM :: int where "ENOMEM = -12"

definition sys_fork :: "kstate \<Rightarrow> (int \<times> kstate) outcome" where
  "sys_fork s = fork s"

definition sys_exit :: "kstate \<Rightarrow> kstate outcome" where
  "sys_exit s = obind (argint 0 s) (\<lambda>r. exit (case r of None \<Rightarrow> 0 | Some v \<Rightarrow> v) s)"

definition sys_wait :: "kstate \<Rightarrow> (int \<times> kstate) outcome" where
  "sys_wait s = obind (argptr 0 4 s) (\<lambda>r. wait (case r of None \<Rightarrow> 0 | Some p \<Rightarrow> p) s)"

definition sys_kill :: "kstate \<Rightarrow> (int \<times> kstate) outcome" where
  "sys_kill s = obind (argint 0 s) (\<lambda>r. case r of None \<Rightarrow> Done (EINVAL, s) | Some pid \<Rightarrow> Done (kill pid s))"

definition sys_getpid :: "kstate \<Rightarrow> (int \<times> kstate) outcome" where
  "sys_getpid s = Done (sint (p_pid (myproc s)), s)"

definition sys_sbrk :: "kstate \<Rightarrow> (int \<times> kstate) outcome" where
  "sys_sbrk s =
     obind (argint 0 s) (\<lambda>r. case r of None \<Rightarrow> Done (EINVAL, s) | Some n \<Rightarrow>
       let addr = sint (p_sz (myproc s)) in
       obind (growproc n s) (\<lambda>(r, s). if r < 0 then Done (ENOMEM, s) else Done (addr, s)))"

text \<open>The loop of \<open>sys_sleep\<close>, entered again after every wakeup.\<close>

definition sleep_loop :: "u32 \<Rightarrow> u32 \<Rightarrow> kstate \<Rightarrow> (int \<times> kstate) outcome" where
  "sleep_loop n ticks0 s =
     (if ticks s - ticks0 < n then if p_killed (myproc s) then Done (EINVAL, s) else Sleep Chan_Ticks
      else Done (0, s))"

definition sys_sleep :: "kstate \<Rightarrow> (int \<times> kstate) outcome" where
  "sys_sleep s =
     obind (argint 0 s) (\<lambda>r. case r of None \<Rightarrow> Done (EINVAL, s) | Some n \<Rightarrow> sleep_loop n (ticks s) s)"

definition sys_uptime :: "kstate \<Rightarrow> (int \<times> kstate) outcome" where
  "sys_uptime s = Done (sint (ticks s), s)"

text \<open>\<open>sys_time\<close> returns the clock; its computation from the device registers is a theory of its own.\<close>

definition k_time :: "kstate \<Rightarrow> (int \<times> kstate) outcome" where
  "k_time s = Done (sint (now s), s)"

section \<open>Dispatch\<close>

datatype 'a call = Returned 'a | Exited kstate

definition returned :: "(int \<times> kstate) outcome \<Rightarrow> (int \<times> kstate) call outcome" where
  "returned r = obind r (\<lambda>x. Done (Returned x))"

text \<open>The table \<open>syscalls\<close>; \<open>elf0\<close> and \<open>newoff0\<close> stand for uninitialised variables of two calls.\<close>

definition syscalls :: "bytes \<Rightarrow> u32 \<Rightarrow> nat \<Rightarrow> (kstate \<Rightarrow> (int \<times> kstate) call outcome) option" where
  "syscalls elf0 newoff0 num =
     (if num = 2 then Some (\<lambda>s. obind (sys_exit s) (\<lambda>s. Done (Exited s)))
      else map_option (\<lambda>f s. returned (f s)) (map_of
        [(1, sys_fork), (3, sys_wait), (4, sys_pipe), (5, sys_read), (6, sys_kill), (7, sys_exec elf0),
         (8, sys_fstat), (9, sys_chdir), (10, sys_dup), (11, sys_getpid), (12, sys_sbrk), (13, sys_sleep),
         (14, sys_uptime), (15, sys_open), (16, sys_write), (17, sys_mknod), (18, sys_unlink), (19, sys_link),
         (20, sys_mkdir), (21, sys_close), (22, sys_lseek newoff0), (23, sys_ioctl), (24, k_time), (25, sys_fchdir)] num))"

text \<open>A C string literal of ASCII characters.\<close>

definition ascii :: "string \<Rightarrow> bytes" where
  "ascii cs = map of_char cs"

definition name_str :: "proc \<Rightarrow> bytes" where
  "name_str p = takeWhile (\<lambda>c. c \<noteq> 0) (p_name p)"

definition syscall :: "bytes \<Rightarrow> u32 \<Rightarrow> kstate \<Rightarrow> kstate call outcome" where
  "syscall elf0 newoff0 s =
     (let num = sint (tf_eax (p_tf (myproc s)));
          set_eax = (\<lambda>v. upd_cur (\<lambda>x. x\<lparr>p_tf := (p_tf x)\<lparr>tf_eax := v\<rparr>\<rparr>))
      in case (if 0 < num then syscalls elf0 newoff0 (nat num) else None) of
           Some f \<Rightarrow>
             obind (f s) (\<lambda>r. case r of
                 Returned (v, s) \<Rightarrow> Done (Returned (set_eax (of_int v) s))
               | Exited s \<Rightarrow> Done (Exited s))
         | None \<Rightarrow>
             obind (on_cons (cprintf (\<lambda>_. name_str (myproc s)) (\<lambda>i. [p_pid (myproc s), 1, of_int num] ! i)
               (Some (ascii ''%d %s: unknown sys call %d'' @ [10]))) s) (\<lambda>s.
             Done (Returned (set_eax (-1) s))))"

section \<open>Traps\<close>

definition T_SYSCALL :: nat where "T_SYSCALL = 64"
definition T_IRQ0 :: nat where "T_IRQ0 = 32"
definition IRQ_TIMER :: nat where "IRQ_TIMER = 0"
definition IRQ_KBD :: nat where "IRQ_KBD = 1"
definition IRQ_COM1 :: nat where "IRQ_COM1 = 4"
definition IRQ_RTC :: nat where "IRQ_RTC = 8"
definition IRQ_IDE :: nat where "IRQ_IDE = 14"
definition IRQ_SPURIOUS :: nat where "IRQ_SPURIOUS = 31"

text \<open>The characters the keyboard and the serial port deliver, and the faulting address.\<close>

record trap_input =
  ti_kbd :: "int list"
  ti_uart :: "int list"
  ti_cr2 :: u32

text \<open>A terminal interrupt in the state of the kernel: the wakeup and the listing it asks for.\<close>

definition k_consoleintr :: "int list \<Rightarrow> nat \<Rightarrow> kstate \<Rightarrow> kstate outcome" where
  "k_consoleintr cs minor s =
     obind (consoleintr cs minor (cons s)) (\<lambda>(w, dump, c).
       let s = s\<lparr>cons := c\<rparr>; s = (if w then wakeup (Chan_Input minor) s else s) in
       if dump then procdump s else Done s)"

text \<open>
  The \<open>switch\<close> of \<open>trap\<close>. The interrupt of the disk does nothing with the disk in memory, and writing to
  the interrupt controller is not part of the state.
\<close>

definition trap_switch :: "trap_input \<Rightarrow> trapframe \<Rightarrow> kstate \<Rightarrow> kstate outcome" where
  "trap_switch ti tf s =
     (let no = unat (tf_trapno tf) in
      if no = T_IRQ0 + IRQ_TIMER
      then Done (if cpu_id s = 0 then wakeup Chan_Ticks (s\<lparr>ticks := ticks s + 1\<rparr>) else s)
      else if no = T_IRQ0 + IRQ_IDE \<or> no = T_IRQ0 + IRQ_IDE + 1 then Done s
      else if no = T_IRQ0 + IRQ_KBD then k_consoleintr (ti_kbd ti) 1 s
      else if no = T_IRQ0 + IRQ_COM1 then k_consoleintr (ti_uart ti) 0 s
      else if no = T_IRQ0 + IRQ_RTC then Done s
      else if no = T_IRQ0 + 7 \<or> no = T_IRQ0 + IRQ_SPURIOUS
      then on_cons (cprintf (\<lambda>_. []) (\<lambda>i. [cpu_id s, ucast (tf_cs tf), tf_eip tf] ! i)
             (Some (ascii ''cpu%d: spurious interrupt at %x:%x'' @ [10]))) s
      else if cur s = None \<or> tf_cs tf AND 3 = 0 then Panic ''trap''
      else
        obind (on_cons (cprintf (\<lambda>_. name_str (myproc s))
          (\<lambda>i. [p_pid (myproc s), 1, tf_trapno tf, tf_err tf, cpu_id s, tf_eip tf, ti_cr2 ti] ! i)
          (Some (ascii ''pid %d %s: trap %d err %d on cpu %d eip 0x%x addr 0x%x--kill proc'' @ [10]))) s) (\<lambda>s.
        Done (upd_cur (\<lambda>x. x\<lparr>p_killed := True\<rparr>) s)))"

text \<open>Killed processes exit when they are about to return to user space.\<close>

definition killed_user :: "trapframe \<Rightarrow> kstate \<Rightarrow> bool" where
  "killed_user tf s \<longleftrightarrow> cur s \<noteq> None \<and> p_killed (myproc s) \<and> tf_cs tf AND 3 = DPL_USER"

definition exit_if :: "bool \<Rightarrow> kstate \<Rightarrow> kstate call outcome" where
  "exit_if b s = (if b then obind (exit 0 s) (\<lambda>s. Done (Exited s)) else Done (Returned s))"

text \<open>
  \<open>trap\<close> up to \<open>yield\<close>: the flag says that the process gives up the CPU here, and \<open>trap_resume\<close> is what it
  does when it runs again.
\<close>

definition trap_resume :: "trapframe \<Rightarrow> kstate \<Rightarrow> kstate call outcome" where
  "trap_resume tf s = exit_if (killed_user tf s) s"

definition trap :: "bytes \<Rightarrow> u32 \<Rightarrow> trap_input \<Rightarrow> trapframe \<Rightarrow> kstate \<Rightarrow> (bool \<times> kstate call) outcome" where
  "trap elf0 newoff0 ti tf s =
     (let fin = (\<lambda>r. obind r (\<lambda>c. Done (False, c))) in
      if unat (tf_trapno tf) = T_SYSCALL
      then
        if p_killed (myproc s) then fin (exit_if True s)
        else
          obind (syscall elf0 newoff0 (upd_cur (\<lambda>x. x\<lparr>p_tf := tf\<rparr>) s)) (\<lambda>c.
            case c of Exited s \<Rightarrow> Done (False, Exited s) | Returned s \<Rightarrow> fin (exit_if (p_killed (myproc s)) s))
      else
        obind (trap_switch ti tf s) (\<lambda>s.
          if killed_user tf s then fin (exit_if True s)
          else if cur s \<noteq> None \<and> p_state (myproc s) = RUNNING \<and> unat (tf_trapno tf) = T_IRQ0 + IRQ_TIMER
          then Done (True, Returned (upd_cur (\<lambda>x. x\<lparr>p_state := RUNNABLE\<rparr>) s))
          else fin (trap_resume tf s)))"

end
