(* ===== verification/Fs_Spec.thy ===== *)
theory Fs_Spec
  imports Fs_Dir
begin

text \<open>
  What the inode layer promises: an inode that is written back is read again, and other inodes are not
  touched; reading a file returns its contents; writing replaces the bytes that are given, inside a
  transaction, and leaves every other file alone; blocks are allocated from the free ones only.
\<close>

section \<open>Inodes on disk\<close>

lemma get16_patch_other:
  "off + length ys \<le> length d \<Longrightarrow> a + 2 \<le> length d \<Longrightarrow> a + 2 \<le> off \<or> off + length ys \<le> a \<Longrightarrow>
   get16 a (patch off ys d) = get16 a d"
  by (simp add: get16_def slice_patch_other)

lemma length_concat_u32: "length (concat (map (\<lambda>i. bytes_of_u32 (a i)) xs)) = 4 * length xs"
  by (induction xs) simp_all

lemma slice_concat_u32:
  "i < length xs \<Longrightarrow> slice (4 * i) 4 (concat (map bytes_of_u32 xs)) = bytes_of_u32 (xs ! i)"
proof (induction xs arbitrary: i)
  case (Cons x xs)
  then show ?case by (cases i) (simp_all add: slice_def)
qed simp

lemma slice_in_patch:
  assumes "off + length ys \<le> length d" "a + n \<le> length ys"
  shows "slice (off + a) n (patch off ys d) = slice a n ys"
  using assms by (intro nth_equalityI) (auto simp: nth_slice nth_patch)

lemma length_put_dinode: "off + sizeof_dinode \<le> length d \<Longrightarrow> length (put_dinode off x d) = length d"
  by (simp add: put_dinode_def Let_def length_concat_u32 layout_defs)

lemma get_put_dinode:
  assumes "off + sizeof_dinode \<le> length d"
  shows "get_dinode off (put_dinode off x d) y =
    y\<lparr>i_type := i_type x, i_major := i_major x, i_minor := i_minor x, i_nlink := i_nlink x, i_mtime := i_mtime x,
      i_size := i_size x, i_addrs := (\<lambda>i. if i \<le> NDIRECT then i_addrs x i else i_addrs y i)\<rparr>"
proof -
  have l: "off + 64 \<le> length d" using assms by (simp add: layout_defs)
  let ?a = "map (i_addrs x) [0..<NDIRECT + 1]"
  define A where "A = concat (map bytes_of_u32 ?a)"
  have m: "concat (map (\<lambda>i. bytes_of_u32 (i_addrs x i)) [0..<NDIRECT + 1]) = A"
    by (simp add: A_def comp_def)
  have la: "length A = 48" using length_concat_u32 [of id ?a] by (simp add: A_def layout_defs)
  have addr: "get32 (off + 16 + 4 * i) (patch (off + 16) A e) = i_addrs x i"
    if "i \<le> NDIRECT" "off + 64 \<le> length e" for i e
  proof -
    have i: "4 * i + 4 \<le> 48" "i < length ?a" using that(1) by (simp_all add: layout_defs)
    have "slice (off + 16 + 4 * i) 4 (patch (off + 16) A e) = slice (4 * i) 4 A"
      using that(2) la i(1) by (intro slice_in_patch) simp_all
    also have "\<dots> = bytes_of_u32 (i_addrs x i)" unfolding A_def using slice_concat_u32 [OF i(2)] i(2) by (simp del: upt_Suc)
    finally show ?thesis by (simp add: get32_def)
  qed
  have g: "k + 2 \<le> length e \<Longrightarrow> get16 k (patch k (bytes_of_u16 v) e) = v"
    "k + 4 \<le> length e \<Longrightarrow> get32 k (patch k (bytes_of_u32 w) e) = w" for k v w e
    by (simp_all add: get16_def get32_def slice_patch_same)
  note o = get16_patch_other get32_patch_other
  show ?thesis
    unfolding get_dinode_def put_dinode_def Let_def m put16_def put32_def
    using l by (simp add: o g addr la cong: if_cong)
qed

lemma dinode_range: "dinode_off n + sizeof_dinode \<le> BSIZE"
proof -
  have "unat n mod IPB < 16" by (simp add: layout_defs)
  then show ?thesis by (simp add: dinode_off_def layout_defs)
qed

lemma get_dinode_other:
  assumes "length d = BSIZE" "unat m mod IPB \<noteq> unat n mod IPB"
  shows "get_dinode (dinode_off m) (put_dinode (dinode_off n) x d) y = get_dinode (dinode_off m) d y"
proof -
  have r: "dinode_off n + 64 \<le> length d" "dinode_off m + 64 \<le> length d"
    using dinode_range [of n] dinode_range [of m] assms(1) by (simp_all add: layout_defs)
  have a: "dinode_off m + 64 \<le> dinode_off n \<or> dinode_off n + 64 \<le> dinode_off m"
    using assms(2) by (auto simp: dinode_off_def layout_defs)
  define A where "A = concat (map (\<lambda>i. bytes_of_u32 (i_addrs x i)) [0..<NDIRECT + 1])"
  have A: "length A = 48" unfolding A_def length_concat_u32 by (simp add: layout_defs)
  have o: "slice k j (put_dinode (dinode_off n) x d) = slice k j d"
    if "dinode_off m \<le> k" "k + j \<le> dinode_off m + 64" for k j
    unfolding put_dinode_def Let_def put16_def put32_def A_def [symmetric] using a that r
    by (auto simp: slice_patch_other A)
  show ?thesis by (simp add: get_dinode_def get16_def get32_def o layout_defs cong: if_cong)
qed

text \<open>The blocks that hold inodes lie between the log and the bitmap.\<close>

lemma inode_block:
  assumes l: "fs_layout s" and n: "n < sb_ninodes (sb s)"
  shows "unat (IBLOCK n (sb s)) = unat (sb_inodestart (sb s)) + unat n div IPB"
    "unat (IBLOCK n (sb s)) < unat (sb_bmapstart (sb s))" "unat (IBLOCK n (sb s)) < disksize s"
    "\<not> in_log s (IBLOCK n (sb s))" "IBLOCK n (sb s) \<noteq> 1" "IBLOCK n (sb s) \<notin> bitmap_set s"
proof -
  have "unat n div IPB \<le> unat (sb_ninodes (sb s)) div IPB"
    using n by (intro div_le_mono) (simp add: word_less_nat_alt)
  then have b: "unat (sb_inodestart (sb s)) + unat n div IPB < unat (sb_bmapstart (sb s))"
    and d: "unat (sb_bmapstart (sb s)) < disksize s" "disksize s < 2 ^ 31"
    using l unfolding fs_layout_def datastart_def by linarith+
  then have "unat (sb_inodestart (sb s)) + unat n div IPB < 2 ^ 31" by linarith
  then have "unat (sb_inodestart (sb s) + of_nat (unat n div IPB)) = unat (sb_inodestart (sb s)) + unat n div IPB"
    by (intro unat_add_of_nat) simp
  then show u: "unat (IBLOCK n (sb s)) = unat (sb_inodestart (sb s)) + unat n div IPB"
    by (simp add: IBLOCK_def add.commute)
  show lt: "unat (IBLOCK n (sb s)) < unat (sb_bmapstart (sb s))" "unat (IBLOCK n (sb s)) < disksize s"
    "\<not> in_log s (IBLOCK n (sb s))"
    using b d l unfolding u in_log_def fs_layout_def by linarith+
  have "1 < unat (IBLOCK n (sb s))" using l unfolding u fs_layout_def by linarith
  then show "IBLOCK n (sb s) \<noteq> 1" by auto
  show "IBLOCK n (sb s) \<notin> bitmap_set s"
  proof
    assume "IBLOCK n (sb s) \<in> bitmap_set s"
    then obtain b where "b < unat (sb_size (sb s))" "IBLOCK n (sb s) = BBLOCK b (sb s)" by (auto simp: bitmap_set_def)
    then show False using bitmap_block(1) [OF l, of b] lt(1) by simp
  qed
qed

lemma iupdate_wrote:
  fixes s :: "'a fs_state_scheme"
  assumes f: "fs_inv s" "busy s = {}" "room s 1" and x: "i_dev (icache s ip) = 1" "i_inum (icache s ip) < sb_ninodes (sb s)"
  defines "n \<equiv> i_inum (icache s ip)"
  obtains t where "iupdate ip s = Done t"
    "wrote s [(IBLOCK n (sb s), put_dinode (dinode_off n) (icache s ip) (blk s (IBLOCK n (sb s))))] t"
proof -
  note fi = fs_invD [OF f(1)]
  note b = inode_block [OF fi(3) x(2)]
  have nb: "IBLOCK (i_inum (icache s ip)) (sb s) \<notin> busy s" "room s (Suc (card (busy s)))" using f(2,3) by simp_all
  obtain i t where e: "bread 1 (IBLOCK n (sb s)) s = Done (i, t)" "data (bufs t i) = blk s (IBLOCK n (sb s))"
    "\<And>d. length d = BSIZE \<Longrightarrow>
       \<exists>u v. log_write i (set_data i d t) = Done u \<and> brelse i u = Done v \<and> wrote s [(IBLOCK n (sb s), d)] v \<and>
         log_state.more u = log_state.more s"
    unfolding n_def using edit_block [OF fi(1) nb(1) b(3,4) nb(2)] by metis
  have "length (blk s (IBLOCK n (sb s))) = BSIZE" unfolding n_def by (rule length_block [OF f(1) b(3)])
  then have "length (put_dinode (dinode_off n) (icache s ip) (blk s (IBLOCK n (sb s)))) = BSIZE"
    using dinode_range [of n] by (simp add: length_put_dinode)
  from e(3) [OF this] obtain u v where u: "log_write i (set_data i (put_dinode (dinode_off n) (icache s ip) (blk s (IBLOCK n (sb s)))) t) = Done u"
    "brelse i u = Done v"
    "wrote s [(IBLOCK n (sb s), put_dinode (dinode_off n) (icache s ip) (blk s (IBLOCK n (sb s))))] v"
    by blast
  have "iupdate ip s = Done v" using e(1,2) u(1,2) x(1) by (simp add: iupdate_def Let_def n_def)
  then show ?thesis using that u(3) by blast
qed

text \<open>Writing a block of inodes changes neither the bitmap nor the blocks of any file.\<close>

lemma inode_write_frame:
  fixes s :: "'a fs_state_scheme"
  assumes f: "fs_inv s" and w: "wrote s [(IBLOCK n (sb s), d)] t" and n: "n < sb_ninodes (sb s)"
  shows "fs_inv t" "sb t = sb s" "icache t = icache s" "c < unat (sb_size (sb s)) \<Longrightarrow> used t c = used s c"
    "map_ok ip s \<Longrightarrow> map_ok ip t" "map_ok ip s \<Longrightarrow> k \<le> MAXFILE \<Longrightarrow> slot ip t k = slot ip s k"
    "map_ok ip s \<Longrightarrow> k < MAXFILE \<Longrightarrow> fblock ip t k = fblock ip s k"
proof -
  let ?b = "IBLOCK n (sb s)"
  note fi = fs_invD [OF f] and b = inode_block [OF fs_invD(3) [OF f] n]
  have bt: "blk t = (blk s)(?b := d)" using w by (simp add: edits_def)
  have one: "1 \<notin> fst ` set [(?b, d)]" using b(5) by auto
  note lay = layout_frame [OF w fi(3) one]
  show "sb t = sb s" by (fact lay)
  show ic: "icache t = icache s" using w fs_more(2) [of t s] by (simp add: edits_def)
  show u: "used t c = used s c" if c: "c < unat (sb_size (sb s))" for c
  proof (rule used_frame [OF w fi(3) c])
    have "BBLOCK c (sb s) \<in> bitmap_set s" using c by (simp add: bitmap_set_def)
    then have "BBLOCK c (sb s) \<noteq> ?b" using b(6) by metis
    then show "BBLOCK c (sb s) \<notin> fst ` set [(?b, d)]" by simp
  qed
  have "datastart s \<le> unat (sb_size (sb s))" using fi(3) by (simp add: fs_layout_def)
  then show it: "fs_inv t" unfolding fs_inv_def using lay edits_txn [OF w fi(1)] u fi(4) by auto
  have dk: "data_ok t a = data_ok s a" for a using u lay by (auto simp: data_ok_def)
  have other: "blk t a = blk s a" if "data_ok s a" for a
  proof -
    have "datastart s \<le> unat a" using that by (simp add: data_ok_def)
    then have "a \<noteq> ?b" using b(2) by (auto simp: datastart_def)
    then show ?thesis by (simp add: bt)
  qed
  show sl: "slot ip t k = slot ip s k" if "map_ok ip s" "k \<le> MAXFILE" for ip k
  proof (cases "i_addrs (icache s ip) NDIRECT = 0")
    case True
    then show ?thesis using ic by (simp add: slot_def Let_def)
  next
    case False
    then have "data_ok s (i_addrs (icache s ip) NDIRECT)"
      using map_okD(2) [OF that(1), of MAXFILE] by (simp add: slot_simps(2))
    then show ?thesis using other ic by (intro slot_cong) simp_all
  qed
  show "fblock ip t k = fblock ip s k" if "map_ok ip s" "k < MAXFILE" for ip k
    using sl [OF that(1), of k] map_okD(2) [OF that(1), of k] other that(2) by (auto simp: fblock_def)
  show "map_ok ip t" if "map_ok ip s" for ip
    using that sl [OF that] dk ic unfolding map_ok_def by simp
qed

lemma upd_buf_icache: "upd_buf b f (s\<lparr>icache := c\<rparr>) = (upd_buf b f s)\<lparr>icache := c\<rparr>"
  by (cases s) (simp add: upd_buf_def)

lemma brelse_icache: "brelse b (s\<lparr>icache := c\<rparr>) = obind (brelse b s) (\<lambda>t. Done (t\<lparr>icache := c\<rparr>))"
  by (simp add: brelse_def blru_front_def Let_def upd_buf_icache nxt_def prv_def)

lemma get_dinode_flags: "get_dinode off d (x\<lparr>i_flags := g\<rparr>) = (get_dinode off d x)\<lparr>i_flags := g\<rparr>"
  by (cases x) (simp add: get_dinode_def cong: if_cong)

lemma ilock_reads:
  fixes s :: "'a fs_state_scheme"
  assumes f: "fs_inv s" "busy s = {}" "room s 0" and x: "i_dev (icache s ip) = 1" "i_inum (icache s ip) < sb_ninodes (sb s)"
    "i_ref (icache s ip) \<ge> 1" "i_flags (icache s ip) = {}"
  defines "y \<equiv> get_dinode (dinode_off (i_inum (icache s ip))) (blk s (IBLOCK (i_inum (icache s ip)) (sb s))) (icache s ip)"
  shows "if i_type y = 0 then ilock (Some ip) s = Panic ''ilock: no type''
    else \<exists>t. ilock (Some ip) s = Done t \<and> icache t ip = y\<lparr>i_flags := {I_BUSY, I_VALID}\<rparr> \<and>
      (\<forall>jp. jp \<noteq> ip \<longrightarrow> icache t jp = icache s jp) \<and> blk t = blk s \<and> fs_inv t \<and> busy t = {} \<and> sb t = sb s"
proof -
  let ?s = "upd_inode ip (\<lambda>x. x\<lparr>i_flags := insert I_BUSY (i_flags x)\<rparr>) s" and ?n = "IBLOCK (i_inum (icache s ip)) (sb s)"
  note fi = fs_invD [OF f(1)] and b = inode_block [OF fs_invD(3) [OF f(1)] x(2)]
  have l: "linv ?s" "?n \<notin> busy ?s" "unat ?n < disksize ?s" "room ?s (card (busy ?s))" using fi(2) f(2,3) b(3) by simp_all
  obtain i t u where t: "bread 1 ?n ?s = Done (i, t)" "data (bufs t i) = blk ?s ?n"
    "log_state.more t = log_state.more ?s" "brelse i t = Done u" "wrote ?s [] u"
    by (rule peek_block [OF l])
  have ic: "icache t = icache ?s" "sb t = sb s" using fs_more [OF t(3)] by simp_all
  let ?c = "(icache s)(ip := y\<lparr>i_flags := {I_BUSY}\<rparr>)" and ?C = "(icache s)(ip := y\<lparr>i_flags := {I_BUSY, I_VALID}\<rparr>)"
  have "upd_inode ip (get_dinode (dinode_off (i_inum (icache s ip))) (data (bufs t i))) t = t\<lparr>icache := ?c\<rparr>"
    using x(4) by (simp add: upd_inode_def ic t(2) y_def get_dinode_flags)
  then have step: "brelse i (upd_inode ip (get_dinode (dinode_off (i_inum (icache s ip))) (data (bufs t i))) t) = Done (u\<lparr>icache := ?c\<rparr>)"
    using t(4) by (simp add: brelse_icache)
  have fin: "upd_inode ip (\<lambda>x. x\<lparr>i_flags := insert I_VALID (i_flags x)\<rparr>) (u\<lparr>icache := ?c\<rparr>) = u\<lparr>icache := ?C\<rparr>"
    by (simp add: upd_inode_def insert_commute)
  have il: "ilock (Some ip) s = (if i_type y = 0 then Panic ''ilock: no type'' else Done (u\<lparr>icache := ?C\<rparr>))"
    using x t(1) step by (simp add: ilock_def Let_def fin)
  have "blk u = blk s" "fs_inv u" "busy u = {}" "sb u = sb s"
    using t(5) wrote_same(3,5) [OF t(5)] f(1,2) by (simp_all add: edits_def)
  then show ?thesis by (simp add: il)
qed

section \<open>Other files\<close>

text \<open>Growing a file or writing to it leaves the blocks of every other file alone.\<close>

lemma extended_other:
  fixes s :: "'a fs_state_scheme"
  assumes f: "fs_inv s" and e: "extended ip s ws t" and j: "jp \<noteq> ip" "map_ok jp s" "owned jp s \<inter> owned ip s = {}"
  shows "icache t jp = icache s jp" "map_ok jp t" "k \<le> MAXFILE \<Longrightarrow> slot jp t k = slot jp s k"
    "k < MAXFILE \<Longrightarrow> fblock jp t k = fblock jp s k" "owned jp t \<inter> owned ip t = {}"
proof -
  obtain a where w: "wrote (s\<lparr>icache := (icache s)(ip := (icache s ip)\<lparr>i_addrs := a\<rparr>)\<rparr>) ws t"
    by (rule extended_wrote [OF e])
  note wf = wrote_fields [OF w] and ed = extendedD [OF e]
  have more: "log_state.more t = log_state.more (s\<lparr>icache := (icache s)(ip := (icache s ip)\<lparr>i_addrs := a\<rparr>)\<rparr>)"
    and bt: "blk t = upds ws (blk s)"
    using w by (simp_all add: edits_def)
  show ic: "icache t jp = icache s jp" using fs_more(2) [OF more] j(1) by simp
  have sbt: "sb t = sb s" using fs_more(1) [OF more] by simp
  have no: "n \<notin> owned ip t" if "n \<in> owned jp s" for n
  proof
    assume "n \<in> owned ip t"
    moreover have "n \<notin> owned ip s" using that j(3) by auto
    ultimately have "\<not> used s (unat n)" using ed(4) by blast
    then show False using owned_data [OF j(2) that] by (simp add: data_ok_def)
  qed
  have blk: "blk t n = blk s n" if n: "n \<in> owned jp s" for n
  proof -
    have "n \<notin> bitmap_set s" using data_okD(3) [OF f owned_data [OF j(2) n]] .
    then have "n \<notin> fst ` set ws" using ed(6) no [OF n] by auto
    then show ?thesis by (simp add: bt upds_other)
  qed
  have own: "slot jp s k \<in> owned jp s" if "slot jp s k \<noteq> 0" "k \<le> MAXFILE" for k
    using that by (auto simp: owned_iff)
  show sl: "slot jp t k = slot jp s k" if "k \<le> MAXFILE" for k
  proof (cases "i_addrs (icache s jp) NDIRECT = 0")
    case True
    then show ?thesis using ic by (simp add: slot_def Let_def)
  next
    case False
    then have "blk t (i_addrs (icache s jp) NDIRECT) = blk s (i_addrs (icache s jp) NDIRECT)"
      using blk own [of MAXFILE] by (simp add: slot_simps(2))
    then show ?thesis using ic by (intro slot_cong) simp_all
  qed
  show "fblock jp t k = fblock jp s k" if "k < MAXFILE" for k
    using sl [of k] blk own [of k] that by (auto simp: fblock_def)
  have ot: "owned jp t = owned jp s" using sl by (auto simp: owned_def)
  then show "owned jp t \<inter> owned ip t = {}" using no by auto
  have "data_ok t n" if "data_ok s n" for n
    using that ed(5) [of "unat n"] sbt by (simp add: data_ok_def datastart_def)
  then show "map_ok jp t" using j(2) sl ic unfolding map_ok_def by simp
qed

section \<open>Changing the fields of an inode\<close>

lemma slot_upd_inode:
  assumes "\<And>x. i_addrs (f x) = i_addrs x"
  shows "slot jp (upd_inode ip f s) k = slot jp s k"
  using assms by (simp add: slot_def Let_def)

lemma file_upd_inode:
  assumes "\<And>x. i_addrs (f x) = i_addrs x" "\<And>x. i_dev (f x) = i_dev x"
  shows "map_ok jp (upd_inode ip f s) = map_ok jp s" "fblock jp (upd_inode ip f s) = fblock jp s"
    "content jp (upd_inode ip f s) = content jp s" "owned jp (upd_inode ip f s) = owned jp s"
  using assms
  by (auto simp: map_ok_def data_ok_def fblock_def content_def owned_def slot_upd_inode fun_eq_iff)

lemma content_cong:
  assumes "\<And>k. k < MAXFILE \<Longrightarrow> fblock jp t k = fblock jp s k" "i < MAXFILE * BSIZE"
  shows "content jp t i = content jp s i"
  using assms by (simp add: content_def less_mult_imp_div_less)

section \<open>Writing\<close>

text \<open>The inode with number \<open>n\<close> as the disk has it, in the other fields of \<open>y\<close>.\<close>

definition on_disk :: "'a fs_state_scheme \<Rightarrow> u32 \<Rightarrow> inode \<Rightarrow> inode" where
  "on_disk s n y = get_dinode (dinode_off n) (blk s (IBLOCK n (sb s))) y"

definition copy_dinode :: "inode \<Rightarrow> inode \<Rightarrow> inode" where
  "copy_dinode x y = y\<lparr>i_type := i_type x, i_major := i_major x, i_minor := i_minor x, i_nlink := i_nlink x,
     i_mtime := i_mtime x, i_size := i_size x, i_addrs := (\<lambda>i. if i \<le> NDIRECT then i_addrs x i else i_addrs y i)\<rparr>"

lemma iupdate_on_disk:
  fixes s :: "'a fs_state_scheme"
  assumes f: "fs_inv s" and x: "i_inum (icache s ip) < sb_ninodes (sb s)"
    and w: "wrote s [(IBLOCK (i_inum (icache s ip)) (sb s),
      put_dinode (dinode_off (i_inum (icache s ip))) (icache s ip) (blk s (IBLOCK (i_inum (icache s ip)) (sb s))))] t"
    and m: "m < sb_ninodes (sb s)"
  shows "on_disk t m y = (if m = i_inum (icache s ip) then copy_dinode (icache s ip) y else on_disk s m y)"
proof -
  let ?n = "i_inum (icache s ip)"
  note fi = fs_invD [OF f]
  note bn = inode_block [OF fi(3) x] and bm = inode_block [OF fi(3) m]
  have l: "length (blk s (IBLOCK ?n (sb s))) = BSIZE" by (rule length_block [OF f bn(3)])
  have sbt: "sb t = sb s" by (rule inode_write_frame(2) [OF f w x])
  have bt: "blk t = (blk s)(IBLOCK ?n (sb s) := put_dinode (dinode_off ?n) (icache s ip) (blk s (IBLOCK ?n (sb s))))"
    using w by (simp add: edits_def)
  show ?thesis
  proof (cases "IBLOCK m (sb s) = IBLOCK ?n (sb s)")
    case True
    then have d: "unat m div IPB = unat ?n div IPB" using bn(1) bm(1) by simp
    show ?thesis
    proof (cases "m = ?n")
      case True
      then show ?thesis using l dinode_range [of ?n] by (simp add: on_disk_def sbt bt get_put_dinode copy_dinode_def)
    next
      case False
      then have "unat m mod IPB \<noteq> unat ?n mod IPB" using d mod_div_eqD [of "unat m" IPB "unat ?n"] by (auto simp: word_unat_eq_iff)
      then show ?thesis using True False get_dinode_other [OF l] by (simp add: on_disk_def sbt bt)
    qed
  next
    case False
    then show ?thesis by (auto simp: on_disk_def sbt bt)
  qed
qed

text \<open>The state behind the loop of \<open>writei\<close>: the size and the time of the inode, and the inode written back.\<close>

lemma writei_finish:
  fixes s :: "'a fs_state_scheme" and sz tm :: u32
  assumes f: "fs_inv s" "busy s = {}" "room s 1" "map_ok ip s" "i_inum (icache s ip) < sb_ninodes (sb s)"
  defines "s' \<equiv> upd_inode ip (\<lambda>x. x\<lparr>i_size := sz, i_mtime := tm\<rparr>) s"
  obtains t where "iupdate ip s' = Done t" "fs_inv t" "busy t = {}" "icache t = icache s'" "memdisk t = memdisk s"
    "\<forall>jp. map_ok jp s \<longrightarrow> map_ok jp t \<and> (\<forall>k\<le>MAXFILE. slot jp t k = slot jp s k) \<and> (\<forall>k<MAXFILE. fblock jp t k = fblock jp s k)"
    "\<forall>y. on_disk t (i_inum (icache s ip)) y = copy_dinode (icache t ip) y" "sb t = sb s"
proof -
  have g: "fs_inv s'" "busy s' = {}" "room s' 1" "i_dev (icache s' ip) = 1" "i_inum (icache s' ip) < sb_ninodes (sb s')"
    "i_inum (icache s' ip) = i_inum (icache s ip)"
    using f map_okD(1) [OF f(4)] by (simp_all add: s'_def)
  obtain t where t: "iupdate ip s' = Done t" "wrote s' [(IBLOCK (i_inum (icache s' ip)) (sb s'),
      put_dinode (dinode_off (i_inum (icache s' ip))) (icache s' ip) (blk s' (IBLOCK (i_inum (icache s' ip)) (sb s'))))] t"
    by (rule iupdate_wrote [OF g(1-5)])
  note fr = inode_write_frame [OF g(1) t(2) g(5)]
  have e: "memdisk t = memdisk s'" "busy t = {}" using t(2) g(2) by (simp_all add: edits_def)
  have ms: "map_ok jp s' = map_ok jp s" "slot jp s' k = slot jp s k" "fblock jp s' = fblock jp s" for jp k
    by (simp_all add: s'_def file_upd_inode slot_upd_inode)
  have "on_disk t (i_inum (icache s ip)) y = copy_dinode (icache t ip) y" for y
    using iupdate_on_disk [OF g(1,5) t(2) g(5), of y] fr(3) g(6) by simp
  then show ?thesis
    using that [OF t(1) fr(1) e(2) fr(3)] e(1) fr(2,5-7) ms by (simp add: s'_def upd_inode_def)
qed

lemma extended_inode:
  assumes "extended ip s ws t"
  shows "i_size (icache t ip) = i_size (icache s ip)" "i_inum (icache t ip) = i_inum (icache s ip)"
    "i_dev (icache t ip) = i_dev (icache s ip)" "i_type (icache t ip) = i_type (icache s ip)" "sb t = sb s" "now t = now s"
    "memdisk t = memdisk s"
proof -
  obtain a where w: "wrote (s\<lparr>icache := (icache s)(ip := (icache s ip)\<lparr>i_addrs := a\<rparr>)\<rparr>) ws t"
    by (rule extended_wrote [OF assms])
  then have m: "log_state.more t = log_state.more (s\<lparr>icache := (icache s)(ip := (icache s ip)\<lparr>i_addrs := a\<rparr>)\<rparr>)"
    "memdisk t = memdisk s"
    by (simp_all add: edits_def)
  show "i_size (icache t ip) = i_size (icache s ip)" "i_inum (icache t ip) = i_inum (icache s ip)"
    "i_dev (icache t ip) = i_dev (icache s ip)" "i_type (icache t ip) = i_type (icache s ip)" "sb t = sb s" "now t = now s"
    "memdisk t = memdisk s"
    using fs_more [OF m(1)] m(2) by simp_all
qed

lemma written_slots:
  assumes f: "file_ok ip s" and e: "extended ip s ws t" and o: "off \<le> unat (i_size (icache s ip))"
    and w: "0 < n \<longrightarrow> (\<forall>k. off div BSIZE \<le> k \<longrightarrow> k * BSIZE < off + n \<longrightarrow> slot ip t k \<noteq> 0)"
    and k: "k * BSIZE < max (unat (i_size (icache s ip))) (off + n)" "off + n \<le> MAXFILE * BSIZE"
  shows "k < MAXFILE \<and> slot ip t k \<noteq> 0"
proof -
  have "unat (i_size (icache s ip)) \<le> MAXFILE * BSIZE" using f by (simp add: file_ok_def)
  then have "k * BSIZE < MAXFILE * BSIZE" using k by linarith
  then have km: "k < MAXFILE" by simp
  have "slot ip t k \<noteq> 0"
  proof (cases "k * BSIZE < unat (i_size (icache s ip))")
    case True
    then have "slot ip s k \<noteq> 0" using f by (simp add: file_ok_def)
    then show ?thesis using extendedD(3) [OF e, of k] km by simp
  next
    case False
    then have kk: "k * BSIZE < off + n" "off \<le> k * BSIZE" using k o by linarith+
    then have "off div BSIZE \<le> k" by (metis div_le_mono nonzero_mult_div_cancel_right BSIZE_def zero_neq_numeral)
    then show ?thesis using w kk by simp
  qed
  then show ?thesis using km by simp
qed

text \<open>The last steps of \<open>writei\<close> set the size, where it grows, and the time.\<close>

lemma set_size_mtime:
  fixes s :: "'a fs_state_scheme" and n :: u32
  assumes "off \<le> i_size (icache s ip)"
  defines "s' \<equiv> if n > 0 \<and> off + n > i_size (icache s ip) then upd_inode ip (\<lambda>x. x\<lparr>i_size := off + n\<rparr>) s else s"
  shows "upd_inode ip (\<lambda>x. x\<lparr>i_mtime := now s'\<rparr>) s' =
    upd_inode ip (\<lambda>x. x\<lparr>i_size := if off + n > i_size (icache s ip) then off + n else i_size (icache s ip), i_mtime := now s\<rparr>) s"
proof (cases "off + n > i_size (icache s ip)")
  case True
  then have "n > 0" using assms(1) by (cases "n = 0") (auto simp: word_gt_0)
  then show ?thesis using True by (simp add: s'_def upd_inode_def)
next
  case False
  then show ?thesis by (simp add: s'_def upd_inode_def)
qed

text \<open>The conditions under which \<open>writei\<close> writes all its bytes.\<close>

definition writable_file :: "nat \<Rightarrow> u32 \<Rightarrow> u32 \<Rightarrow> 'a fs_state_scheme \<Rightarrow> bool" where
  "writable_file ip off n s \<longleftrightarrow>
     fs_inv s \<and> file_ok ip s \<and> busy s = {} \<and> i_type (icache s ip) \<noteq> T_DEV \<and> i_inum (icache s ip) < sb_ninodes (sb s) \<and>
     off \<le> i_size (icache s ip) \<and> unat off + unat n \<le> MAXFILE * BSIZE \<and> budget ip s (nblk (unat off) (unat n))"

lemma writei_effect:
  fixes s :: "'a fs_state_scheme"
  assumes "writable_file ip off n s"
  obtains t where "writei devsw ip src off n s = Done (int (unat n), t)" "fs_inv t" "file_ok ip t" "busy t = {}"
    "unat (i_size (icache t ip)) = max (unat (i_size (icache s ip))) (unat off + unat n)"
    "\<forall>i<MAXFILE * BSIZE. content ip t i =
       (if unat off \<le> i \<and> i < unat off + unat n then src (i - unat off) else content ip s i)"
    "\<forall>y. on_disk t (i_inum (icache s ip)) y = copy_dinode (icache t ip) y" "memdisk t = memdisk s"
    "\<forall>jp. jp \<noteq> ip \<longrightarrow> map_ok jp s \<longrightarrow> owned jp s \<inter> owned ip s = {} \<longrightarrow>
       icache t jp = icache s jp \<and> map_ok jp t \<and> (\<forall>i<MAXFILE * BSIZE. content jp t i = content jp s i)"
    "i_type (icache t ip) = i_type (icache s ip)"
proof -
  have f: "fs_inv s" "file_ok ip s" "busy s = {}" "i_type (icache s ip) \<noteq> T_DEV" "i_inum (icache s ip) < sb_ninodes (sb s)"
    "off \<le> i_size (icache s ip)" "unat off + unat n \<le> MAXFILE * BSIZE" "budget ip s (nblk (unat off) (unat n))"
    using assms by (simp_all add: writable_file_def)
  have mo: "map_ok ip s" using f(2) by (simp add: file_ok_def)
  have big: "MAXFILE * BSIZE < 2 ^ 31" by (simp add: layout_defs)
  have on: "unat (off + n) = unat off + unat n"
    using unat_add_of_nat [of off "unat n"] f(7) big by simp
  obtain t ws where t: "writei_loop ip src off (unat n) s = Done (off + n, t)" "extended ip s ws t" "busy t = {}" "budget ip t 0"
    "0 < unat n \<longrightarrow> (\<forall>k. unat off div BSIZE \<le> k \<longrightarrow> k * BSIZE < unat off + unat n \<longrightarrow> slot ip t k \<noteq> 0)"
    "\<forall>i<MAXFILE * BSIZE. content ip t i =
       (if unat off \<le> i \<and> i < unat off + unat n then src (i - unat off) else content ip s i)"
    using writei_loop_content [OF f(1) mo f(3) f(8,7), of src] by auto
  note ei = extended_inode [OF t(2)] and ed = extendedD [OF t(2)]
  define sz where "sz = (if off + n > i_size (icache s ip) then off + n else i_size (icache s ip))"
  have sz: "unat sz = max (unat (i_size (icache s ip))) (unat off + unat n)"
    using on by (auto simp: sz_def word_less_nat_alt)
  have rt: "room t 1" using budget_room(1) [OF fs_invD(2) [OF ed(1)] t(4)] by (rule room_less) simp
  have it: "i_inum (icache t ip) < sb_ninodes (sb t)" using ei f(5) by simp
  obtain u where u: "iupdate ip (upd_inode ip (\<lambda>x. x\<lparr>i_size := sz, i_mtime := now t\<rparr>) t) = Done u" "fs_inv u" "busy u = {}"
    "icache u = icache (upd_inode ip (\<lambda>x. x\<lparr>i_size := sz, i_mtime := now t\<rparr>) t)" "memdisk u = memdisk t"
    "\<forall>jp. map_ok jp t \<longrightarrow> map_ok jp u \<and> (\<forall>k\<le>MAXFILE. slot jp u k = slot jp t k) \<and> (\<forall>k<MAXFILE. fblock jp u k = fblock jp t k)"
    "\<forall>y. on_disk u (i_inum (icache t ip)) y = copy_dinode (icache u ip) y"
    "sb u = sb t"
    by (rule writei_finish [OF ed(1) t(3) rt ed(2) it, where sz = sz and tm = "now t"])
  have s2: "upd_inode ip (\<lambda>x. x\<lparr>i_mtime := now s'\<rparr>) s' = upd_inode ip (\<lambda>x. x\<lparr>i_size := sz, i_mtime := now t\<rparr>) t"
    if "s' = (if n > 0 \<and> off + n > i_size (icache t ip) then upd_inode ip (\<lambda>x. x\<lparr>i_size := off + n\<rparr>) t else t)" for s'
    unfolding that sz_def ei(1) [symmetric] using f(6) unfolding ei(1) [symmetric] by (rule set_size_mtime)
  have nw: "\<not> off + n < off" using on by (simp add: word_less_nat_alt)
  have mb: "\<not> unat (off + n) > MAXFILE * BSIZE" using on f(7) by simp
  have sn: "sint n = int (unat n)" using sint_small [of n] f(7) big by simp
  have w: "writei devsw ip src off n s = Done (int (unat n), u)"
    using f(4) leD [OF f(6)] nw mb t(1) s2 u(1) sn by (simp add: writei_def Let_def del: not_less)
  have ic: "icache u ip = (icache t ip)\<lparr>i_size := sz, i_mtime := now t\<rparr>" "jp \<noteq> ip \<Longrightarrow> icache u jp = icache t jp" for jp
    using u(4) by simp_all
  have up: "map_ok ip u" "k \<le> MAXFILE \<Longrightarrow> slot ip u k = slot ip t k" "k < MAXFILE \<Longrightarrow> fblock ip u k = fblock ip t k" for k
    using u(6) ed(2) by blast+
  have "slot ip u k \<noteq> 0" if "k * BSIZE < unat sz" for k
    using written_slots [OF f(2) t(2) _ t(5), of k] that sz f(6,7) up(2) [of k] by (simp add: word_le_nat_alt)
  then have fo: "file_ok ip u"
    unfolding file_ok_def using up(1) ic(1) sz f(2,7) by (simp add: file_ok_def)
  have other: "icache u jp = icache s jp \<and> map_ok jp u \<and> (\<forall>i<MAXFILE * BSIZE. content jp u i = content jp s i)"
    if j: "jp \<noteq> ip" "map_ok jp s" "owned jp s \<inter> owned ip s = {}" for jp
  proof -
    note ot = extended_other [OF f(1) t(2) j]
    have "map_ok jp u" "\<And>k. k < MAXFILE \<Longrightarrow> fblock jp u k = fblock jp s k" using u(6) ot(2,4) by simp_all
    then show ?thesis using ot(1) ic(2) [OF j(1)] content_cong [of jp u s] by simp
  qed
  show ?thesis
    by (rule that [OF w u(2) fo u(3)])
      (use sz ic(1) t(6) up(3) content_cong [of ip u t] u(5,7) ei other in auto)
qed

end
