(* ===== verification/Fs_Demo.thy ===== *)
theory Fs_Demo
  imports Fs_Spec
begin

text \<open>
  A small file system in memory, on which the properties of the file system are exercised: forty blocks
  with the superblock in block 1, a log of twenty blocks from block 2, inodes in block 22, the bitmap in
  block 23. Inode 1 is the root directory with its entries in block 25, inode 2 the file \<open>a\<close> with five
  bytes in block 24.
\<close>

definition demo_file :: inode where
  "demo_file = \<lparr>i_dev = 1, i_inum = 2, i_ref = 1, i_flags = {I_BUSY, I_VALID}, i_type = T_FILE, i_major = 0, i_minor = 0,
     i_nlink = 1, i_size = 5, i_mtime = 0, i_addrs = (\<lambda>k. if k = 0 then 24 else 0)\<rparr>"

definition demo_dir :: inode where
  "demo_dir = \<lparr>i_dev = 1, i_inum = 1, i_ref = 1, i_flags = {I_BUSY, I_VALID}, i_type = T_DIR, i_major = 0, i_minor = 0,
     i_nlink = 1, i_size = 48, i_mtime = 0, i_addrs = (\<lambda>k. if k = 0 then 25 else 0)\<rparr>"

definition demo_none :: inode where
  "demo_none = \<lparr>i_dev = 0, i_inum = 0, i_ref = 0, i_flags = {}, i_type = 0, i_major = 0, i_minor = 0,
     i_nlink = 0, i_size = 0, i_mtime = 0, i_addrs = (\<lambda>k. 0)\<rparr>"

definition demo_super :: bytes where
  "demo_super = put32 24 23 (put32 20 22 (put32 16 2 (put32 12 20 (put32 8 15 (put32 4 16 (put32 0 40 (replicate BSIZE 0)))))))"

definition demo_entries :: bytes where
  "demo_entries = bytes_of_dirent \<lparr>de_inum = 1, de_name = 46 # replicate 13 0\<rparr> @
     bytes_of_dirent \<lparr>de_inum = 1, de_name = 46 # 46 # replicate 12 0\<rparr> @
     bytes_of_dirent \<lparr>de_inum = 2, de_name = 97 # replicate 13 0\<rparr>"

definition demo_blocks :: "nat \<Rightarrow> bytes" where
  "demo_blocks n =
     (if n = 1 then demo_super
      else if n = 22 then put_dinode 64 demo_dir (put_dinode 128 demo_file (replicate BSIZE 0))
      else if n = 23 then [255, 255, 255, 3] @ replicate (BSIZE - 4) 0
      else if n = 24 then [104, 101, 108, 108, 111] @ replicate (BSIZE - 5) 0
      else if n = 25 then demo_entries @ replicate (BSIZE - 48) 0
      else replicate BSIZE 0)"

definition demo_fs0 :: fs_state where
  "demo_fs0 = \<lparr>bufs = bss_bufs, memdisk = demo_blocks, disksize = 40, writes = [], log_start = 2, log_size = 20,
     outstanding = 1, committing = False, log_dev = 1, lh_n = 0, lh_block = (\<lambda>_. 0), sb = superblock_of demo_super,
     icache = (\<lambda>_. demo_none)(0 := demo_dir, 2 := demo_file), now = 7\<rparr>"

definition demo_fs :: fs_state where
  "demo_fs = binit demo_fs0"

lemma demo_entries_length: "length demo_entries = 48"
  by (simp add: demo_entries_def bytes_of_dirent_def)

lemma demo_blocks_length: "length (demo_blocks n) = BSIZE"
  by (simp add: demo_blocks_def demo_super_def length_put_dinode demo_entries_length layout_defs)

lemma demo_sb:
  "superblock_of demo_super = \<lparr>sb_size = 40, sb_nblocks = 16, sb_ninodes = 15, sb_nlog = 20, sb_logstart = 2,
     sb_inodestart = 22, sb_bmapstart = 23\<rparr>"
  by (simp add: demo_super_def superblock_of_def get32_put32_other layout_defs)

lemma demo_fs_view [simp]:
  "binv demo_fs" "busy demo_fs = {}" "dirty demo_fs = {}" "blk demo_fs n = demo_blocks (unat n)"
  using binit_fresh [of demo_fs0] demo_blocks_length by (simp_all add: demo_fs_def demo_fs0_def)

lemma demo_fs_fields [simp]:
  "memdisk demo_fs = demo_blocks" "disksize demo_fs = 40" "log_start demo_fs = 2" "log_size demo_fs = 20"
  "outstanding demo_fs = 1" "log_dev demo_fs = 1" "lh_n demo_fs = 0" "sb demo_fs = superblock_of demo_super"
  "icache demo_fs = (\<lambda>_. demo_none)(0 := demo_dir, 2 := demo_file)" "now demo_fs = 7"
proof -
  have m: "bio.more demo_fs = bio.more demo_fs0" by (simp add: demo_fs_def binit_fields)
  note l = log_more [OF m] and f = fs_more [OF log_state_more [OF m]]
  show "memdisk demo_fs = demo_blocks" "disksize demo_fs = 40"
    by (simp_all add: demo_fs_def binit_fields demo_fs0_def)
  show "log_start demo_fs = 2" "log_size demo_fs = 20" "outstanding demo_fs = 1" "log_dev demo_fs = 1" "lh_n demo_fs = 0"
    using l by (simp_all add: demo_fs0_def)
  show "sb demo_fs = superblock_of demo_super" "now demo_fs = 7"
    "icache demo_fs = (\<lambda>_. demo_none)(0 := demo_dir, 2 := demo_file)"
    using f by (simp_all add: demo_fs0_def)
qed

lemma demo_linv: "linv demo_fs"
proof -
  have "head_n (demo_blocks 2) = 0" by (simp add: demo_blocks_def head_n_def get32_replicate_0 layout_defs)
  then show ?thesis by (simp add: linv_def log_geometry_def logged_def layout_defs)
qed

lemma demo_used: "b < 40 \<Longrightarrow> used demo_fs b \<longleftrightarrow> b < 26"
proof -
  assume "b < 40"
  then have "b \<in> set [0..<40]" by simp
  moreover have "\<forall>b \<in> set [0..<40]. used demo_fs b \<longleftrightarrow> b < 26"
    by (simp add: used_def demo_sb BBLOCK_def demo_blocks_def BPB_def bit_of_bit BSIZE_def upt_rec)
  ultimately show ?thesis by blast
qed

lemma demo_fs_inv: "fs_inv demo_fs"
proof -
  have d: "datastart demo_fs = 24" by (simp add: datastart_def demo_sb BPB_def BSIZE_def)
  have "fs_layout demo_fs"
    by (simp add: fs_layout_def d demo_sb demo_blocks_def layout_defs)
  then show ?thesis using demo_linv demo_used d by (auto simp: fs_inv_def txn_def)
qed

lemma demo_slot:
  assumes "k \<le> MAXFILE"
  shows "slot 0 demo_fs k = (if k = 0 then 25 else 0)" "slot 2 demo_fs k = (if k = 0 then 24 else 0)"
  using assms by (simp_all add: slot_def Let_def demo_dir_def demo_file_def layout_defs)

lemma demo_data_ok: "data_ok demo_fs 24" "data_ok demo_fs 25"
  by (simp_all add: data_ok_def demo_used datastart_def demo_sb BPB_def BSIZE_def)

lemma demo_map_ok: "map_ok 0 demo_fs" "map_ok 2 demo_fs"
  by (auto simp: map_ok_def demo_slot demo_data_ok demo_dir_def demo_file_def split: if_splits)

lemma demo_file_ok: "file_ok 0 demo_fs" "file_ok 2 demo_fs"
proof -
  have k: "k = 0" if "k * BSIZE < 48" for k using that by (cases k) (simp_all add: BSIZE_def)
  show "file_ok 0 demo_fs" using demo_map_ok k
    by (auto simp: file_ok_def demo_dir_def demo_slot layout_defs)
  have k: "k = 0" if "k * BSIZE < 5" for k using that by (cases k) (simp_all add: BSIZE_def)
  show "file_ok 2 demo_fs" using demo_map_ok k
    by (auto simp: file_ok_def demo_file_def demo_slot layout_defs)
qed

lemma demo_nfree: "14 \<le> nfree demo_fs"
proof -
  have "{26..<40} \<subseteq> {b. b < unat (sb_size (sb demo_fs)) \<and> \<not> used demo_fs b}" by (auto simp: demo_sb demo_used)
  from card_mono [OF _ this] show ?thesis by (simp add: nfree_def)
qed

lemma demo_bitmap: "bitmap_set demo_fs = {23}"
  by (auto simp: bitmap_set_def demo_sb BBLOCK_def BPB_def BSIZE_def image_iff intro!: exI [of _ 0])

lemma demo_budget: "ip = 0 \<or> ip = 2 \<Longrightarrow> k \<le> 10 \<Longrightarrow> budget ip demo_fs k"
proof -
  assume "ip = 0 \<or> ip = 2" "k \<le> 10"
  then have "slot ip demo_fs MAXFILE = 0" using demo_slot [of MAXFILE] by (auto simp: layout_defs)
  then show ?thesis using \<open>k \<le> 10\<close> demo_nfree by (simp add: budget_def demo_bitmap)
qed

lemma demo_content:
  "i < 48 \<Longrightarrow> content 0 demo_fs i = demo_entries ! i" "map (content 2 demo_fs) [0..<5] = [104, 101, 108, 108, 111]"
  by (simp_all add: content_def fblock_def demo_slot BSIZE_def demo_blocks_def nth_append demo_entries_length upt_rec)

end
