(* ===== verification/Fs_Props.thy ===== *)
theory Fs_Props
  imports Fs_Demo
begin

text \<open>
  The properties of the file system below directories, each applied to the small file system of the
  previous theory.
\<close>

definition demo_devsw :: "fs_state devsw" where
  "demo_devsw = (\<lambda>_. \<lparr>dev_read = None, dev_write = None, dev_ioctl = None\<rparr>)"

lemmas demo_simps = demo_fs_inv demo_file_ok demo_map_ok demo_sb demo_dir_def demo_file_def room_def T_DEV_def T_FILE_def T_DIR_def

section \<open>Reading and writing files\<close>



text \<open>
  C2: \<open>writei\<close> replaces exactly the bytes it is given. When the log and the disk have room for the blocks
  that the range may need, the write succeeds; the file has the new bytes in the range and its old bytes
  elsewhere, grows when the range ends behind its end and stays well-formed; its inode on disk agrees
  with the one in memory; every other file with blocks of its own keeps its contents; and nothing but
  the log reaches the disk before the commit.
\<close>

theorem writei_writes_contents:
  fixes s :: "'a fs_state_scheme"
  assumes "writable_file ip off n s"
  shows "\<exists>t. writei devsw ip src off n s = Done (int (unat n), t) \<and> fs_inv t \<and> file_ok ip t \<and>
    unat (i_size (icache t ip)) = max (unat (i_size (icache s ip))) (unat off + unat n) \<and>
    (\<forall>i<MAXFILE * BSIZE. content ip t i =
       (if unat off \<le> i \<and> i < unat off + unat n then src (i - unat off) else content ip s i)) \<and>
    (\<forall>y. on_disk t (i_inum (icache s ip)) y = copy_dinode (icache t ip) y) \<and> memdisk t = memdisk s \<and>
    (\<forall>jp. jp \<noteq> ip \<longrightarrow> map_ok jp s \<longrightarrow> owned jp s \<inter> owned ip s = {} \<longrightarrow>
       icache t jp = icache s jp \<and> map_ok jp t \<and> (\<forall>i<MAXFILE * BSIZE. content jp t i = content jp s i))"
  by (rule writei_effect [OF assms, of devsw src]) blast

lemma demo_writable:
  assumes "unat off + unat n \<le> 1024" "unat off \<le> 5"
  shows "writable_file 2 off n demo_fs"
proof -
  have "(unat off + unat n - 1) div BSIZE = 0" "unat off div BSIZE = 0" using assms by (simp_all add: BSIZE_def)
  then have "nblk (unat off) (unat n) \<le> 1" by (simp add: nblk_def)
  then have "budget 2 demo_fs (nblk (unat off) (unat n))" by (intro demo_budget) simp_all
  then show ?thesis using assms by (simp add: writable_file_def demo_simps word_le_nat_alt layout_defs)
qed

theorem writei_writes_contents_witness:
  "\<exists>t. writei demo_devsw 2 (\<lambda>i. 33) 5 2 demo_fs = Done (2, t) \<and> unat (i_size (icache t 2)) = 7 \<and> content 2 t 6 = 33 \<and>
     content 0 t 32 = 2"
proof -
  have w: "writable_file 2 5 2 demo_fs" by (rule demo_writable) simp_all
  have o: "owned 0 demo_fs \<inter> owned 2 demo_fs = {}" by (auto simp: owned_iff demo_slot split: if_splits)
  have c: "content 0 demo_fs 32 = 2"
    by (simp add: demo_content demo_entries_def bytes_of_dirent_def bytes_of_u16_def nth_append)
  obtain t where t: "writei demo_devsw 2 (\<lambda>i. 33) 5 2 demo_fs = Done (2, t)" "unat (i_size (icache t 2)) = 7"
    "\<forall>i<MAXFILE * BSIZE. content 2 t i = (if 5 \<le> i \<and> i < 7 then 33 else content 2 demo_fs i)"
    "\<forall>i<MAXFILE * BSIZE. content 0 t i = content 0 demo_fs i"
    using writei_writes_contents [OF w, of demo_devsw "\<lambda>i. 33"] o demo_map_ok(1) by (auto simp: demo_file_def)
  have "6 < MAXFILE * BSIZE" "32 < MAXFILE * BSIZE" by (simp_all add: layout_defs)
  then show ?thesis using t c by auto
qed



section \<open>Inodes\<close>

text \<open>
  C29: \<open>iupdate\<close> stores an inode and no other. Reading the inode's number back from the disk block gives
  the type, device numbers, link count, size, time and block addresses of the inode in memory; every
  other inode, also those in the same block, is as before.
\<close>

theorem iupdate_stores_inode:
  fixes s :: "'a fs_state_scheme"
  assumes "fs_inv s" "busy s = {}" "room s 1" "i_dev (icache s ip) = 1" "i_inum (icache s ip) < sb_ninodes (sb s)"
  shows "\<exists>t. iupdate ip s = Done t \<and> fs_inv t \<and> icache t = icache s \<and>
    (\<forall>m y. m < sb_ninodes (sb s) \<longrightarrow>
       on_disk t m y = (if m = i_inum (icache s ip) then copy_dinode (icache s ip) y else on_disk s m y))"
proof -
  obtain t where t: "iupdate ip s = Done t" "wrote s [(IBLOCK (i_inum (icache s ip)) (sb s),
      put_dinode (dinode_off (i_inum (icache s ip))) (icache s ip) (blk s (IBLOCK (i_inum (icache s ip)) (sb s))))] t"
    by (rule iupdate_wrote [OF assms])
  show ?thesis
    using t(1) inode_write_frame(1,3) [OF assms(1) t(2) assms(5)] iupdate_on_disk [OF assms(1,5) t(2)] by blast
qed

theorem iupdate_stores_inode_witness:
  "\<exists>t. iupdate 2 demo_fs = Done t \<and> i_size (on_disk t 2 demo_none) = 5 \<and> i_addrs (on_disk t 2 demo_none) 0 = 24 \<and>
     on_disk t 1 demo_none = on_disk demo_fs 1 demo_none"
proof -
  from iupdate_stores_inode [of demo_fs 2] obtain t where t: "iupdate 2 demo_fs = Done t"
    "\<forall>m y. m < 15 \<longrightarrow> on_disk t m y = (if m = 2 then copy_dinode demo_file y else on_disk demo_fs m y)"
    by (auto simp: demo_simps)
  have "i_size (on_disk t 2 demo_none) = 5" "i_addrs (on_disk t 2 demo_none) 0 = 24"
    "on_disk t 1 demo_none = on_disk demo_fs 1 demo_none"
    using t(2) by (simp_all add: copy_dinode_def demo_file_def)
  then show ?thesis using t(1) by blast
qed

text \<open>
  \<open>ilock\<close> loads an inode. Locking an entry of the cache that has not been read yet delivers the inode
  as the disk has it, locked and marked valid, and changes no other entry and no block; an inode without
  a type is the only reason to panic.
\<close>

theorem ilock_loads_inode:
  fixes s :: "'a fs_state_scheme"
  assumes "fs_inv s" "busy s = {}" "room s 0" "i_dev (icache s ip) = 1" "i_inum (icache s ip) < sb_ninodes (sb s)"
    "i_ref (icache s ip) \<ge> 1" "i_flags (icache s ip) = {}"
  shows "if i_type (on_disk s (i_inum (icache s ip)) (icache s ip)) = 0 then ilock (Some ip) s = Panic ''ilock: no type''
    else \<exists>t. ilock (Some ip) s = Done t \<and>
      icache t = (icache s)(ip := (on_disk s (i_inum (icache s ip)) (icache s ip))\<lparr>i_flags := {I_BUSY, I_VALID}\<rparr>) \<and>
      blk t = blk s \<and> fs_inv t"
  using ilock_reads [OF assms] by (auto simp: on_disk_def fun_eq_iff split: if_splits)

theorem ilock_loads_inode_witness:
  "\<exists>t. ilock (Some 3) (upd_inode 3 (\<lambda>x. x\<lparr>i_dev := 1, i_inum := 2, i_ref := 1\<rparr>) demo_fs) = Done t \<and>
     i_size (icache t 3) = 5 \<and> i_type (icache t 3) = T_FILE \<and> i_flags (icache t 3) = {I_BUSY, I_VALID}"
proof -
  let ?s = "upd_inode 3 (\<lambda>x. x\<lparr>i_dev := 1, i_inum := 2, i_ref := 1\<rparr>) demo_fs"
  let ?x = "demo_none\<lparr>i_dev := 1, i_inum := 2, i_ref := 1\<rparr>"
  have d: "on_disk ?s 2 y = copy_dinode demo_file y" for y
  proof -
    have "get_dinode 128 (put_dinode 64 demo_dir (put_dinode 128 demo_file (replicate BSIZE 0))) y =
      get_dinode 128 (put_dinode 128 demo_file (replicate BSIZE 0)) y"
      using get_dinode_other [of "put_dinode 128 demo_file (replicate BSIZE 0)" 2 1 demo_dir y]
      by (simp add: dinode_off_def layout_defs length_put_dinode)
    then show ?thesis
      by (simp add: on_disk_def IBLOCK_def demo_sb demo_blocks_def dinode_off_def get_put_dinode copy_dinode_def layout_defs)
  qed
  have ne: "i_type (copy_dinode demo_file ?x) \<noteq> 0" by (simp add: copy_dinode_def demo_file_def T_FILE_def)
  have "room ?s 0" by (simp add: room_def demo_linv upd_inode_def)
  then obtain t where t: "ilock (Some 3) ?s = Done t" "icache t 3 = (copy_dinode demo_file ?x)\<lparr>i_flags := {I_BUSY, I_VALID}\<rparr>"
    using ilock_loads_inode [of ?s 3] ne by (auto simp: demo_fs_inv demo_sb d demo_none_def)
  then show ?thesis by (simp add: copy_dinode_def demo_file_def)
qed

section \<open>Blocks\<close>

text \<open>
  C11: \<open>balloc\<close> hands out the first free data block, zeroed and marked in use, and touches no other block
  that is in use; \<open>bfree\<close> gives it back, so that the bitmap is what it was before.
\<close>

theorem balloc_bfree:
  fixes s :: "'a fs_state_scheme"
  assumes f: "fs_inv s" "held_ok s" "room s (card (busy s) + 4)" and b: "\<exists>b<unat (sb_size (sb s)). \<not> used s b"
  shows "\<exists>b t u. balloc 1 s = Done (of_nat b, t) \<and> datastart s \<le> b \<and> b < unat (sb_size (sb s)) \<and> \<not> used s b \<and>
    (\<forall>c<b. used s c) \<and> (\<forall>c<unat (sb_size (sb s)). used t c \<longleftrightarrow> c = b \<or> used s c) \<and>
    blk t (of_nat b) = replicate BSIZE 0 \<and>
    (\<forall>n. data_ok s n \<longrightarrow> blk t n = blk s n) \<and> fs_inv t \<and>
    bfree 1 (of_nat b) t = Done u \<and> (\<forall>c<unat (sb_size (sb s)). used u c \<longleftrightarrow> used s c) \<and> fs_inv u"
proof -
  note fi = fs_invD [OF f(1)]
  obtain b t where t: "b < unat (sb_size (sb s))" "\<not> used s b" "\<forall>c<b. used s c" "balloc 1 s = Done (of_nat b, t)"
    "wrote s (balloc_ws s b) t"
    using balloc_spec [OF f(1,2) room_less [OF f(3)]] b by auto
  note e = balloc_effect [OF t(5) f(1) t(1,2)]
  note d = data_block [OF fi(3) e(7) t(1)]
  have bt: "busy t = busy s" using t(5) by (simp add: edits_def)
  have h: "held_ok t" using f(2) e(1,5,6) bt by (auto simp: held_ok_def)
  have "length (balloc_ws s b) = 2" by (simp add: balloc_ws_def)
  then have r: "room t (Suc (card (busy t)))"
    using edits_room_length [OF fi(2) t(5), of "Suc (card (busy s))"] room_less [OF f(3)] bt by simp
  have ub: "used t (unat (of_nat b :: u32))" "unat (of_nat b :: u32) < unat (sb_size (sb t))"
    using e(1) [OF t(1)] d(1) t(1) e(5) by simp_all
  obtain u where u: "bfree 1 (of_nat b) t = Done u" "wrote t (bfree_ws t b) u"
    using bfree_spec [OF e(4) h r ub(2)] ub(1) d(1) by auto
  have bs: "b < unat (sb_size (sb t))" "datastart t \<le> b" using t(1) e(5-7) by simp_all
  note g = bfree_effect [OF u(2) e(4) bs]
  have "blk t n = blk s n" if "data_ok s n" for n
    using e(3) [of n] that t(2) d(1) by (cases "n = of_nat b") (auto simp: data_ok_def)
  moreover have "used u c \<longleftrightarrow> used s c" if "c < unat (sb_size (sb s))" for c
    using g(1) [of c] e(1) [OF that] that e(5) t(2) by auto
  ultimately show ?thesis using t e g(3) u(1) by blast
qed

theorem balloc_bfree_witness:
  "\<exists>t u. balloc 1 demo_fs = Done (26, t) \<and> used t 26 \<and> bfree 1 26 t = Done u \<and> \<not> used u 26"
proof -
  have "held_ok demo_fs" "room demo_fs (card (busy demo_fs) + 4)" "\<exists>b<unat (sb_size (sb demo_fs)). \<not> used demo_fs b"
    using demo_used [of 30] by (simp_all add: held_ok_def room_def demo_sb) (rule exI [of _ 30], simp)
  from balloc_bfree [OF demo_fs_inv this] obtain b t u where t: "balloc 1 demo_fs = Done (of_nat b, t)"
    "b < 40" "\<not> used demo_fs b" "\<forall>c<b. used demo_fs c" "\<forall>c<40. used t c \<longleftrightarrow> c = b \<or> used demo_fs c"
    "bfree 1 (of_nat b) t = Done u" "\<forall>c<40. used u c \<longleftrightarrow> used demo_fs c"
    by (auto simp: demo_sb)
  have "b = 26"
    using t(2-4) demo_used [of b] demo_used [of 26] by (cases b "26 :: nat" rule: linorder_cases) auto
  then show ?thesis using t(1,5-7) demo_used [of 26] by auto
qed

end
