(* ===== verification/Fs_Names.thy ===== *)
theory Fs_Names
  imports Fs_Props
begin

text \<open>
  Directories and paths: what a lookup finds in the contents of a directory, and which elements a path
  consists of.
\<close>

section \<open>Names\<close>

text \<open>The name that the bytes of a directory entry, or a C string, stand for.\<close>

definition dname :: "bytes \<Rightarrow> bytes" where
  "dname xs = takeWhile (\<lambda>c. c \<noteq> 0) (take DIRSIZ xs)"

lemma cstr_simps [simp]: "cstr [] = (\<lambda>_. 0)" "cstr (x # xs) 0 = x" "cstr (x # xs) (Suc i) = cstr xs i"
  by (auto simp: cstr_def)

lemma strncmp_names:
  "strncmp (cstr a) (cstr b) n = 0 \<longleftrightarrow> takeWhile (\<lambda>c. c \<noteq> 0) (take n a) = takeWhile (\<lambda>c. c \<noteq> 0) (take n b)"
proof (induction n arbitrary: a b)
  case (Suc n)
  then show ?case by (cases a; cases b) (auto simp: word_uint_eq_iff)
qed simp

lemma namecmp_zero: "namecmp a b = 0 \<longleftrightarrow> dname a = dname b"
  by (simp add: namecmp_def dname_def strncmp_names)

section \<open>Lookup\<close>

definition entry :: "nat \<Rightarrow> 'a fs_state_scheme \<Rightarrow> nat \<Rightarrow> dirent" where
  "entry dp s k = dirent_of (map (content dp s) [sizeof_dirent * k..<sizeof_dirent * Suc k])"

definition matches :: "nat \<Rightarrow> 'a fs_state_scheme \<Rightarrow> bytes \<Rightarrow> nat \<Rightarrow> bool" where
  "matches dp s name k \<longleftrightarrow> de_inum (entry dp s k) \<noteq> 0 \<and> dname (de_name (entry dp s k)) = dname name"

text \<open>A well-formed directory is a file of whole entries.\<close>

definition dir_ok :: "nat \<Rightarrow> 'a fs_state_scheme \<Rightarrow> bool" where
  "dir_ok dp s \<longleftrightarrow> file_ok dp s \<and> i_type (icache s dp) = T_DIR \<and> sizeof_dirent dvd unat (i_size (icache s dp))"

lemma dirlookup_loop_find:
  fixes s :: "'a fs_state_scheme"
  assumes "fs_inv s" "dir_ok dp s" "busy s = {}" "k + j = unat (i_size (icache s dp)) div sizeof_dirent"
  shows "\<exists>t. wrote s [] t \<and> dirlookup_loop devsw k dp (of_nat (sizeof_dirent * j)) name s =
    (case find (matches dp s name) [j..<j + k] of
       None \<Rightarrow> Done (None, t)
     | Some i \<Rightarrow> obind (iget (i_dev (icache s dp)) (ucast (de_inum (entry dp s i))) t)
         (\<lambda>(ip, u). Done (Some (ip, of_nat (sizeof_dirent * i)), u)))"
  using assms
  supply of_nat_mult [simp del]
proof (induction k arbitrary: j s)
  case 0
  then show ?case using wrote_Nil [OF fs_invD(2) [OF 0(1)]] by auto
next
  case (Suc k)
  let ?sz = "unat (i_size (icache s dp))"
  have d: "file_ok dp s" "i_type (icache s dp) \<noteq> T_DEV" "sizeof_dirent * (?sz div sizeof_dirent) = ?sz"
    using Suc.prems(2) by (simp_all add: dir_ok_def T_DIR_def T_DEV_def)
  have sz: "?sz < 2 ^ 31" by (rule file_size(2) [OF d(1)])
  have j: "sizeof_dirent * j + sizeof_dirent \<le> ?sz"
    using Suc.prems(4) d(3) by (metis add_Suc_shift le_add2 mult_Suc_right mult_le_mono2 add.commute)
  let ?off = "of_nat (sizeof_dirent * j) :: u32"
  have o: "unat ?off = sizeof_dirent * j" using j sz by (simp add: unat_of_nat)
  have nw: "unat (?off + of_nat sizeof_dirent) = sizeof_dirent * j + sizeof_dirent"
    using unat_add_of_nat [of ?off sizeof_dirent] o j sz by simp
  have u: "unat (of_nat sizeof_dirent :: u32) = sizeof_dirent" by (simp add: layout_defs)
  have le: "?off \<le> i_size (icache s dp)" "\<not> ?off + of_nat sizeof_dirent < ?off"
    using o j nw by (simp_all add: word_le_nat_alt word_less_nat_alt)
  obtain t where t: "readi devsw dp ?off (of_nat sizeof_dirent) s =
      Done (int sizeof_dirent, map (content dp s) [sizeof_dirent * j..<sizeof_dirent * j + sizeof_dirent], t)" "wrote s [] t"
    using readi_content [OF Suc.prems(1) d(1) Suc.prems(3) d(2) le, of devsw] j unfolding o u
    by (metis min_absorb1 add_le_imp_le_diff add.commute)
  have e: "dirent_of (map (content dp s) [sizeof_dirent * j..<sizeof_dirent * j + sizeof_dirent]) = entry dp s j"
    by (simp add: entry_def add.commute)
  have ic: "icache t = icache s" using wrote_same(6) [OF t(2)] .
  have up: "[j..<j + Suc k] = j # [Suc j..<Suc j + k]" by (simp add: upt_conv_Cons)
  show ?case
  proof (cases "matches dp s name j")
    case True
    then have "de_inum (entry dp s j) \<noteq> 0 \<and> namecmp name (de_name (entry dp s j)) = 0"
      by (auto simp: matches_def namecmp_zero)
    then show ?thesis using t e True ic unfolding up by (intro exI [of _ t]) simp
  next
    case False
    then have nm: "\<not> (de_inum (entry dp s j) \<noteq> 0 \<and> namecmp name (de_name (entry dp s j)) = 0)"
      by (auto simp: matches_def namecmp_zero)
    have same: "entry dp t = entry dp s" "matches dp t name = matches dp s name"
      by (rule ext; simp add: entry_def matches_def view_same(7) [OF t(2)])+
    have t': "fs_inv t" "dir_ok dp t" "busy t = {}" "k + Suc j = unat (i_size (icache t dp)) div sizeof_dirent"
      using wrote_same(5) [OF t(2)] view_same(5) [OF t(2)] Suc.prems ic t(2) by (simp_all add: dir_ok_def edits_def)
    have off: "of_nat (sizeof_dirent * Suc j) = ?off + (of_nat sizeof_dirent :: u32)" by (simp add: algebra_simps)
    obtain v where v: "wrote t [] v" "dirlookup_loop devsw k dp (of_nat (sizeof_dirent * Suc j)) name t =
      (case find (matches dp s name) [Suc j..<Suc j + k] of
         None \<Rightarrow> Done (None, v)
       | Some i \<Rightarrow> obind (iget (i_dev (icache s dp)) (ucast (de_inum (entry dp s i))) v)
           (\<lambda>(ip, u). Done (Some (ip, of_nat (sizeof_dirent * i)), u)))"
      using Suc.IH [OF t'] unfolding same ic by blast
    have "wrote s [] v" using wrote_trans [OF t(2) v(1)] by simp
    then show ?thesis
      using t(1) e False v(2) unfolding up off by (intro exI [of _ v]) (simp add: Let_def nm del: upt_Suc)
  qed
qed

lemma dirlookup_find:
  fixes s :: "'a fs_state_scheme"
  assumes "fs_inv s" "dir_ok dp s" "busy s = {}"
  obtains t where "wrote s [] t" "dirlookup devsw dp name s =
    (case find (matches dp s name) [0..<unat (i_size (icache s dp)) div sizeof_dirent] of
       None \<Rightarrow> Done (None, t)
     | Some i \<Rightarrow> obind (iget (i_dev (icache s dp)) (ucast (de_inum (entry dp s i))) t)
         (\<lambda>(ip, u). Done (Some (ip, of_nat (sizeof_dirent * i)), u)))"
proof -
  have d: "sizeof_dirent dvd unat (i_size (icache s dp))" "i_type (icache s dp) = T_DIR" using assms(2) by (simp_all add: dir_ok_def)
  have "nentries (i_size (icache s dp)) = unat (i_size (icache s dp)) div sizeof_dirent"
    using d(1) by (auto simp: nentries_def sizeof_dirent_def DIRSIZ_def elim!: dvdE)
  then have n: "nentries (i_size (icache s dp)) + 0 = unat (i_size (icache s dp)) div sizeof_dirent" by simp
  from dirlookup_loop_find [OF assms n, of devsw name] show ?thesis
    using that d(2) n by (auto simp: dirlookup_def)
qed

section \<open>The inode cache\<close>

text \<open>No inode is cached twice.\<close>

definition icache_ok :: "'a fs_state_scheme \<Rightarrow> bool" where
  "icache_ok s \<longleftrightarrow> (\<forall>i<NINODE. 0 \<le> i_ref (icache s i)) \<and>
     (\<forall>i<NINODE. \<forall>j<NINODE. 0 < i_ref (icache s i) \<longrightarrow> 0 < i_ref (icache s j) \<longrightarrow>
        i_dev (icache s i) = i_dev (icache s j) \<longrightarrow> i_inum (icache s i) = i_inum (icache s j) \<longrightarrow> i = j)"

definition cached_at :: "u32 \<Rightarrow> u32 \<Rightarrow> 'a fs_state_scheme \<Rightarrow> nat \<Rightarrow> bool" where
  "cached_at d n s i \<longleftrightarrow> i < NINODE \<and> 0 < i_ref (icache s i) \<and> i_dev (icache s i) = d \<and> i_inum (icache s i) = n"

lemma find_upt_None: "find P [a..<b] = None \<longleftrightarrow> (\<forall>i. a \<le> i \<longrightarrow> i < b \<longrightarrow> \<not> P i)"
  by (auto simp: find_None_iff)

lemma iget_cases:
  assumes "icache_ok s"
  shows "(\<exists>i. cached_at d n s i \<and> iget d n s = Done (i, upd_inode i (\<lambda>x. x\<lparr>i_ref := i_ref x + 1\<rparr>) s)) \<or>
    (\<forall>i. \<not> cached_at d n s i) \<and> (\<exists>i<NINODE. i_ref (icache s i) = 0 \<and>
       iget d n s = Done (i, upd_inode i (\<lambda>x. x\<lparr>i_dev := d, i_inum := n, i_ref := 1, i_flags := {}\<rparr>) s)) \<or>
    (\<forall>i. \<not> cached_at d n s i) \<and> (\<forall>i<NINODE. 0 < i_ref (icache s i)) \<and> iget d n s = Panic ''iget: no inodes''"
proof (cases "find (\<lambda>ip. i_ref (icache s ip) > 0 \<and> i_dev (icache s ip) = d \<and> i_inum (icache s ip) = n) [0..<NINODE]")
  case (Some i)
  then have "cached_at d n s i" by (auto simp: cached_at_def dest!: find_upt_Some)
  then show ?thesis using Some by (auto simp: iget_def)
next
  case None
  then have no: "\<not> cached_at d n s i" for i by (auto simp: cached_at_def find_upt_None)
  show ?thesis
  proof (cases "find (\<lambda>ip. i_ref (icache s ip) = 0) [0..<NINODE]")
    case (Some i)
    then show ?thesis using None no by (auto simp: iget_def dest!: find_upt_Some)
  next
    case full: None
    have "0 < i_ref (icache s i)" if "i < NINODE" for i
    proof -
      have "i_ref (icache s i) \<noteq> 0" using full that by (simp add: find_upt_None)
      moreover have "0 \<le> i_ref (icache s i)" using assms that by (simp add: icache_ok_def)
      ultimately show ?thesis by simp
    qed
    then show ?thesis using None full no by (auto simp: iget_def)
  qed
qed

section \<open>Paths\<close>

text \<open>The path cut at its slashes, and the elements that \<open>skipelem\<close> delivers one after the other.\<close>

fun split_path :: "bytes \<Rightarrow> bytes list" where
  "split_path [] = [[]]"
| "split_path (c # cs) =
     (if c = 47 then [] # split_path cs else (c # hd (split_path cs)) # tl (split_path cs))"

function path_names :: "bytes \<Rightarrow> bytes \<Rightarrow> bytes list" where
  "path_names path name =
     (case skipelem path name of None \<Rightarrow> [] | Some (rest, name) \<Rightarrow> dname name # path_names rest name)"
  by auto
termination
  by (relation "measure (\<lambda>(path, _). length path)") (auto dest: skipelem_shorter)

declare path_names.simps [simp del]

lemma split_path_ne: "split_path p \<noteq> []"
  by (cases p) auto

abbreviation elems :: "bytes \<Rightarrow> bytes list" where
  "elems p \<equiv> filter (\<lambda>x. x \<noteq> []) (split_path p)"

lemma elems_slashes: "elems (dropWhile (\<lambda>c. c = 47) p) = elems p"
  by (induction p) auto

lemma split_path_elem:
  "split_path p = takeWhile (\<lambda>c. c \<noteq> 47) p #
     (case dropWhile (\<lambda>c. c \<noteq> 47) p of [] \<Rightarrow> [] | _ # q \<Rightarrow> split_path q)"
  by (induction p) auto

lemma elems_first:
  assumes "p \<noteq> []" "hd p \<noteq> 47"
  shows "elems p = takeWhile (\<lambda>c. c \<noteq> 47) p # elems (dropWhile (\<lambda>c. c \<noteq> 47) p)"
proof -
  have ne: "takeWhile (\<lambda>c. c \<noteq> 47) p \<noteq> []" using assms by (cases p) auto
  show ?thesis
  proof (cases "dropWhile (\<lambda>c. c \<noteq> 47) p")
    case Nil
    show ?thesis unfolding split_path_elem [of p] Nil using ne by simp
  next
    case (Cons c q)
    then have "c = 47" using hd_dropWhile [of "\<lambda>c. c \<noteq> 47" p] by simp
    then show ?thesis unfolding split_path_elem [of p] Cons using ne by simp
  qed
qed

lemma skipelem_spec:
  assumes n: "length name = DIRSIZ" and z: "0 \<notin> set path"
  shows "case elems path of
    [] \<Rightarrow> skipelem path name = None
  | e # es \<Rightarrow> \<exists>rest name'. skipelem path name = Some (rest, name') \<and> dname name' = take DIRSIZ e \<and>
      length name' = DIRSIZ \<and> elems rest = es \<and> 0 \<notin> set rest"
proof -
  define p where "p = dropWhile (\<lambda>c. c = 47) path"
  have ep: "elems path = elems p" by (simp add: p_def elems_slashes)
  show ?thesis
  proof (cases "p = []")
    case True
    then have "elems path = []" unfolding ep by simp
    moreover have "skipelem path name = None" using True by (simp add: skipelem_def p_def)
    ultimately show ?thesis by simp
  next
    case False
    have hp: "hd p \<noteq> 47" using False hd_dropWhile [of "\<lambda>c. c = 47" path] by (simp add: p_def)
    define e where "e = takeWhile (\<lambda>c. c \<noteq> 47) p"
    define rest where "rest = dropWhile (\<lambda>c. c = 47) (dropWhile (\<lambda>c. c \<noteq> 47) p)"
    define nm where "nm = (if length e \<ge> DIRSIZ then patch 0 (take DIRSIZ e) name else patch 0 (e @ [0]) name)"
    have sk: "skipelem path name = Some (rest, nm)"
      using False by (simp add: skipelem_def Let_def p_def [symmetric] e_def rest_def nm_def)
    have sub: "set p \<subseteq> set path" "set e \<subseteq> set p" "set rest \<subseteq> set p"
      by (auto simp: p_def e_def rest_def dest: set_takeWhileD set_dropWhileD)
    then have ze: "\<forall>c\<in>set e. c \<noteq> 0" using z by auto
    have "dname nm = take DIRSIZ e" "length nm = DIRSIZ"
    proof -
      show "length nm = DIRSIZ" using n by (simp add: nm_def)
      show "dname nm = take DIRSIZ e"
      proof (cases "length e \<ge> DIRSIZ")
        case True
        then have "nm = take DIRSIZ e" using n by (simp add: nm_def patch_all)
        moreover have "takeWhile (\<lambda>c. c \<noteq> 0) (take DIRSIZ e) = take DIRSIZ e"
          using ze by (intro takeWhile_eq_all_conv [THEN iffD2]) (auto dest: in_set_takeD)
        ultimately show ?thesis by (simp add: dname_def)
      next
        case False
        then have "take DIRSIZ nm = e @ 0 # drop (Suc (length e)) name" using n by (simp add: nm_def patch_def)
        moreover have "takeWhile (\<lambda>c. c \<noteq> 0) (e @ 0 # q) = e" for q
          using ze by (simp add: takeWhile_append takeWhile_eq_all_conv [THEN iffD2])
        ultimately show ?thesis using False by (simp add: dname_def)
      qed
    qed
    moreover have "elems path = e # elems rest"
      unfolding ep elems_first [OF False hp] by (simp add: e_def rest_def elems_slashes)
    ultimately show ?thesis using sk sub z by auto
  qed
qed

lemma path_names_elems:
  assumes "length name = DIRSIZ" "0 \<notin> set path"
  shows "path_names path name = map (take DIRSIZ) (elems path)"
  using assms
proof (induction path name rule: path_names.induct)
  case (1 path name)
  show ?case
  proof (cases "elems path")
    case Nil
    then show ?thesis using skipelem_spec [OF "1.prems"] by (simp add: path_names.simps)
  next
    case (Cons e es)
    then obtain rest nm where r: "skipelem path name = Some (rest, nm)" "dname nm = take DIRSIZ e" "length nm = DIRSIZ"
      "elems rest = es" "0 \<notin> set rest"
      using skipelem_spec [OF "1.prems"] by auto
    have "path_names rest nm = map (take DIRSIZ) es" using "1.IH" [OF r(1) refl r(3,5)] r(4) by simp
    then show ?thesis using r(1,2) Cons by (simp add: path_names.simps [of path])
  qed
qed

section \<open>Properties\<close>

text \<open>
  C6: \<open>dirlookup\<close> finds the first entry with the name. In a well-formed directory it returns the cached
  inode of the first entry that is in use and has the name, compared up to 14 characters, together with the
  offset of that entry, and the null pointer when there is none; no block and no inode changes on the way.
\<close>

theorem dirlookup_finds_first:
  fixes s :: "'a fs_state_scheme"
  assumes "fs_inv s" "dir_ok dp s" "busy s = {}"
  shows "\<exists>t. blk t = blk s \<and> icache t = icache s \<and> fs_inv t \<and> dirlookup devsw dp name s =
    (case find (matches dp s name) [0..<unat (i_size (icache s dp)) div sizeof_dirent] of
       None \<Rightarrow> Done (None, t)
     | Some i \<Rightarrow> obind (iget (i_dev (icache s dp)) (ucast (de_inum (entry dp s i))) t)
         (\<lambda>(ip, u). Done (Some (ip, of_nat (sizeof_dirent * i)), u)))"
proof -
  obtain t where t: "wrote s [] t" "dirlookup devsw dp name s =
    (case find (matches dp s name) [0..<unat (i_size (icache s dp)) div sizeof_dirent] of
       None \<Rightarrow> Done (None, t)
     | Some i \<Rightarrow> obind (iget (i_dev (icache s dp)) (ucast (de_inum (entry dp s i))) t)
         (\<lambda>(ip, u). Done (Some (ip, of_nat (sizeof_dirent * i)), u)))"
    by (rule dirlookup_find [OF assms])
  then show ?thesis using wrote_same(5,6) [OF t(1)] assms(1) by (auto simp: edits_def)
qed

lemma demo_entry:
  assumes "k < 3"
  shows "entry 0 demo_fs k = dirent_of (slice (16 * k) 16 demo_entries)"
proof -
  have "map (content 0 demo_fs) [16 * k..<16 * k + 16] = slice (16 * k) 16 demo_entries"
    using assms by (intro nth_equalityI) (auto simp: demo_content nth_slice demo_entries_length)
  then show ?thesis by (simp add: entry_def sizeof_dirent_def DIRSIZ_def add.commute)
qed

lemma demo_entry_at:
  "entry 0 demo_fs 0 = \<lparr>de_inum = 1, de_name = 46 # replicate 13 0\<rparr>"
  "entry 0 demo_fs 1 = \<lparr>de_inum = 1, de_name = 46 # 46 # replicate 12 0\<rparr>"
  "entry 0 demo_fs 2 = \<lparr>de_inum = 2, de_name = 97 # replicate 13 0\<rparr>"
  by (simp_all add: demo_entry dirent_of_def demo_entries_def bytes_of_dirent_def slice_def DIRSIZ_def get16_def
      bytes_of_u16_def u16_of_bytes_def)

lemma demo_dir_ok: "dir_ok 0 demo_fs"
  by (simp add: dir_ok_def demo_file_ok demo_dir_def T_DIR_def sizeof_dirent_def DIRSIZ_def)

theorem dirlookup_finds_first_witness:
  "\<exists>t. dirlookup demo_devsw 0 [97] demo_fs = Done (Some (2, 32), t)"
proof -
  have f: "find (matches 0 demo_fs [97]) [0..<3] = Some 2"
    by (simp add: matches_def demo_entry_at dname_def DIRSIZ_def upt_rec numeral_2_eq_2 [symmetric] One_nat_def [symmetric] del: One_nat_def)
  obtain t where t: "icache t = icache demo_fs" "dirlookup demo_devsw 0 [97] demo_fs =
      obind (iget 1 2 t) (\<lambda>(ip, u). Done (Some (ip, 32), u))"
    using dirlookup_finds_first [OF demo_fs_inv demo_dir_ok, of demo_devsw "[97]"] f
    by (auto simp: demo_dir_def sizeof_dirent_def DIRSIZ_def demo_entry_at)
  have "find (\<lambda>ip. i_ref (icache t ip) > 0 \<and> i_dev (icache t ip) = 1 \<and> i_inum (icache t ip) = 2) [0..<NINODE] = Some 2"
    by (rule find_unique) (auto simp: t(1) demo_file_def demo_dir_def demo_none_def layout_defs split: if_splits)
  then show ?thesis using t(2) by (simp add: iget_def)
qed

text \<open>
  C30: an inode is cached at most once. \<open>iget\<close> returns the entry of the cache that holds the inode, with
  one reference more than before; the cache still has no inode twice, and no other entry changes. It
  panics only when the inode is not cached and every entry is referenced.
\<close>

theorem iget_unique:
  assumes "icache_ok s"
  shows "(\<exists>i t. iget d n s = Done (i, t) \<and> icache_ok t \<and> cached_at d n t i \<and> (\<forall>j. cached_at d n t j \<longrightarrow> j = i) \<and>
      i_ref (icache t i) = i_ref (icache s i) + 1 \<and> (\<forall>j. j \<noteq> i \<longrightarrow> icache t j = icache s j) \<and> blk t = blk s) \<or>
    (\<forall>i. \<not> cached_at d n s i) \<and> (\<forall>i<NINODE. 0 < i_ref (icache s i)) \<and> iget d n s = Panic ''iget: no inodes''"
  using iget_cases [OF assms, of d n]
proof (elim disjE exE conjE, goal_cases)
  case (1 i)
  let ?t = "upd_inode i (\<lambda>x. x\<lparr>i_ref := i_ref x + 1\<rparr>) s"
  have "icache_ok ?t" "cached_at d n ?t i" "\<forall>j. cached_at d n ?t j \<longrightarrow> j = i"
    using 1(1) assms by (auto simp: icache_ok_def cached_at_def)
  then show ?case using 1(2) by auto
next
  case (2 i)
  let ?t = "upd_inode i (\<lambda>x. x\<lparr>i_dev := d, i_inum := n, i_ref := 1, i_flags := {}\<rparr>) s"
  have "icache_ok ?t" "cached_at d n ?t i" "\<forall>j. cached_at d n ?t j \<longrightarrow> j = i"
    using 2(1-3) assms by (auto simp: icache_ok_def cached_at_def)
  then show ?case using 2(3,4) by auto
next
  case 3
  then show ?case by blast
qed

theorem iget_unique_witness:
  "\<exists>t. iget 1 2 demo_fs = Done (2, t) \<and> i_ref (icache t 2) = 2"
proof -
  have ok: "icache_ok demo_fs" by (auto simp: icache_ok_def demo_none_def demo_dir_def demo_file_def)
  have "0 < i_ref (icache demo_fs 2)" "cached_at 1 2 demo_fs 2" by (simp_all add: cached_at_def demo_file_def layout_defs)
  then obtain i t where t: "iget 1 2 demo_fs = Done (i, t)" "\<forall>j. cached_at 1 2 t j \<longrightarrow> j = i"
    "i_ref (icache t i) = i_ref (icache demo_fs i) + 1" "\<forall>j. j \<noteq> i \<longrightarrow> icache t j = icache demo_fs j"
    using iget_unique [OF ok, of 1 2] by blast
  have "i = 2"
  proof (rule ccontr)
    assume i: "i \<noteq> 2"
    then have "cached_at 1 2 t 2" using t(4) by (simp add: cached_at_def demo_file_def layout_defs)
    then show False using t(2) i by blast
  qed
  then show ?thesis using t(1,3) by (auto simp: demo_file_def)
qed

text \<open>
  C31: a path is taken apart into its elements. The names that repeated calls of \<open>skipelem\<close> leave in
  the 14-byte buffer are the non-empty parts of the path between slashes, each cut to 14 characters.
\<close>

theorem skipelem_elements:
  assumes "length name = DIRSIZ" "0 \<notin> set path"
  shows "path_names path name = map (take DIRSIZ) (filter (\<lambda>x. x \<noteq> []) (split_path path))"
  by (rule path_names_elems [OF assms])

theorem skipelem_elements_witness:
  "path_names [47, 47, 97, 47, 98, 98, 47] (replicate DIRSIZ 0) = [[97], [98, 98]]"
  using skipelem_elements [of "replicate DIRSIZ 0" "[47, 47, 97, 47, 98, 98, 47]"] by (simp add: DIRSIZ_def)

end
