(* ===== verification/Vm_Spec.thy ===== *)
theory Vm_Spec
  imports Vm
begin

text \<open>
  Page tables as maps from pages to entries: the invariant of a page directory, and what looking up,
  adding and changing entries does to the map and to the rest of memory.
\<close>

section \<open>Pages of memory\<close>

lemma PGROUNDDOWN_page:
  assumes "q mod PGSIZE = 0" "unat i < 4096"
  shows "PGROUNDDOWN (q + i) = q"
proof -
  obtain k where k: "unat q = 4096 * k" using assms(1) by (auto simp: aligned_unat)
  then have "k < 2 ^ 20" using unat_less_32 [of q] by simp
  then have "unat (q + i) = unat q + unat i" using unat_add_of_nat [of q "unat i"] k assms(2) by simp
  then have "unat (PGROUNDDOWN (q + i)) = unat q" using k assms(2) by (simp add: unat_PGROUNDDOWN)
  then show ?thesis by (simp add: word_unat_eq_iff)
qed

lemma aligned_PGROUNDDOWN [simp]: "PGROUNDDOWN a mod PGSIZE = 0"
  by (simp add: aligned_unat unat_PGROUNDDOWN)

lemma aligned_diff:
  assumes "x mod PGSIZE = 0" "v mod PGSIZE = 0"
  shows "4096 dvd unat (x - v)"
proof (cases "v \<le> x")
  case True
  then have "unat (x - v) = unat x - unat v" by (rule unat_sub)
  then show ?thesis using assms by (simp add: aligned_unat dvd_diff_nat)
next
  case False
  then have "unat (x - v) = 2 ^ 32 + unat x - unat v" using unat_sub_wrap [of x v] by simp
  then show ?thesis using assms by (simp add: aligned_unat dvd_diff_nat)
qed

lemma in_page_iff: "q mod PGSIZE = 0 \<Longrightarrow> unat (a - q) < 4096 \<longleftrightarrow> PGROUNDDOWN a = q"
proof
  assume q: "q mod PGSIZE = 0" and "unat (a - q) < 4096"
  from PGROUNDDOWN_page [OF q this(2)] show "PGROUNDDOWN a = q" by simp
next
  assume "q mod PGSIZE = 0" "PGROUNDDOWN a = q"
  then have "unat (a - q) = unat a mod 4096" using page_offset [of a] by simp
  then show "unat (a - q) < 4096" by simp
qed

text \<open>The \<open>k\<close>-th word of a page.\<close>

lemma word_offset_unat: "k < 1024 \<Longrightarrow> j < 4 \<Longrightarrow> unat (of_nat (4 * k + j) :: u32) = 4 * k + j"
  by (simp add: unat_of_nat take_bit_nat_eq_self del: of_nat_add of_nat_mult)

lemma word_in_page:
  assumes "q mod PGSIZE = 0" "k < 1024" "j < 4"
  shows "PGROUNDDOWN (q + 4 * of_nat k + of_nat j) = q"
proof -
  have "unat (of_nat (4 * k + j) :: u32) < 4096" using assms(2,3) by (simp add: word_offset_unat del: of_nat_add of_nat_mult)
  from PGROUNDDOWN_page [OF assms(1) this] show ?thesis by (simp add: add.assoc)
qed

lemma load32_page_cong:
  assumes "q mod PGSIZE = 0" "k < 1024" "\<And>a. PGROUNDDOWN a = q \<Longrightarrow> m' a = m a"
  shows "load32 m' (q + 4 * of_nat k) = load32 m (q + 4 * of_nat k)"
proof -
  have "m' (q + 4 * of_nat k + of_nat j) = m (q + 4 * of_nat k + of_nat j)" if "j < 4" for j
    using word_in_page [OF assms(1,2) that] assms(3) by blast
  from this [of 0] this [of 1] this [of 2] this [of 3] show ?thesis
    by (intro load32_cong) simp_all
qed

lemma store32_page_other:
  assumes "q mod PGSIZE = 0" "k < 1024" "PGROUNDDOWN a \<noteq> q"
  shows "store32 (q + 4 * of_nat k) v m a = m a"
proof -
  have "a \<noteq> q + 4 * of_nat k + of_nat j" if "j < 4" for j
    using word_in_page [OF assms(1,2) that] assms(3) by auto
  from this [of 0] this [of 1] this [of 2] this [of 3] show ?thesis by (simp add: store32_def)
qed

lemma word_index_inj:
  assumes "k < 1024" "k' < 1024" "i < 4" "j < 4" "q + 4 * of_nat k + of_nat i = (q + 4 * of_nat k' + of_nat j :: u32)"
  shows "k = k' \<and> i = j"
proof -
  have "of_nat (4 * k + i) = (of_nat (4 * k' + j) :: u32)" using assms(5) by (simp add: add.assoc)
  then have "unat (of_nat (4 * k + i) :: u32) = unat (of_nat (4 * k' + j) :: u32)" by simp
  then have "4 * k + i = 4 * k' + j" using assms(1-4) by (simp add: word_offset_unat del: of_nat_add of_nat_mult)
  then show ?thesis using assms(3,4) by presburger
qed

lemma load32_store32_word:
  assumes "k < 1024" "k' < 1024" "k \<noteq> k'"
  shows "load32 (store32 (q + 4 * of_nat k) v m) (q + 4 * of_nat k') = load32 m (q + 4 * of_nat k')"
proof -
  have "store32 (q + 4 * of_nat k) v m (q + 4 * of_nat k' + of_nat j) = m (q + 4 * of_nat k' + of_nat j)" if "j < 4" for j
  proof -
    have "q + 4 * of_nat k' + of_nat j \<noteq> q + 4 * of_nat k + of_nat i" if "i < 4" for i
      using word_index_inj [OF assms(2,1) \<open>j < 4\<close> that, of q] assms(3) by auto
    from this [of 0] this [of 1] this [of 2] this [of 3] show ?thesis by (simp add: store32_def)
  qed
  from this [of 0] this [of 1] this [of 2] this [of 3] show ?thesis by (intro load32_cong) simp_all
qed

lemma word_page:
  fixes w :: u32
  assumes "unat w < 1024"
  shows "q mod PGSIZE = 0 \<Longrightarrow> (\<And>a. PGROUNDDOWN a = q \<Longrightarrow> m' a = m a) \<Longrightarrow> load32 m' (q + 4 * w) = load32 m (q + 4 * w)"
    "q mod PGSIZE = 0 \<Longrightarrow> PGROUNDDOWN a \<noteq> q \<Longrightarrow> store32 (q + 4 * w) v m a = m a"
    "unat w' < 1024 \<Longrightarrow> w \<noteq> w' \<Longrightarrow> load32 (store32 (q + 4 * w) v m) (q + 4 * w') = load32 m (q + 4 * w')"
  using load32_page_cong [of q "unat w" m' m] store32_page_other [of q "unat w" a v m]
    load32_store32_word [of "unat w" "unat w'" q v m] assms by (auto simp: word_unat_eq_iff)

section \<open>The free list and the rest of memory\<close>

lemma free_list_frame:
  assumes f: "free_list s xs" and m: "\<And>a. PGROUNDDOWN a \<in> set xs \<Longrightarrow> m' a = kmem_mem s a"
  shows "free_list (s\<lparr>kmem_mem := m'\<rparr>) xs"
proof -
  have "load32 m' x = load32 (kmem_mem s) x" if "x \<in> set xs" for x
  proof -
    have x: "x mod PGSIZE = 0" using f that by (auto simp: free_list_def page_ok_def)
    have z: "(0 :: nat) < 1024" by simp
    show ?thesis using load32_page_cong [OF x z, of m' "kmem_mem s"] m that by simp
  qed
  then have "chain m' (freelist s) xs" using f chain_cong [of xs m' "kmem_mem s"] by (simp add: free_list_def)
  then show ?thesis using f by (simp add: free_list_def page_ok_def)
qed

lemma kmem_frame:
  assumes "kmem_inv s" "\<And>a. PGROUNDDOWN a \<in> free_pages s \<Longrightarrow> m' a = kmem_mem s a"
  shows "kmem_inv (s\<lparr>kmem_mem := m'\<rparr>)" "free_pages (s\<lparr>kmem_mem := m'\<rparr>) = free_pages s"
proof -
  obtain xs where xs: "free_list s xs" using assms(1) by (auto simp: kmem_inv_def)
  note f = free_pages_eq [OF xs]
  have "free_list (s\<lparr>kmem_mem := m'\<rparr>) xs" using free_list_frame [OF xs] assms(2) f by simp
  then show "kmem_inv (s\<lparr>kmem_mem := m'\<rparr>)" "free_pages (s\<lparr>kmem_mem := m'\<rparr>) = free_pages s"
    using free_pages_eq f by (auto simp: kmem_inv_def)
qed

lemma kalloc_spec:
  assumes "kmem_inv s"
  shows "free_pages s = {} \<and> kalloc s = (0, s) \<or>
    (\<exists>p t. kalloc s = (p, t) \<and> p \<noteq> 0 \<and> page_ok p s \<and> p \<in> free_pages s \<and> kmem_inv t \<and> free_pages t = free_pages s - {p} \<and>
       kmem_mem t = kmem_mem s \<and> kend t = kend s)"
proof -
  obtain xs where xs: "free_list s xs" using assms by (auto simp: kmem_inv_def)
  note f = free_pages_eq [OF xs]
  show ?thesis
  proof (cases xs)
    case Nil
    then show ?thesis using xs f kalloc_Nil by auto
  next
    case (Cons x ys)
    then have k: "kalloc s = (x, s\<lparr>freelist := load32 (kmem_mem s) x\<rparr>)" "x \<noteq> 0"
      "free_list (s\<lparr>freelist := load32 (kmem_mem s) x\<rparr>) ys"
      using kalloc_Cons [of s x ys] xs by auto
    moreover have "page_ok x s" "x \<notin> set ys" using xs Cons by (auto simp: free_list_def)
    ultimately show ?thesis using f Cons free_pages_eq [OF k(3)] by (auto simp: kmem_inv_def)
  qed
qed

section \<open>Page tables as maps\<close>

definition present :: "u32 \<Rightarrow> bool" where
  "present e \<longleftrightarrow> e AND PTE_P \<noteq> 0"

definition pde :: "mem \<Rightarrow> u32 \<Rightarrow> nat \<Rightarrow> u32" where
  "pde m d i = load32 m (d + 4 * of_nat i)"

definition table :: "u32 \<Rightarrow> u32" where
  "table e = p2v (PTE_ADDR e)"

definition tables :: "mem \<Rightarrow> u32 \<Rightarrow> u32 set" where
  "tables m d = {table (pde m d i) |i. i < 1024 \<and> present (pde m d i)}"

text \<open>The entry that translates \<open>va\<close>, 0 if there is no table for it.\<close>

definition pte_of :: "mem \<Rightarrow> u32 \<Rightarrow> u32 \<Rightarrow> u32" where
  "pte_of m d va =
     (let e = pde m d (unat (PDX va)) in
      if present e then load32 m (table e + 4 * PTX va) else 0)"

text \<open>
  The directory and its tables are pages of their own: in managed memory, not free, and no two of them the
  same.
\<close>

definition pt_inv :: "u32 \<Rightarrow> 'a kmem_scheme \<Rightarrow> bool" where
  "pt_inv d s \<longleftrightarrow> kmem_inv s \<and> page_ok d s \<and> d \<notin> free_pages s \<and> d \<notin> tables (kmem_mem s) d \<and>
     (\<forall>p\<in>tables (kmem_mem s) d. page_ok p s \<and> p \<notin> free_pages s) \<and>
     inj_on (\<lambda>i. table (pde (kmem_mem s) d i)) {i. i < 1024 \<and> present (pde (kmem_mem s) d i)}"

lemma not_present_0 [simp]: "\<not> present 0"
  by (simp add: present_def)

lemma page_aligned: "page_ok p s \<Longrightarrow> p mod PGSIZE = 0"
  by (simp add: page_ok_def del: mod_0_imp_dvd)

lemma tables_I: "i < 1024 \<Longrightarrow> present (pde m d i) \<Longrightarrow> table (pde m d i) \<in> tables m d"
  by (auto simp: tables_def)

lemma pde_cong: "d mod PGSIZE = 0 \<Longrightarrow> i < 1024 \<Longrightarrow> (\<And>a. PGROUNDDOWN a = d \<Longrightarrow> m' a = m a) \<Longrightarrow> pde m' d i = pde m d i"
  unfolding pde_def by (rule load32_page_cong)

lemma tables_cong:
  assumes "\<And>i. i < 1024 \<Longrightarrow> pde m' d i = pde m d i"
  shows "tables m' d = tables m d"
  using assms unfolding tables_def by (intro Collect_cong ex_cong1) auto

lemma pte_of_cong:
  assumes "\<And>i. i < 1024 \<Longrightarrow> pde m' d i = pde m d i" "\<forall>p\<in>tables m d. p mod PGSIZE = 0"
    "\<And>a. PGROUNDDOWN a \<in> tables m d \<Longrightarrow> m' a = m a"
  shows "pte_of m' d va = pte_of m d va"
proof -
  let ?i = "unat (PDX va)"
  note b = index_bounds [of va]
  show ?thesis
  proof (cases "present (pde m d ?i)")
    case True
    then have t: "table (pde m d ?i) \<in> tables m d" using b by (intro tables_I)
    then have "load32 m' (table (pde m d ?i) + 4 * PTX va) = load32 m (table (pde m d ?i) + 4 * PTX va)"
      using assms(2,3) b by (intro word_page) auto
    then show ?thesis using assms(1) [OF b(1)] by (simp add: pte_of_def Let_def)
  qed (use assms(1) [OF b(1)] in \<open>simp add: pte_of_def Let_def\<close>)
qed

text \<open>Memory that belongs neither to the directory, nor to its tables, nor to free pages may change.\<close>

lemma pt_inv_frame:
  assumes s: "pt_inv d s"
    and m: "\<And>a. PGROUNDDOWN a = d \<or> PGROUNDDOWN a \<in> tables (kmem_mem s) d \<or> PGROUNDDOWN a \<in> free_pages s \<Longrightarrow> m' a = kmem_mem s a"
  shows "pt_inv d (s\<lparr>kmem_mem := m'\<rparr>)" "tables m' d = tables (kmem_mem s) d" "pte_of m' d va = pte_of (kmem_mem s) d va"
proof -
  have d: "d mod PGSIZE = 0" using s by (auto simp: pt_inv_def dest: page_aligned)
  have e: "pde m' d i = pde (kmem_mem s) d i" if "i < 1024" for i
    using that m by (intro pde_cong [OF d]) auto
  show t: "tables m' d = tables (kmem_mem s) d" by (rule tables_cong) (rule e)
  show "pte_of m' d va = pte_of (kmem_mem s) d va"
    using s m by (intro pte_of_cong) (auto simp: e pt_inv_def dest: page_aligned)
  have "inj_on (\<lambda>i. table (pde m' d i)) {i. i < 1024 \<and> present (pde m' d i)}"
    using s by (auto simp: pt_inv_def e inj_on_def)
  moreover have "kmem_inv (s\<lparr>kmem_mem := m'\<rparr>)" "free_pages (s\<lparr>kmem_mem := m'\<rparr>) = free_pages s"
    using kmem_frame [of s m'] s m by (auto simp: pt_inv_def)
  ultimately show "pt_inv d (s\<lparr>kmem_mem := m'\<rparr>)" using s by (simp add: pt_inv_def t page_ok_def)
qed

section \<open>Changing an entry\<close>

lemma mult_add_inj:
  fixes a b c n :: nat
  assumes "a * n + b = a' * n + b'" "b < n" "b' < n"
  shows "a = a' \<and> b = b'"
proof -
  have "(a * n + b) div n = a" "(a' * n + b') div n = a'" using assms(2,3) by auto
  then show ?thesis using assms(1) by auto
qed

lemma same_page_index: "PGROUNDDOWN va' = PGROUNDDOWN va \<longleftrightarrow> PDX va' = PDX va \<and> PTX va' = PTX va"
proof
  assume "PGROUNDDOWN va' = PGROUNDDOWN va"
  then have "unat (PDX va') * 2 ^ 22 + unat (PTX va') * 2 ^ 12 = unat (PDX va) * 2 ^ 22 + unat (PTX va) * 2 ^ 12"
    using page_index by metis
  then have "unat (PDX va') * 1024 + unat (PTX va') = unat (PDX va) * 1024 + unat (PTX va)" by simp
  then have "unat (PDX va') = unat (PDX va) \<and> unat (PTX va') = unat (PTX va)"
    using index_bounds [of va] index_bounds [of va'] by (intro mult_add_inj)
  then show "PDX va' = PDX va \<and> PTX va' = PTX va" by (simp add: word_unat_eq_iff)
next
  assume "PDX va' = PDX va \<and> PTX va' = PTX va"
  then have "unat (PGROUNDDOWN va') = unat (PGROUNDDOWN va)" by (simp add: page_index)
  then show "PGROUNDDOWN va' = PGROUNDDOWN va" by (simp add: word_unat_eq_iff)
qed

lemma set_pte:
  fixes d va s e
  defines "i \<equiv> unat (PDX va)"
  defines "q \<equiv> table (pde (kmem_mem s) d i)"
  assumes s: "pt_inv d s" and i: "present (pde (kmem_mem s) d i)"
  defines "m \<equiv> store32 (q + 4 * PTX va) e (kmem_mem s)"
  shows "pt_inv d (s\<lparr>kmem_mem := m\<rparr>)" "free_pages (s\<lparr>kmem_mem := m\<rparr>) = free_pages s"
    "tables m d = tables (kmem_mem s) d"
    "pte_of m d va' = (if PGROUNDDOWN va' = PGROUNDDOWN va then e else pte_of (kmem_mem s) d va')"
    "PGROUNDDOWN a \<noteq> q \<Longrightarrow> m a = kmem_mem s a"
proof -
  note b = index_bounds [of va] index_bounds [of va']
  have qt: "q \<in> tables (kmem_mem s) d" using i b unfolding q_def i_def by (intro tables_I) auto
  then have q: "page_ok q s" "q \<notin> free_pages s" "q \<noteq> d" using s by (auto simp: pt_inv_def)
  have d: "d mod PGSIZE = 0" using s by (auto simp: pt_inv_def dest: page_aligned)
  have m: "m a = kmem_mem s a" if "PGROUNDDOWN a \<noteq> q" for a
    unfolding m_def by (rule word_page(2) [OF b(2) page_aligned [OF q(1)] that])
  then show "PGROUNDDOWN a \<noteq> q \<Longrightarrow> m a = kmem_mem s a" .
  have mf: "m a = kmem_mem s a" if "PGROUNDDOWN a \<in> free_pages s" for a using m q(2) that by metis
  have e: "pde m d j = pde (kmem_mem s) d j" if "j < 1024" for j
    using that m q(3) by (intro pde_cong [OF d]) auto
  show t: "tables m d = tables (kmem_mem s) d" by (rule tables_cong) (rule e)
  have "inj_on (\<lambda>i. table (pde m d i)) {i. i < 1024 \<and> present (pde m d i)}"
    using s by (auto simp: pt_inv_def e inj_on_def)
  moreover have k: "kmem_inv (s\<lparr>kmem_mem := m\<rparr>)" and f: "free_pages (s\<lparr>kmem_mem := m\<rparr>) = free_pages s"
    using kmem_frame [of s m, OF _ mf] s by (auto simp: pt_inv_def)
  ultimately show "pt_inv d (s\<lparr>kmem_mem := m\<rparr>)" using s by (simp add: pt_inv_def t page_ok_def)
  show "free_pages (s\<lparr>kmem_mem := m\<rparr>) = free_pages s" by (rule f)
  show "pte_of m d va' = (if PGROUNDDOWN va' = PGROUNDDOWN va then e else pte_of (kmem_mem s) d va')"
  proof (cases "PDX va' = PDX va")
    case True
    then have "pte_of m d va' = load32 m (q + 4 * PTX va')"
      using i e [of i] b by (simp add: pte_of_def q_def i_def Let_def)
    moreover have "pte_of (kmem_mem s) d va' = load32 (kmem_mem s) (q + 4 * PTX va')"
      using i True by (simp add: pte_of_def q_def i_def Let_def)
    moreover have "load32 m (q + 4 * PTX va') = load32 (kmem_mem s) (q + 4 * PTX va')"
      if "PTX va' \<noteq> PTX va"
      unfolding m_def using that b by (intro word_page(3)) auto
    ultimately show ?thesis using True unfolding same_page_index by (auto simp: m_def)
  next
    case False
    let ?j = "unat (PDX va')"
    have "load32 m (table (pde (kmem_mem s) d ?j) + 4 * PTX va') =
      load32 (kmem_mem s) (table (pde (kmem_mem s) d ?j) + 4 * PTX va')"
      if p: "present (pde (kmem_mem s) d ?j)"
    proof -
      have "table (pde (kmem_mem s) d ?j) \<noteq> q"
        using s p i b False unfolding pt_inv_def q_def i_def inj_on_def by (auto simp: word_unat_eq_iff)
      moreover have "table (pde (kmem_mem s) d ?j) mod PGSIZE = 0"
        using s tables_I [OF b(3) p] by (auto simp: pt_inv_def dest: page_aligned)
      ultimately show ?thesis using b m by (intro word_page(1)) auto
    qed
    then show ?thesis using False e [of ?j] b unfolding same_page_index by (simp add: pte_of_def Let_def)
  qed
qed

section \<open>Finding an entry, and adding a table\<close>

lemma PTE_ADDR_flags: "x mod PGSIZE = 0 \<Longrightarrow> f AND NOT 0xFFF = 0 \<Longrightarrow> PTE_ADDR (x OR f) = x"
  using PGROUNDDOWN_page [of x 0] unfolding PTE_ADDR_eq [symmetric] PTE_ADDR_def by (simp add: bit.conj_disj_distrib2)

lemma present_flags: "present f \<Longrightarrow> present (x OR f)"
  by (simp add: present_def bit.conj_disj_distrib2 or_eq_0_iff)

lemma v2p_aligned: "p mod PGSIZE = 0 \<Longrightarrow> v2p p mod PGSIZE = 0"
  using aligned_diff [of p KERNBASE] by (simp add: aligned_unat v2p_def KERNBASE_def)

lemma p2v_v2p [simp]: "p2v (v2p a) = a"
  by (simp add: p2v_def v2p_def)

definition table_entry :: "u32 \<Rightarrow> u32" where
  "table_entry p = v2p p OR PTE_P OR PTE_W OR PTE_U"

lemma table_entry:
  assumes "p mod PGSIZE = 0"
  shows "present (table_entry p)" "table (table_entry p) = p"
proof -
  have e: "table_entry p = v2p p OR 7" by (simp add: table_entry_def layout_defs or.assoc)
  show "present (table_entry p)" unfolding e by (rule present_flags) (simp add: present_def PTE_P_def)
  show "table (table_entry p) = p"
    unfolding e table_def using PTE_ADDR_flags [OF v2p_aligned [OF assms], of 7] by simp
qed

text \<open>\<open>add_table\<close>: a cleared page becomes the table of a directory entry.\<close>

definition add_table :: "u32 \<Rightarrow> u32 \<Rightarrow> u32 \<Rightarrow> mem \<Rightarrow> mem" where
  "add_table d va p m = store32 (d + 4 * PDX va) (table_entry p) (memset p 0 PGSIZE m)"

lemma add_table_frame:
  assumes "d mod PGSIZE = 0" "p mod PGSIZE = 0" "PGROUNDDOWN a \<noteq> d" "PGROUNDDOWN a \<noteq> p"
  shows "add_table d va p m a = m a"
  using word_page(2) [OF index_bounds(1) assms(1,3), of va] in_page_iff [OF assms(2), of a] assms(4)
  by (simp add: add_table_def memset_page)

lemma add_table_pde:
  assumes "d mod PGSIZE = 0" "p mod PGSIZE = 0" "p \<noteq> d" "i < 1024"
  shows "pde (add_table d va p m) d i = (if i = unat (PDX va) then table_entry p else pde m d i)"
proof (cases "i = unat (PDX va)")
  case True
  then show ?thesis by (simp add: pde_def add_table_def)
next
  case False
  have i: "unat (of_nat i :: u32) = i" using assms(4) by (simp add: unat_of_nat take_bit_nat_eq_self)
  then have "of_nat i \<noteq> PDX va" using False by metis
  then have "pde (add_table d va p m) d i = load32 (memset p 0 PGSIZE m) (d + 4 * of_nat i)"
    unfolding pde_def add_table_def using index_bounds(1) [of va] assms(4)
    by (intro word_page(3)) (auto simp: i)
  also have "\<dots> = pde m d i" unfolding pde_def
    using in_page_iff [OF assms(2)] assms(3) by (intro load32_page_cong [OF assms(1,4)]) (auto simp: memset_page)
  finally show ?thesis using False by simp
qed

lemma memset_zero_word:
  assumes "p mod PGSIZE = 0" "unat w < 1024"
  shows "load32 (memset p 0 PGSIZE m) (p + 4 * w) = 0"
proof -
  have "memset p 0 PGSIZE m a = 0" if "PGROUNDDOWN a = p" for a
    using in_page_iff [OF assms(1), of a] that by (simp add: memset_page)
  then have "load32 (memset p 0 PGSIZE m) (p + 4 * w) = load32 (\<lambda>_. 0) (p + 4 * w)"
    by (intro word_page(1) [OF assms(2,1)]) auto
  then show ?thesis by (simp add: load32_def u32_of_bytes_def)
qed

lemma pt_inv_kalloc:
  assumes s: "pt_inv d s"
  obtains "free_pages s = {}" "kalloc s = (0, s)"
  | p t where "kalloc s = (p, t)" "p \<noteq> 0" "p \<in> free_pages s" "free_pages t = free_pages s - {p}" "kmem_mem t = kmem_mem s"
      "kend t = kend s" "pt_inv d t" "page_ok p t" "p \<noteq> d" "p \<notin> tables (kmem_mem s) d"
proof -
  have k: "kmem_inv s" using s by (simp add: pt_inv_def)
  show ?thesis
  proof (cases "free_pages s = {}")
    case True
    then show ?thesis using kalloc_spec [OF k] that(1) by auto
  next
    case False
    then obtain p t where t: "kalloc s = (p, t)" "p \<noteq> 0" "page_ok p s" "p \<in> free_pages s" "kmem_inv t" "free_pages t = free_pages s - {p}"
      "kmem_mem t = kmem_mem s" "kend t = kend s" using kalloc_spec [OF k] by blast
    have "pt_inv d t" "page_ok p t" "p \<noteq> d" "p \<notin> tables (kmem_mem s) d"
      using s t by (auto simp: pt_inv_def page_ok_def)
    then show ?thesis using that(2) t by blast
  qed
qed

lemma tables_image: "tables m d = (\<lambda>i. table (pde m d i)) ` {i. i < 1024 \<and> present (pde m d i)}"
  by (auto simp: tables_def)

text \<open>A new page as the table of an entry that had none.\<close>

lemma add_table_tables:
  fixes d va p m
  defines "m' \<equiv> add_table d va p m" and "I \<equiv> \<lambda>m. {i. i < 1024 \<and> present (pde m d i)}"
  assumes d: "d mod PGSIZE = 0" and p: "p mod PGSIZE = 0" "p \<noteq> d" "p \<notin> tables m d"
    and i: "\<not> present (pde m d (unat (PDX va)))" and al: "\<forall>q\<in>tables m d. q mod PGSIZE = 0 \<and> q \<noteq> d"
  shows "tables m' d = insert p (tables m d)"
    "inj_on (\<lambda>i. table (pde m d i)) (I m) \<Longrightarrow> inj_on (\<lambda>i. table (pde m' d i)) (I m')"
    "pte_of m' d va' = pte_of m d va'"
proof -
  let ?i = "unat (PDX va)"
  note b = index_bounds [of va] index_bounds [of va']
  note te = table_entry [OF p(1)]
  have e: "pde m' d j = (if j = ?i then table_entry p else pde m d j)" if "j < 1024" for j
    unfolding m'_def by (rule add_table_pde [OF d p(1,2) that])
  have tI: "tables m d = (\<lambda>i. table (pde m d i)) ` I m" for m by (simp add: tables_image I_def)
  have I: "I m' = insert ?i (I m)" using b te by (auto simp: I_def e)
  have ei: "table (pde m' d ?i) = p" using e b te by simp
  have im: "table (pde m' d j) = table (pde m d j)" if "j \<in> I m" for j
    using that i e [of j] by (auto simp: I_def)
  have t: "(\<lambda>i. table (pde m' d i)) ` I m = tables m d"
    unfolding tI by (rule image_cong) (auto simp: im)
  show "tables m' d = insert p (tables m d)"
    unfolding tI [of m'] I image_insert t ei ..
  show "inj_on (\<lambda>i. table (pde m' d i)) (I m')" if inj: "inj_on (\<lambda>i. table (pde m d i)) (I m)"
  proof -
    have "inj_on (\<lambda>i. table (pde m' d i)) (I m)" using inj_on_cong [of "I m"] im inj by metis
    then show ?thesis unfolding I inj_on_insert ei using t p(3) by auto
  qed
  show "pte_of m' d va' = pte_of m d va'"
  proof (cases "PDX va' = PDX va")
    case True
    have "load32 m' (p + 4 * PTX va') = load32 (memset p 0 PGSIZE m) (p + 4 * PTX va')"
      unfolding m'_def add_table_def using p(2) word_page(2) [OF b(1) d] by (intro word_page(1) [OF b(4) p(1)]) auto
    then show ?thesis using True i te e b memset_zero_word [OF p(1) b(4)] by (simp add: pte_of_def Let_def)
  next
    case False
    let ?j = "unat (PDX va')"
    have j: "pde m' d ?j = pde m d ?j" using e b False by (auto simp: word_unat_eq_iff)
    have "load32 m' (table (pde m d ?j) + 4 * PTX va') = load32 m (table (pde m d ?j) + 4 * PTX va')" if "present (pde m d ?j)"
    proof -
      let ?q = "table (pde m d ?j)"
      have "?q \<in> tables m d" using tables_I b that by blast
      then have "?q mod PGSIZE = 0" "?q \<noteq> d" "?q \<noteq> p" using al p(3) by auto
      then show ?thesis unfolding m'_def using add_table_frame [OF d p(1)] b by (intro word_page(1)) auto
    qed
    then show ?thesis using j by (simp add: pte_of_def Let_def)
  qed
qed

lemma add_table_pt:
  fixes d va s p
  defines "m \<equiv> add_table d va p (kmem_mem s)"
  assumes s: "pt_inv d s" and i: "\<not> present (pde (kmem_mem s) d (unat (PDX va)))"
    and p: "page_ok p s" "p \<noteq> d" "p \<notin> free_pages s" "p \<notin> tables (kmem_mem s) d"
  shows "pt_inv d (s\<lparr>kmem_mem := m\<rparr>)" "free_pages (s\<lparr>kmem_mem := m\<rparr>) = free_pages s"
    "tables m d = insert p (tables (kmem_mem s) d)" "pte_of m d va' = pte_of (kmem_mem s) d va'"
    "pde m d (unat (PDX va)) = table_entry p"
proof -
  have d: "d mod PGSIZE = 0" "d \<notin> free_pages s" using s by (auto simp: pt_inv_def dest: page_aligned)
  note pa = page_aligned [OF p(1)]
  have al: "\<forall>q\<in>tables (kmem_mem s) d. q mod PGSIZE = 0 \<and> q \<noteq> d"
    using s by (auto simp: pt_inv_def dest: page_aligned)
  note at = add_table_tables [OF d(1) pa p(2,4) i al, folded m_def]
  show "pde m d (unat (PDX va)) = table_entry p"
    unfolding m_def using add_table_pde [OF d(1) pa p(2) index_bounds(1)] by simp
  show "tables m d = insert p (tables (kmem_mem s) d)" "pte_of m d va' = pte_of (kmem_mem s) d va'"
    by (rule at)+
  have mf: "m a = kmem_mem s a" if "PGROUNDDOWN a \<in> free_pages s" for a
    unfolding m_def using add_table_frame [OF d(1) pa] that d(2) p(3) by metis
  have k: "kmem_inv (s\<lparr>kmem_mem := m\<rparr>)" and f: "free_pages (s\<lparr>kmem_mem := m\<rparr>) = free_pages s"
    using kmem_frame [of s m, OF _ mf] s by (auto simp: pt_inv_def)
  show "free_pages (s\<lparr>kmem_mem := m\<rparr>) = free_pages s" by (rule f)
  show "pt_inv d (s\<lparr>kmem_mem := m\<rparr>)" using s p k at(2) by (simp add: pt_inv_def at(1) f page_ok_def)
qed

lemma entry_nonzero: "page_ok q s \<Longrightarrow> q + 4 * PTX va \<noteq> 0"
  using PGROUNDDOWN_page [of q 0] word_page(2) [OF index_bounds(2) page_aligned, of q s 0 va 1 "\<lambda>_. 0"]
  by (auto simp: page_ok_def store32_def PGROUNDDOWN_def)

text \<open>
  \<open>walkpgdir\<close> with \<open>alloc\<close> fails only when there is no free page, and otherwise gives the address of the
  entry, without changing any translation.
\<close>

lemma walkpgdir_alloc:
  assumes s: "pt_inv d s"
  obtains "free_pages s = {}" "\<not> present (pde (kmem_mem s) d (unat (PDX va)))" "walkpgdir d va True s = (0, s)"
  | t q where "walkpgdir d va True s = (q + 4 * PTX va, t)" "q + 4 * PTX va \<noteq> 0" "pt_inv d t" "kend t = kend s"
      "present (pde (kmem_mem t) d (unat (PDX va)))" "q = table (pde (kmem_mem t) d (unat (PDX va)))"
      "\<And>va'. pte_of (kmem_mem t) d va' = pte_of (kmem_mem s) d va'"
      "\<And>a. PGROUNDDOWN a \<notin> insert d (free_pages s) \<Longrightarrow> kmem_mem t a = kmem_mem s a"
      "free_pages t \<subseteq> free_pages s" "tables (kmem_mem t) d \<union> free_pages t = tables (kmem_mem s) d \<union> free_pages s"
      "q \<in> tables (kmem_mem t) d" "card (free_pages s) \<le> Suc (card (free_pages t))"
proof (cases "present (pde (kmem_mem s) d (unat (PDX va)))")
  case True
  define q where "q = table (pde (kmem_mem s) d (unat (PDX va)))"
  have q: "q \<in> tables (kmem_mem s) d" unfolding q_def by (rule tables_I [OF index_bounds(1) True])
  then have "page_ok q s" using s by (auto simp: pt_inv_def)
  then have "q + 4 * PTX va \<noteq> 0" by (rule entry_nonzero)
  moreover have "walkpgdir d va True s = (q + 4 * PTX va, s)"
    using True by (simp add: walkpgdir_def q_def table_def pde_def present_def Let_def)
  ultimately show thesis using that(2) [of q s] True q s by (simp add: q_def)
next
  case False
  from s show thesis
  proof (cases rule: pt_inv_kalloc)
    case 1
    then have "walkpgdir d va True s = (0, s)" using False by (simp add: walkpgdir_def pde_def present_def Let_def)
    then show ?thesis using that(1) False 1 by blast
  next
    case (2 p t)
    define m where "m = add_table d va p (kmem_mem t)"
    have f: "\<not> present (pde (kmem_mem t) d (unat (PDX va)))" "p \<notin> free_pages t" "p \<notin> tables (kmem_mem t) d"
      using False 2 by auto
    note at = add_table_pt [OF 2(7) f(1) 2(8,9) f(2,3), folded m_def]
    note te = table_entry [OF page_aligned [OF 2(8)]]
    have w: "walkpgdir d va True s = (p + 4 * PTX va, t\<lparr>kmem_mem := m\<rparr>)"
      using False 2(1,2) by (simp add: walkpgdir_def pde_def present_def m_def add_table_def table_entry_def Let_def)
    have d: "d mod PGSIZE = 0" using s by (auto simp: pt_inv_def dest: page_aligned)
    have "m a = kmem_mem s a" if "PGROUNDDOWN a \<notin> insert d (free_pages s)" for a
      unfolding m_def using add_table_frame [OF d page_aligned [OF 2(8)]] that 2(3,5) by auto
    then have fr: "kmem_mem (t\<lparr>kmem_mem := m\<rparr>) a = kmem_mem s a" if "PGROUNDDOWN a \<notin> insert d (free_pages s)" for a
      using that by simp
    have "finite (free_pages s)" using s by (auto simp: pt_inv_def kmem_inv_def free_pages_eq)
    then have c: "card (free_pages s) \<le> Suc (card (free_pages (t\<lparr>kmem_mem := m\<rparr>)))"
      using 2(3,4) by (simp add: at(2) card_Diff_singleton)
    show ?thesis
    proof (rule that(2) [OF w entry_nonzero [OF 2(8)] at(1) _ _ _ _ fr _ _ _ c])
    qed (use 2(3-6) in \<open>simp_all add: at te, blast?\<close>)
  qed
qed

section \<open>Mapping a range of pages\<close>

text \<open>
  \<open>pt_frame d s t\<close>: from \<open>s\<close> to \<open>t\<close> the address space of \<open>d\<close> stays well formed, and only memory of the
  directory, its tables and free pages changed.
\<close>

definition pt_frame :: "u32 \<Rightarrow> 'a kmem_scheme \<Rightarrow> 'a kmem_scheme \<Rightarrow> bool" where
  "pt_frame d s t \<longleftrightarrow> pt_inv d t \<and> kend t = kend s \<and> free_pages t \<subseteq> free_pages s \<and>
     tables (kmem_mem t) d \<union> free_pages t = tables (kmem_mem s) d \<union> free_pages s \<and>
     (\<forall>a. PGROUNDDOWN a \<notin> insert d (tables (kmem_mem s) d \<union> free_pages s) \<longrightarrow> kmem_mem t a = kmem_mem s a)"

lemma pt_frame_refl: "pt_inv d s \<Longrightarrow> pt_frame d s s"
  by (simp add: pt_frame_def)

lemma pt_frame_trans: "pt_frame d s t \<Longrightarrow> pt_frame d t u \<Longrightarrow> pt_frame d s u"
  unfolding pt_frame_def by (elim conjE) (intro conjI allI impI, simp_all)

text \<open>One round of the loop of \<open>mappages\<close>.\<close>

definition map_one :: "u32 \<Rightarrow> u32 \<Rightarrow> u32 \<Rightarrow> u32 \<Rightarrow> 'a kmem_scheme \<Rightarrow> (int \<times> 'a kmem_scheme) outcome" where
  "map_one d a pa perm s = mappages_loop 0 d a pa perm s"

lemma mappages_loop_Suc:
  "mappages_loop (Suc k) d a pa perm s =
     obind (map_one d a pa perm s) (\<lambda>(r, s). if r = 0 then mappages_loop k d (a + PGSIZE) (pa + PGSIZE) perm s else Done (r, s))"
  by (auto simp: map_one_def split: prod.splits)

lemma pte_of_entry:
  "present (pde m d (unat (PDX va))) \<Longrightarrow> load32 m (table (pde m d (unat (PDX va))) + 4 * PTX va) = pte_of m d va"
  by (simp add: pte_of_def Let_def)

lemma map_one_spec:
  assumes s: "pt_inv d s" and n: "\<not> present (pte_of (kmem_mem s) d a)"
  obtains "map_one d a pa perm s = Done (-1, s)" "free_pages s = {}" "\<not> present (pde (kmem_mem s) d (unat (PDX a)))"
  | t where "map_one d a pa perm s = Done (0, t)" "pt_frame d s t" "card (free_pages s) \<le> Suc (card (free_pages t))"
      "\<And>va. pte_of (kmem_mem t) d va =
         (if PGROUNDDOWN va = PGROUNDDOWN a then pa OR perm OR PTE_P else pte_of (kmem_mem s) d va)"
  using s
proof (cases rule: walkpgdir_alloc [where va = a])
  case 1
  then have "map_one d a pa perm s = Done (-1, s)" by (simp add: map_one_def)
  then show ?thesis using that(1) 1 by blast
next
  case (2 t q)
  note p = pte_of_entry [OF 2(5), folded 2(6)]
  define m where "m = store32 (q + 4 * PTX a) (pa OR perm OR PTE_P) (kmem_mem t)"
  note sp = set_pte [OF 2(3,5), where e = "pa OR perm OR PTE_P", folded 2(6), folded m_def]
  have r: "map_one d a pa perm s = Done (0, t\<lparr>kmem_mem := m\<rparr>)"
    using 2(1,2,7) n p by (simp add: map_one_def m_def present_def)
  have f: "m x = kmem_mem s x" if x: "PGROUNDDOWN x \<notin> insert d (tables (kmem_mem s) d \<union> free_pages s)" for x
  proof -
    have "PGROUNDDOWN x \<noteq> q" using 2(10,11) x by auto
    then show ?thesis using sp(5) 2(8) x by auto
  qed
  have "pt_frame d s (t\<lparr>kmem_mem := m\<rparr>)"
    unfolding pt_frame_def using sp(1-3) 2(4,9,10) f by simp
  then show ?thesis using that(2) [OF r] 2(7,12) sp(2,4) by simp
qed

text \<open>Page \<open>va\<close> is among the \<open>Suc k\<close> pages from \<open>a\<close> on.\<close>

definition page_in :: "u32 \<Rightarrow> nat \<Rightarrow> u32 \<Rightarrow> bool" where
  "page_in a k va \<longleftrightarrow> unat (PGROUNDDOWN va - a) \<le> 4096 * k"

lemma page_in_0: "a mod PGSIZE = 0 \<Longrightarrow> page_in a 0 va \<longleftrightarrow> PGROUNDDOWN va = a"
  by (auto simp: page_in_def unat_eq_0)

lemma page_in_Suc:
  assumes "a mod PGSIZE = 0" "4096 * Suc k < 2 ^ 32"
  shows "page_in a (Suc k) va \<longleftrightarrow> PGROUNDDOWN va = a \<or> page_in (a + PGSIZE) k va"
    "page_in (a + PGSIZE) k va \<Longrightarrow> PGROUNDDOWN va \<noteq> a"
proof -
  let ?x = "PGROUNDDOWN va - a"
  have e: "PGROUNDDOWN va - (a + PGSIZE) = ?x - PGSIZE" by simp
  obtain j where j: "unat ?x = 4096 * j" using aligned_diff [OF aligned_PGROUNDDOWN assms(1), of va] by (auto elim: dvdE)
  have z: "unat ?x = 0 \<longleftrightarrow> PGROUNDDOWN va = a" by (simp add: unat_eq_0)
  have n: "unat (?x - PGSIZE) = unat ?x - 4096" if "PGROUNDDOWN va \<noteq> a"
  proof -
    have "4096 \<le> unat ?x" using that z j by (cases j) auto
    then have "PGSIZE \<le> ?x" by (simp add: word_le_nat_alt PGSIZE_def)
    then show ?thesis using unat_sub [of PGSIZE ?x] by (simp add: PGSIZE_def)
  qed
  show "page_in (a + PGSIZE) k va \<Longrightarrow> PGROUNDDOWN va \<noteq> a"
    using assms(2) by (auto simp: page_in_def PGSIZE_def)
  then show "page_in a (Suc k) va \<longleftrightarrow> PGROUNDDOWN va = a \<or> page_in (a + PGSIZE) k va"
    using n z unfolding page_in_def e by (cases "PGROUNDDOWN va = a") auto
qed

lemma aligned_next:
  assumes "a mod PGSIZE = 0"
  shows "(a + PGSIZE) mod PGSIZE = 0"
proof -
  have "- PGSIZE mod PGSIZE = 0" by (simp add: PGSIZE_def)
  from aligned_diff [OF assms this] show ?thesis unfolding aligned_unat by simp
qed

lemma mappages_loop_spec:
  assumes "pt_inv d s" "a mod PGSIZE = 0" "4096 * k < 2 ^ 32" "\<And>va. page_in a k va \<Longrightarrow> \<not> present (pte_of (kmem_mem s) d va)"
  shows "\<exists>r t. mappages_loop k d a pa perm s = Done (r, t) \<and> pt_frame d s t \<and> card (free_pages s) \<le> Suc k + card (free_pages t) \<and>
    (r = -1 \<and> free_pages t = {} \<and> card (free_pages s) \<le> k \<or>
     r = 0 \<and> (\<forall>va. pte_of (kmem_mem t) d va =
       (if page_in a k va then (pa + (PGROUNDDOWN va - a)) OR perm OR PTE_P else pte_of (kmem_mem s) d va)))"
  using assms
proof (induction k arbitrary: a pa s)
  case 0
  have n: "\<not> present (pte_of (kmem_mem s) d a)" using 0(4) [of a] 0(2) PGROUNDDOWN_page [of a 0] by (simp add: page_in_0)
  have a: "PGROUNDDOWN a = a" using 0(2) PGROUNDDOWN_page [of a 0] by simp
  from map_one_spec [OF 0(1) n, of pa perm] show ?case
  proof cases
    case 1
    then show ?thesis using pt_frame_refl [OF 0(1)] by (simp add: map_one_def)
  next
    case (2 t)
    then show ?thesis using a page_in_0 [OF 0(2)] by (auto simp: map_one_def)
  qed
next
  case (Suc k)
  note in_Suc = page_in_Suc [OF Suc.prems(2,3)]
  have a: "PGROUNDDOWN a = a" using Suc.prems(2) PGROUNDDOWN_page [of a 0] by simp
  have n: "\<not> present (pte_of (kmem_mem s) d a)" using Suc.prems(4) [of a] by (simp add: in_Suc a)
  from map_one_spec [OF Suc.prems(1) n, of pa perm] show ?case
  proof cases
    case 1
    then show ?thesis unfolding mappages_loop_Suc using pt_frame_refl [OF Suc.prems(1)] by simp
  next
    case (2 t)
    have p: "\<not> present (pte_of (kmem_mem t) d va)" if "page_in (a + PGSIZE) k va" for va
      using 2(4) [of va] Suc.prems(4) [of va] that in_Suc a by auto
    have "pt_inv d t" "4096 * k < 2 ^ 32" using 2(2) Suc.prems(3) by (simp_all add: pt_frame_def)
    from Suc.IH [OF this(1) aligned_next [OF Suc.prems(2)] this(2) p, of "pa + PGSIZE"]
    obtain r u where u: "mappages_loop k d (a + PGSIZE) (pa + PGSIZE) perm t = Done (r, u)" "pt_frame d t u"
      "card (free_pages t) \<le> Suc k + card (free_pages u)"
      "r = -1 \<and> free_pages u = {} \<and> card (free_pages t) \<le> k \<or>
       r = 0 \<and> (\<forall>va. pte_of (kmem_mem u) d va = (if page_in (a + PGSIZE) k va
         then (pa + PGSIZE + (PGROUNDDOWN va - (a + PGSIZE))) OR perm OR PTE_P else pte_of (kmem_mem t) d va))" by auto
    have l: "mappages_loop (Suc k) d a pa perm s = Done (r, u)" unfolding mappages_loop_Suc using 2(1) u(1) by simp
    have "pte_of (kmem_mem u) d va = (if page_in a (Suc k) va then (pa + (PGROUNDDOWN va - a)) OR perm OR PTE_P else pte_of (kmem_mem s) d va)"
      if "r = 0" for va using u(4) 2(4) [of va] a in_Suc(1) [of va] in_Suc(2) [of va] that by auto
    then show ?thesis using l pt_frame_trans [OF 2(2) u(2)] 2(3) u(3,4) by auto
  qed
qed

end
