(* ===== verification/Vm_Props.thy ===== *)
theory Vm_Props
  imports Vm_Spec
begin

text \<open>
  Growing a user address space, \<open>kern/vm.c\<close>: what \<open>mappages\<close> and \<open>allocuvm\<close> do to the page table, to the
  pages they hand out and to the rest of memory.
\<close>

section \<open>New pages of a process\<close>

text \<open>\<open>uvm_in a b va\<close>: the page of \<open>va\<close> starts in the range from \<open>a\<close> to below \<open>b\<close>.\<close>

definition uvm_in :: "nat \<Rightarrow> nat \<Rightarrow> u32 \<Rightarrow> bool" where
  "uvm_in a b va \<longleftrightarrow> a \<le> unat (PGROUNDDOWN va) \<and> unat (PGROUNDDOWN va) < b"

text \<open>
  From \<open>s\<close> to \<open>t\<close>, \<open>va\<close> got a page of its own: user accessible and writable, free before, no longer free,
  not part of the page table, and cleared.
\<close>

definition frame_of :: "mem \<Rightarrow> u32 \<Rightarrow> u32 \<Rightarrow> u32" where
  "frame_of m d va = p2v (PTE_ADDR (pte_of m d va))"

definition new_page :: "u32 \<Rightarrow> 'a kmem_scheme \<Rightarrow> 'a kmem_scheme \<Rightarrow> u32 \<Rightarrow> bool" where
  "new_page d s t va \<longleftrightarrow>
     PTE_FLAGS (pte_of (kmem_mem t) d va) = PTE_P OR PTE_W OR PTE_U \<and>
     frame_of (kmem_mem t) d va \<in> free_pages s \<and>
     frame_of (kmem_mem t) d va \<notin> insert d (tables (kmem_mem t) d \<union> free_pages t) \<and>
     (\<forall>x. PGROUNDDOWN x = frame_of (kmem_mem t) d va \<longrightarrow> kmem_mem t x = 0)"

text \<open>\<open>uvm_frame d s t\<close>: as \<open>pt_frame\<close>, but free pages may also have become pages of the process.\<close>

definition uvm_frame :: "u32 \<Rightarrow> 'a kmem_scheme \<Rightarrow> 'a kmem_scheme \<Rightarrow> bool" where
  "uvm_frame d s t \<longleftrightarrow> pt_inv d t \<and> kend t = kend s \<and> free_pages t \<subseteq> free_pages s \<and>
     tables (kmem_mem t) d \<union> free_pages t \<subseteq> tables (kmem_mem s) d \<union> free_pages s \<and>
     (\<forall>a. PGROUNDDOWN a \<notin> insert d (tables (kmem_mem s) d \<union> free_pages s) \<longrightarrow> kmem_mem t a = kmem_mem s a)"

lemma uvm_frame_refl: "pt_inv d s \<Longrightarrow> uvm_frame d s s"
  by (simp add: uvm_frame_def)

lemma uvm_frame_trans:
  assumes s: "uvm_frame d s t" and t: "uvm_frame d t u"
  shows "uvm_frame d s u"
proof -
  have sub: "tables (kmem_mem t) d \<union> free_pages t \<subseteq> tables (kmem_mem s) d \<union> free_pages s" using s by (simp add: uvm_frame_def)
  have "kmem_mem u a = kmem_mem s a" if a: "PGROUNDDOWN a \<notin> insert d (tables (kmem_mem s) d \<union> free_pages s)" for a
  proof -
    have "PGROUNDDOWN a \<notin> insert d (tables (kmem_mem t) d \<union> free_pages t)" using a sub by blast
    then show ?thesis using s t a by (simp add: uvm_frame_def)
  qed
  moreover have "free_pages u \<subseteq> free_pages s" using s t unfolding uvm_frame_def by (meson subset_trans)
  moreover have "tables (kmem_mem u) d \<union> free_pages u \<subseteq> tables (kmem_mem s) d \<union> free_pages s"
    using t sub unfolding uvm_frame_def by (meson subset_trans)
  ultimately show ?thesis using s t by (simp add: uvm_frame_def)
qed

lemma pt_frame_uvm: "pt_frame d s t \<Longrightarrow> uvm_frame d s t"
  by (auto simp: pt_frame_def uvm_frame_def)

lemma mappages_page: "a mod PGSIZE = 0 \<Longrightarrow> mappages d a PGSIZE pa perm s = map_one d a pa perm s"
proof -
  assume a: "a mod PGSIZE = 0"
  have e: "a + PGSIZE - 1 = a + 4095" by (simp add: PGSIZE_def)
  have "PGROUNDDOWN (a + 4095) = a" "PGROUNDDOWN a = a" using PGROUNDDOWN_page [OF a, of 4095] PGROUNDDOWN_page [OF a, of 0] by simp_all
  then show ?thesis unfolding mappages_def map_one_def Let_def e by simp
qed

text \<open>The rounds of \<open>allocuvm\<close>: a page is taken, cleared and mapped.\<close>

definition user_entry :: "u32 \<Rightarrow> u32" where
  "user_entry p = v2p p OR (PTE_W OR PTE_U) OR PTE_P"

lemma user_entry:
  assumes "p mod PGSIZE = 0"
  shows "PTE_FLAGS (user_entry p) = PTE_P OR PTE_W OR PTE_U" "p2v (PTE_ADDR (user_entry p)) = p" "present (user_entry p)"
proof -
  have e: "user_entry p = v2p p OR 7" by (simp add: user_entry_def layout_defs or.assoc)
  have a: "PTE_ADDR (v2p p) = v2p p" using PTE_ADDR_flags [OF v2p_aligned [OF assms], of 0] by simp
  have "v2p p AND 0xFFF = (v2p p AND NOT 0xFFF) AND 0xFFF" using a by (simp add: PTE_ADDR_def)
  then have "v2p p AND 0xFFF = 0" by (simp only: and.assoc) simp
  then show "PTE_FLAGS (user_entry p) = PTE_P OR PTE_W OR PTE_U"
    unfolding e PTE_FLAGS_def by (simp add: bit.conj_disj_distrib2 layout_defs)
  show "p2v (PTE_ADDR (user_entry p)) = p" unfolding e using PTE_ADDR_flags [OF v2p_aligned [OF assms], of 7] by simp
  show "present (user_entry p)" unfolding e by (rule present_flags) (simp add: present_def PTE_P_def)
qed

lemma alloc_page:
  assumes s: "pt_inv d s" and n: "2 \<le> card (free_pages s)" and a: "a mod PGSIZE = 0" "\<not> present (pte_of (kmem_mem s) d a)"
  obtains p s' t where "kalloc s = (p, s')" "p \<noteq> 0"
    "mappages d a PGSIZE (v2p p) (PTE_W OR PTE_U) (s'\<lparr>kmem_mem := memset p 0 PGSIZE (kmem_mem s')\<rparr>) = Done (0, t)"
    "uvm_frame d s t" "card (free_pages s) \<le> 2 + card (free_pages t)" "new_page d s t a"
    "\<And>va. PGROUNDDOWN va \<noteq> a \<Longrightarrow> pte_of (kmem_mem t) d va = pte_of (kmem_mem s) d va"
  using s
proof (cases rule: pt_inv_kalloc)
  case 1
  then show ?thesis using n by simp
next
  case (2 p s')
  define m where "m = memset p 0 PGSIZE (kmem_mem s')"
  define u where "u = s'\<lparr>kmem_mem := m\<rparr>"
  note pa = page_aligned [OF 2(8)]
  have ra: "PGROUNDDOWN a = a" using PGROUNDDOWN_page [OF a(1), of 0] by simp
  have m: "m x = (if PGROUNDDOWN x = p then 0 else kmem_mem s x)" for x
    unfolding m_def using in_page_iff [OF pa, of x] 2(5) by (simp add: memset_page)
  have pf: "p \<notin> free_pages s'" using 2(4) by simp
  have mf: "m x = kmem_mem s' x" if "PGROUNDDOWN x = d \<or> PGROUNDDOWN x \<in> tables (kmem_mem s') d \<or> PGROUNDDOWN x \<in> free_pages s'" for x
    using m [of x] that 2(5,9,10) pf by auto
  have fr: "pt_inv d u" "tables m d = tables (kmem_mem s') d" "\<And>va. pte_of m d va = pte_of (kmem_mem s') d va"
    unfolding u_def by (rule pt_inv_frame [OF 2(7)], erule mf)+
  have uf: "free_pages u = free_pages s - {p}" unfolding u_def using kmem_frame [of s' m] 2(4,7) mf by (simp add: pt_inv_def)
  have um: "kmem_mem u = m" by (simp add: u_def)
  have n': "\<not> present (pte_of (kmem_mem u) d a)" using fr(3) a(2) 2(5) by (simp add: um)
  have fin: "finite (free_pages s)" using s by (auto simp: pt_inv_def kmem_inv_def free_pages_eq)
  have c: "card (free_pages s) = Suc (card (free_pages u))" unfolding uf by (rule card_Suc_Diff1 [OF fin 2(3), symmetric])
  from map_one_spec [OF fr(1) n', of "v2p p" "PTE_W OR PTE_U", folded mappages_page [OF a(1)]] show ?thesis
  proof cases
    case 1
    then show ?thesis using c n by simp
  next
    case t: (2 t)
    have pt: "pte_of (kmem_mem t) d a = user_entry p" using t(4) [of a] by (simp add: user_entry_def)
    then have fa: "frame_of (kmem_mem t) d a = p" using user_entry(2) [OF pa] by (simp add: frame_of_def)
    have tb: "tables m d = tables (kmem_mem s) d" using fr(2) 2(5) by simp
    have tm: "kmem_mem t x = m x" if "PGROUNDDOWN x \<notin> insert d (tables m d \<union> free_pages u)" for x
      using t(2) that by (simp add: pt_frame_def um)
    have pn: "p \<notin> insert d (tables (kmem_mem t) d \<union> free_pages t)"
      using t(2) 2(9,10) tb by (simp add: pt_frame_def um uf)
    have "kmem_mem t x = 0" if "PGROUNDDOWN x = p" for x
      using tm [of x] m [of x] that 2(9,10) by (simp add: tb uf)
    then have np: "new_page d s t a"
      unfolding new_page_def fa pt using user_entry(1) [OF pa] 2(3) pn by simp
    have "uvm_frame d s u" unfolding uvm_frame_def using fr(1) 2(3,6) m by (auto simp: u_def um tb uf [unfolded u_def])
    then have f: "uvm_frame d s t" using uvm_frame_trans pt_frame_uvm [OF t(2)] by blast
    have "pte_of (kmem_mem t) d va = pte_of (kmem_mem s) d va" if "PGROUNDDOWN va \<noteq> a" for va
      using t(4) [of va] fr(3) [of va] ra that 2(5) by (simp add: um)
    then show ?thesis using that [OF 2(1,2) t(1) [unfolded u_def m_def] f _ np] c t(3) by simp
  qed
qed

lemma new_page_keep:
  assumes "new_page d s t a" "uvm_frame d t u" "pte_of (kmem_mem u) d a = pte_of (kmem_mem t) d a"
  shows "new_page d s u a"
proof -
  have f: "frame_of (kmem_mem u) d a = frame_of (kmem_mem t) d a" by (simp add: frame_of_def assms(3))
  let ?p = "frame_of (kmem_mem t) d a"
  have p: "?p \<notin> insert d (tables (kmem_mem t) d \<union> free_pages t)" using assms(1) by (simp add: new_page_def)
  then have "?p \<notin> insert d (tables (kmem_mem u) d \<union> free_pages u)" using assms(2) unfolding uvm_frame_def by blast
  moreover have "kmem_mem u x = 0" if "PGROUNDDOWN x = ?p" for x
    using assms(1,2) that p by (simp add: new_page_def uvm_frame_def)
  ultimately show ?thesis using assms(1) by (simp add: new_page_def f assms(3))
qed

lemma new_page_later: "free_pages t \<subseteq> free_pages s \<Longrightarrow> new_page d t u va \<Longrightarrow> new_page d s u va"
  by (auto simp: new_page_def)

lemma uvm_in_step:
  assumes "4096 dvd a" "a < b" "a < 2 ^ 32"
  shows "uvm_in a b va \<longleftrightarrow> PGROUNDDOWN va = of_nat a \<or> uvm_in (a + 4096) b va" "\<not> uvm_in (a + 4096) b (of_nat a)"
    "PGROUNDDOWN (of_nat a) = of_nat a" "of_nat a mod PGSIZE = 0"
proof -
  have u: "unat (of_nat a :: u32) = a" using assms(3) by (simp add: unat_of_nat take_bit_nat_eq_self)
  show al: "of_nat a mod PGSIZE = 0" using assms(1) by (simp add: aligned_unat u)
  show r: "PGROUNDDOWN (of_nat a) = of_nat a" using PGROUNDDOWN_page [OF al, of 0] by simp
  show "\<not> uvm_in (a + 4096) b (of_nat a)" by (simp add: uvm_in_def r u)
  have e: "PGROUNDDOWN va = of_nat a \<longleftrightarrow> unat (PGROUNDDOWN va) = a" using u by (auto simp: word_unat_eq_iff)
  obtain j k where jk: "unat (PGROUNDDOWN va) = 4096 * j" "a = 4096 * k" using assms(1) by (auto simp: unat_PGROUNDDOWN elim!: dvdE)
  have "4096 * k \<le> 4096 * j \<longleftrightarrow> 4096 * j = 4096 * k \<or> 4096 * k + 4096 \<le> 4096 * j" by auto
  then have "a \<le> unat (PGROUNDDOWN va) \<longleftrightarrow> unat (PGROUNDDOWN va) = a \<or> a + 4096 \<le> unat (PGROUNDDOWN va)" using jk by metis
  then show "uvm_in a b va \<longleftrightarrow> PGROUNDDOWN va = of_nat a \<or> uvm_in (a + 4096) b va"
    unfolding uvm_in_def e using assms(2) by auto
qed

lemma pte_of_page: "pte_of m d (PGROUNDDOWN va) = pte_of m d va"
  using same_page_index [of "PGROUNDDOWN va" va] PGROUNDDOWN_page [OF aligned_PGROUNDDOWN, of 0 va]
  by (simp add: pte_of_def Let_def)

text \<open>What growing an address space from \<open>a\<close> to below \<open>b\<close> has done.\<close>

definition uvm_grown :: "u32 \<Rightarrow> nat \<Rightarrow> nat \<Rightarrow> 'a kmem_scheme \<Rightarrow> 'a kmem_scheme \<Rightarrow> bool" where
  "uvm_grown d a b s t \<longleftrightarrow> uvm_frame d s t \<and> (\<forall>va. uvm_in a b va \<longrightarrow> new_page d s t va) \<and>
     (\<forall>va. \<not> uvm_in a b va \<longrightarrow> pte_of (kmem_mem t) d va = pte_of (kmem_mem s) d va) \<and>
     (\<forall>va va'. uvm_in a b va \<longrightarrow> uvm_in a b va' \<longrightarrow>
        frame_of (kmem_mem t) d va = frame_of (kmem_mem t) d va' \<longrightarrow> PGROUNDDOWN va = PGROUNDDOWN va')"

lemma uvm_grown_none: "pt_inv d s \<Longrightarrow> b \<le> a \<Longrightarrow> uvm_grown d a b s s"
  by (auto simp: uvm_grown_def uvm_in_def uvm_frame_refl)

lemma uvm_grown_step:
  assumes a: "4096 dvd a" "a < b" "a < 2 ^ 32" and st: "uvm_frame d s t" and n: "new_page d s t (of_nat a)"
    and o: "\<And>va. PGROUNDDOWN va \<noteq> of_nat a \<Longrightarrow> pte_of (kmem_mem t) d va = pte_of (kmem_mem s) d va"
    and tu: "uvm_grown d (a + 4096) b t u"
  shows "uvm_grown d a b s u"
proof -
  note i = uvm_in_step [OF a]
  have tu': "uvm_frame d t u" "\<And>va. uvm_in (a + 4096) b va \<Longrightarrow> new_page d t u va"
    "\<And>va. \<not> uvm_in (a + 4096) b va \<Longrightarrow> pte_of (kmem_mem u) d va = pte_of (kmem_mem t) d va" using tu by (auto simp: uvm_grown_def)
  have na: "new_page d s u (of_nat a)" using new_page_keep [OF n tu'(1) tu'(3) [OF i(2)]] .
  have e: "pte_of (kmem_mem u) d va = pte_of (kmem_mem u) d (of_nat a)" if "PGROUNDDOWN va = of_nat a" for va
    using pte_of_page [of _ d va] that by simp
  have N: "new_page d s u va" if "uvm_in a b va" for va
  proof (cases "uvm_in (a + 4096) b va")
    case True
    then show ?thesis using new_page_later [OF _ tu'(2)] st by (simp add: uvm_frame_def)
  next
    case False
    then have "PGROUNDDOWN va = of_nat a" using that i(1) by blast
    then show ?thesis using na e [of va] by (simp add: new_page_def frame_of_def)
  qed
  have fa: "frame_of (kmem_mem u) d va \<notin> free_pages t" if "PGROUNDDOWN va = of_nat a" for va
    using n tu'(3) [OF i(2)] e [OF that] by (simp add: new_page_def frame_of_def)
  have fl: "frame_of (kmem_mem u) d va \<in> free_pages t" if "uvm_in (a + 4096) b va" for va
    using tu'(2) [OF that] by (simp add: new_page_def)
  have "PGROUNDDOWN va = PGROUNDDOWN va'"
    if "uvm_in a b va" "uvm_in a b va'" "frame_of (kmem_mem u) d va = frame_of (kmem_mem u) d va'" for va va'
    using that i(1) [of va] i(1) [of va'] fa fl tu unfolding uvm_grown_def by metis
  then show ?thesis unfolding uvm_grown_def using uvm_frame_trans [OF st tu'(1)] N tu'(3) o i(1) by auto
qed

lemma allocuvm_loop_grows:
  assumes "pt_inv d s" "4096 dvd a" "unat newsz \<le> a + 4096 * n" "2 * n \<le> card (free_pages s)"
    "\<And>va. uvm_in a (unat newsz) va \<Longrightarrow> \<not> present (pte_of (kmem_mem s) d va)"
  shows "\<exists>t. allocuvm_loop d a oldsz newsz s = Done (newsz, t) \<and> uvm_grown d a (unat newsz) s t"
  using assms
proof (induction n arbitrary: a s)
  case 0
  then show ?case using uvm_grown_none [of d s "unat newsz" a] by (simp add: allocuvm_loop.simps)
next
  case (Suc n)
  show ?case
  proof (cases "a < unat newsz")
    case False
    then show ?thesis using uvm_grown_none [OF Suc.prems(1), of "unat newsz" a] by (simp add: allocuvm_loop.simps)
  next
    case True
    then have a: "a < 2 ^ 32" using unat_less_32 [of newsz] by linarith
    note i = uvm_in_step [OF Suc.prems(2) True a]
    have np: "\<not> present (pte_of (kmem_mem s) d (of_nat a))" using Suc.prems(5) i by blast
    have two: "2 \<le> card (free_pages s)" using Suc.prems(4) by simp
    from alloc_page [OF Suc.prems(1) two i(4) np] obtain p s' t where t: "kalloc s = (p, s')" "p \<noteq> 0"
      "mappages d (of_nat a) PGSIZE (v2p p) (PTE_W OR PTE_U) (s'\<lparr>kmem_mem := memset p 0 PGSIZE (kmem_mem s')\<rparr>) = Done (0, t)"
      "uvm_frame d s t" "card (free_pages s) \<le> 2 + card (free_pages t)" "new_page d s t (of_nat a)"
      "\<And>va. PGROUNDDOWN va \<noteq> of_nat a \<Longrightarrow> pte_of (kmem_mem t) d va = pte_of (kmem_mem s) d va" by blast
    have "\<not> present (pte_of (kmem_mem t) d va)" if v: "uvm_in (a + 4096) (unat newsz) va" for va
    proof -
      have "PGROUNDDOWN va \<noteq> of_nat a" using v i(2,3) by (auto simp: uvm_in_def)
      then show ?thesis using t(7) Suc.prems(5) v i(1) by auto
    qed
    moreover have "pt_inv d t" using t(4) by (simp add: uvm_frame_def)
    ultimately obtain u where u: "allocuvm_loop d (a + 4096) oldsz newsz t = Done (newsz, u)" "uvm_grown d (a + 4096) (unat newsz) t u"
      using Suc.IH [of t "a + 4096"] Suc.prems(2-4) t(5) by (auto simp: dvd_add)
    have "allocuvm_loop d a oldsz newsz s = Done (newsz, u)"
      using True t(1-3) u(1) by (subst allocuvm_loop.simps) (simp add: Let_def)
    then show ?thesis using uvm_grown_step [OF Suc.prems(2) True a t(4,6,7) u(2)] by blast
  qed
qed

section \<open>A small address space\<close>

text \<open>An empty page directory above up to three free pages.\<close>

definition demo_pgdir :: u32 where
  "demo_pgdir = 0x80108000"

definition demo_uvm :: "u32 list \<Rightarrow> kmem" where
  "demo_uvm ps = foldr kfreed ps demo_kmem"

definition demo_pages :: "u32 list" where
  "demo_pages = [0x80107000, 0x80106000, 0x80105000]"

lemma kfreed_mem: "v mod PGSIZE = 0 \<Longrightarrow> PGROUNDDOWN a \<noteq> v \<Longrightarrow> kmem_mem (kfreed v s) a = kmem_mem s a"
  using store32_page_other [of v 0 a "freelist s" "memset v 1 PGSIZE (kmem_mem s)"] in_page_iff [of v a]
  by (simp add: kfreed_def memset_page)

lemma demo_uvm_free:
  assumes "set ps \<subseteq> set demo_pages" "distinct ps"
  shows "free_list (demo_uvm ps) ps \<and> (\<forall>p. page_ok p (demo_uvm ps) = page_ok p demo_kmem) \<and>
    (\<forall>a. PGROUNDDOWN a = demo_pgdir \<longrightarrow> kmem_mem (demo_uvm ps) a = 0)"
  using assms
proof (induction ps)
  case Nil
  then show ?case using demo_kmem_empty by (simp add: demo_uvm_def demo_kmem_def)
next
  case (Cons p ps)
  have e: "demo_uvm (p # ps) = kfreed p (demo_uvm ps)" by (simp add: demo_uvm_def)
  have "page_ok p demo_kmem" "p mod PGSIZE = 0" "p \<noteq> demo_pgdir"
    using Cons.prems demo_kmem_pages by (auto simp: demo_pages_def demo_pgdir_def PGSIZE_def)
  moreover from this have "\<forall>a. PGROUNDDOWN a = demo_pgdir \<longrightarrow> kmem_mem (kfreed p (demo_uvm ps)) a = 0"
    using Cons kfreed_mem [of p _ "demo_uvm ps"] by (metis distinct.simps(2) list.set_intros(2) subset_code(1))
  ultimately show ?case unfolding e using Cons kfreed_list [of "demo_uvm ps" ps p] by simp
qed

lemma demo_uvm_pages: "set ps \<subseteq> set demo_pages \<Longrightarrow> distinct ps \<Longrightarrow> free_pages (demo_uvm ps) = set ps"
  using demo_uvm_free [of ps] free_pages_eq by blast

lemma demo_uvm_pde:
  assumes "set ps \<subseteq> set demo_pages" "distinct ps" "i < 1024"
  shows "pde (kmem_mem (demo_uvm ps)) demo_pgdir i = 0"
proof -
  have "pde (kmem_mem (demo_uvm ps)) demo_pgdir i = pde (\<lambda>_. 0) demo_pgdir i"
    using demo_uvm_free [OF assms(1,2)] assms(3) by (intro pde_cong) (auto simp: demo_pgdir_def PGSIZE_def)
  then show ?thesis by (simp add: pde_def load32_def u32_of_bytes_def)
qed

lemma demo_uvm_pte:
  "set ps \<subseteq> set demo_pages \<Longrightarrow> distinct ps \<Longrightarrow> pte_of (kmem_mem (demo_uvm ps)) demo_pgdir va = 0"
  using demo_uvm_pde [OF _ _ index_bounds(1) [of va]] by (simp add: pte_of_def)

lemma demo_uvm_inv:
  assumes "set ps \<subseteq> set demo_pages" "distinct ps"
  shows "pt_inv demo_pgdir (demo_uvm ps)"
proof -
  have t: "{i. i < 1024 \<and> present (pde (kmem_mem (demo_uvm ps)) demo_pgdir i)} = {}" using demo_uvm_pde [OF assms] by auto
  have "page_ok demo_pgdir demo_kmem" by (simp add: page_ok_def demo_pgdir_def demo_kmem_def PGSIZE_def PHYSTOP_def v2p_def KERNBASE_def)
  then have "page_ok demo_pgdir (demo_uvm ps)" using demo_uvm_free [OF assms] by blast
  moreover have "kmem_inv (demo_uvm ps)" using demo_uvm_free [OF assms] by (auto simp: kmem_inv_def)
  moreover have "demo_pgdir \<notin> set ps" using assms(1) by (auto simp: demo_pages_def demo_pgdir_def)
  ultimately show ?thesis
    unfolding pt_inv_def tables_image t demo_uvm_pages [OF assms] by simp
qed

lemma demo_ok: "set demo_pages \<subseteq> set demo_pages" "distinct demo_pages"
  by (simp_all add: demo_pages_def)

lemma mappages_loop_remap:
  assumes "pt_inv d s" "present (pte_of (kmem_mem s) d a)"
  shows "mappages_loop k d a pa perm s = Panic ''remap''"
proof -
  let ?i = "unat (PDX a)"
  have p: "present (pde (kmem_mem s) d ?i)" using assms(2) by (auto simp: pte_of_def Let_def split: if_splits)
  then have q: "page_ok (table (pde (kmem_mem s) d ?i)) s"
    using assms(1) tables_I [OF index_bounds(1) p] by (auto simp: pt_inv_def)
  have "walkpgdir d a True s = (table (pde (kmem_mem s) d ?i) + 4 * PTX a, s)"
    using p by (simp add: walkpgdir_def table_def pde_def present_def Let_def)
  then show ?thesis using entry_nonzero [OF q, of a] assms(2) pte_of_entry [OF p] by (cases k) (simp_all add: present_def)
qed

section \<open>Properties\<close>

definition covers :: "u32 \<Rightarrow> u32 \<Rightarrow> u32 \<Rightarrow> bool" where
  "covers va sz x \<longleftrightarrow> PGROUNDDOWN x - PGROUNDDOWN va \<le> PGROUNDDOWN (va + sz - 1) - PGROUNDDOWN va"

text \<open>
  C19: \<open>mappages\<close> maps exactly the range it is given. If no page of the range is mapped, it either gives every page of
  the range its entry, the physical pages in order with the given permissions, and leaves every other
  translation as it was; or it returns -1, and then there were fewer free pages than pages to map. In both
  cases the page table stays well formed, with a page of its own for the directory and each table, and only
  memory of the directory, its tables and formerly free pages changes. A first page that is already mapped
  is a panic.
\<close>

theorem mappages_maps:
  assumes s: "pt_inv d s"
  shows "((\<forall>x. covers va sz x \<longrightarrow> \<not> present (pte_of (kmem_mem s) d x)) \<longrightarrow>
      (\<exists>r t. mappages d va sz pa perm s = Done (r, t) \<and> pt_frame d s t \<and>
        (r = -1 \<and> card (free_pages s) \<le> unat (PGROUNDDOWN (va + sz - 1) - PGROUNDDOWN va) div 4096 \<or>
         r = 0 \<and> (\<forall>x. pte_of (kmem_mem t) d x =
           (if covers va sz x then (pa + (PGROUNDDOWN x - PGROUNDDOWN va)) OR perm OR PTE_P
            else pte_of (kmem_mem s) d x))))) \<and>
    (present (pte_of (kmem_mem s) d va) \<longrightarrow> mappages d va sz pa perm s = Panic ''remap'')"
proof (intro conjI impI)
  let ?a = "PGROUNDDOWN va" and ?l = "PGROUNDDOWN (va + sz - 1)"
  let ?k = "unat (?l - ?a) div 4096"
  have m: "mappages d va sz pa perm s = mappages_loop ?k d ?a pa perm s" by (simp add: mappages_def Let_def)
  {
    assume np: "\<forall>x. covers va sz x \<longrightarrow> \<not> present (pte_of (kmem_mem s) d x)"
    have k: "4096 * ?k = unat (?l - ?a)" using aligned_diff [of ?l ?a] by simp
    then have c: "page_in ?a ?k x \<longleftrightarrow> covers va sz x" for x
      unfolding page_in_def covers_def k by (simp add: word_le_nat_alt)
    have "4096 * ?k < 2 ^ 32" unfolding k by (rule unat_less_32)
    from mappages_loop_spec [OF s aligned_PGROUNDDOWN [of va] this, where pa = pa and perm = perm] np
    show "\<exists>r t. mappages d va sz pa perm s = Done (r, t) \<and> pt_frame d s t \<and>
        (r = -1 \<and> card (free_pages s) \<le> unat (?l - ?a) div 4096 \<or>
         r = 0 \<and> (\<forall>x. pte_of (kmem_mem t) d x =
           (if covers va sz x then (pa + (PGROUNDDOWN x - ?a)) OR perm OR PTE_P else pte_of (kmem_mem s) d x)))"
      unfolding c m by blast
  }
  assume "present (pte_of (kmem_mem s) d va)"
  then show "mappages d va sz pa perm s = Panic ''remap''" unfolding m by (intro mappages_loop_remap [OF s]) (simp add: pte_of_page)
qed

theorem mappages_maps_witness:
  "\<exists>t. mappages demo_pgdir 0x1000 0x2000 0x300000 PTE_W (demo_uvm demo_pages) = Done (0, t) \<and>
     pte_of (kmem_mem t) demo_pgdir 0x2345 = 0x301003 \<and> pte_of (kmem_mem t) demo_pgdir 0x3000 = 0"
proof -
  have "card (free_pages (demo_uvm demo_pages)) = 3" unfolding demo_uvm_pages [OF demo_ok] by (simp add: demo_pages_def)
  moreover have "covers 0x1000 0x2000 0x2345" "\<not> covers 0x1000 0x2000 0x3000"
    by (simp_all add: covers_def PGROUNDDOWN_def PGSIZE_def)
  ultimately show ?thesis
    using mappages_maps [OF demo_uvm_inv [OF demo_ok], of "0x1000" "0x2000" "0x300000" PTE_W] demo_uvm_pte [OF demo_ok]
    by (auto simp: PGROUNDDOWN_def PGSIZE_def PTE_P_def PTE_W_def)
qed

text \<open>
  C7: \<open>allocuvm\<close> grows an address space. Below \<open>KERNBASE\<close>, with two free pages for every page to add, and none
  of the new pages mapped, it returns the new size. Every page between the old and the new size then has a
  page of memory of its own, writable by the user, that was free before, belongs to no other page and holds
  only zeroes, so no data of another process shows. Every other translation is as before, and so is all
  memory except the page table's and the formerly free pages.
\<close>

theorem allocuvm_grows:
  assumes "pt_inv d s" "newsz < KERNBASE" "oldsz \<le> newsz"
    and "unat newsz \<le> unat (PGROUNDUP oldsz) + 4096 * n" "2 * n \<le> card (free_pages s)"
    and "\<forall>va. uvm_in (unat (PGROUNDUP oldsz)) (unat newsz) va \<longrightarrow> \<not> present (pte_of (kmem_mem s) d va)"
  shows "\<exists>t. allocuvm d oldsz newsz s = Done (newsz, t) \<and> uvm_grown d (unat (PGROUNDUP oldsz)) (unat newsz) s t"
proof -
  have "unat oldsz < 2 ^ 31" using assms(2,3) by (simp add: word_le_nat_alt word_less_nat_alt KERNBASE_def)
  then have "4096 dvd unat (PGROUNDUP oldsz)" by (subst unat_PGROUNDUP) auto
  from allocuvm_loop_grows [OF assms(1) this assms(4,5), of oldsz] obtain t
    where "allocuvm_loop d (unat (PGROUNDUP oldsz)) oldsz newsz s = Done (newsz, t)"
      "uvm_grown d (unat (PGROUNDUP oldsz)) (unat newsz) s t" using assms(6) by auto
  moreover have "\<not> KERNBASE \<le> newsz" "\<not> newsz < oldsz" using assms(2,3) by auto
  ultimately show ?thesis by (simp add: allocuvm_def)
qed

theorem allocuvm_grows_witness:
  "\<exists>t. allocuvm demo_pgdir 0 0x800 (demo_uvm demo_pages) = Done (0x800, t) \<and> new_page demo_pgdir (demo_uvm demo_pages) t 0x123 \<and>
     pte_of (kmem_mem t) demo_pgdir 0x1000 = 0"
proof -
  have "2 * 1 \<le> card (free_pages (demo_uvm demo_pages))" unfolding demo_uvm_pages [OF demo_ok] by (simp add: demo_pages_def)
  with allocuvm_grows [OF demo_uvm_inv [OF demo_ok], where newsz = "0x800" and oldsz = 0 and n = 1] demo_uvm_pte [OF demo_ok]
  obtain t where t: "allocuvm demo_pgdir 0 0x800 (demo_uvm demo_pages) = Done (0x800, t)" "uvm_grown demo_pgdir (unat (PGROUNDUP 0)) (unat (0x800 :: u32)) (demo_uvm demo_pages) t"
    by (auto simp: KERNBASE_def)
  moreover have "uvm_in (unat (PGROUNDUP 0)) (unat (0x800 :: u32)) 0x123" "\<not> uvm_in (unat (PGROUNDUP 0)) (unat (0x800 :: u32)) 0x1000"
    by (simp_all add: uvm_in_def PGROUNDUP_def PGROUNDDOWN_def PGSIZE_def)
  ultimately show ?thesis using demo_uvm_pte [OF demo_ok] unfolding uvm_grown_def by metis
qed



end
