(* ===== verification/Proc_Props.thy ===== *)
theory Proc_Props
  imports Proc Fs_Demo Vm_Props
begin

text \<open>
  The scheduler, sleep and wakeup, and the reaping of children, \<open>kern/proc.c\<close>.
\<close>

section \<open>The scheduler's rounds\<close>

lemma find_upt:
  "find P [i..<n] = Some p \<Longrightarrow> i \<le> p \<and> p < n \<and> P p \<and> (\<forall>j. i \<le> j \<and> j < p \<longrightarrow> \<not> P j)"
  "find P [i..<n] = None \<Longrightarrow> i \<le> j \<Longrightarrow> j < n \<Longrightarrow> \<not> P j"
proof -
  assume "find P [i..<n] = Some p"
  then obtain k where k: "k < length [i..<n]" "P ([i..<n] ! k)" "p = [i..<n] ! k" "\<forall>j<k. \<not> P ([i..<n] ! j)"
    unfolding find_Some_iff by blast
  have "\<not> P j" if "i \<le> j" "j < p" for j
  proof -
    have "\<not> P ([i..<n] ! (j - i))" using k(1,3) that by (intro k(4) [rule_format]) (simp add: less_diff_conv)
    then show ?thesis using k(1,3) that by simp
  qed
  then show "i \<le> p \<and> p < n \<and> P p \<and> (\<forall>j. i \<le> j \<and> j < p \<longrightarrow> \<not> P j)" using k by auto
qed (auto simp: find_None_iff)

text \<open>
  Where the loop of \<open>scheduler\<close> stands after \<open>k\<close> switches, when \<open>S k\<close> is the state of the kernel in which
  it makes its choice number \<open>k\<close>.
\<close>

primrec scheduler_pos :: "(nat \<Rightarrow> kstate) \<Rightarrow> nat \<Rightarrow> nat \<Rightarrow> nat" where
  "scheduler_pos S i 0 = i"
| "scheduler_pos S i (Suc k) =
     (case scheduler_pick (scheduler_pos S i k) (S k) of
        Some p \<Rightarrow> p + 1
      | None \<Rightarrow> scheduler_pos S i k)"

text \<open>How many entries of the table lie between the position of the loop and \<open>q\<close>.\<close>

definition ahead :: "nat \<Rightarrow> nat \<Rightarrow> nat" where
  "ahead q i = (if i \<le> q then q - i else NPROC - i + q)"

lemma scheduler_pick_ahead:
  assumes "q < NPROC" "i \<le> NPROC" "p_state (ptable s q) = RUNNABLE"
  obtains p where "scheduler_pick i s = Some p" "p < NPROC" "p_state (ptable s p) = RUNNABLE" "p = q \<or> ahead q (p + 1) < ahead q i"
proof (cases "find (\<lambda>p. p_state (ptable s p) = RUNNABLE) [i..<NPROC]")
  case (Some p)
  then have p: "scheduler_pick i s = Some p" by (simp add: scheduler_pick_def)
  note f = find_upt(1) [OF Some]
  have "p = q \<or> ahead q (p + 1) < ahead q i"
    using f assms unfolding ahead_def by (cases "p = q"; cases "i \<le> q"; cases "p < q") auto
  then show ?thesis using that p f by blast
next
  case None
  then have iq: "q < i" using find_upt(2) [OF None, of q] assms by (cases "i \<le> q") auto
  show ?thesis
  proof (cases "find (\<lambda>p. p_state (ptable s p) = RUNNABLE) [0..<NPROC]")
    case n: None
    then show ?thesis using find_upt(2) [OF n, of q] assms by simp
  next
    case (Some p)
    then have p: "scheduler_pick i s = Some p" using None by (simp add: scheduler_pick_def)
    note f = find_upt(1) [OF Some]
    then have "p \<le> q" using assms by (cases "p \<le> q") auto
    then have "p = q \<or> ahead q (p + 1) < ahead q i" using iq assms(2) unfolding ahead_def by auto
    then show ?thesis using that p f by blast
  qed
qed

lemma scheduler_progress:
  assumes "q < NPROC" "i \<le> NPROC" "\<And>k. k \<le> ahead q i \<Longrightarrow> p_state (ptable (S k) q) = RUNNABLE"
  shows "\<exists>k \<le> ahead q i. scheduler_pick (scheduler_pos S i k) (S k) = Some q"
proof (rule ccontr)
  assume no: "\<not> ?thesis"
  have "scheduler_pos S i k \<le> NPROC \<and> ahead q (scheduler_pos S i k) + k \<le> ahead q i" if "k \<le> ahead q i + 1" for k
    using that
  proof (induction k)
    case (Suc k)
    let ?i = "scheduler_pos S i k"
    have IH: "?i \<le> NPROC" "ahead q ?i + k \<le> ahead q i" using Suc by auto
    obtain p where p: "scheduler_pick ?i (S k) = Some p" "p < NPROC" "p = q \<or> ahead q (p + 1) < ahead q ?i"
      using scheduler_pick_ahead [OF assms(1) IH(1) assms(3) [of k]] Suc.prems by auto
    moreover have "p \<noteq> q" using no p(1) Suc.prems by auto
    ultimately show ?case using IH(2) by auto
  qed (use assms in auto)
  from this [of "ahead q i + 1"] show False by auto
qed

text \<open>
  C14: The scheduler starves nobody. Wherever its loop stands, a process that stays runnable is the one chosen after
  fewer than \<open>NPROC\<close> other choices, whatever the processes in between do to the rest of the kernel.
\<close>

theorem scheduler_fair:
  assumes "q < NPROC" "i \<le> NPROC" "\<And>k. k < NPROC \<Longrightarrow> p_state (ptable (S k) q) = RUNNABLE"
  shows "\<exists>k < NPROC. scheduler_pick (scheduler_pos S i k) (S k) = Some q"
proof -
  have "ahead q i < NPROC" using assms(1,2) by (auto simp: ahead_def)
  then show ?thesis using scheduler_progress [OF assms(1,2), of S] assms(3) by (meson le_less_trans)
qed

section \<open>A small kernel\<close>

text \<open>The first process and a child of it, both runnable, on the small file system.\<close>

definition demo_proc :: proc where
  "demo_proc = \<lparr>p_sz = 0, p_pgdir = demo_pgdir, p_kstack = 0x80109000, p_state = RUNNABLE, p_pid = 1, p_parent = None,
     p_tf = zero_trapframe, p_context = zero_context, p_chan = None, p_killed = False, p_exitstatus = 0,
     p_ofile = (\<lambda>_. None), p_cwd = Some 0, p_name = replicate 16 0\<rparr>"

definition demo_unused :: proc where
  "demo_unused = demo_proc\<lparr>p_pgdir := 0, p_kstack := 0, p_state := UNUSED, p_pid := 0, p_cwd := None\<rparr>"

definition demo_kernel :: kstate where
  "demo_kernel = fs_state.extend demo_fs
     \<lparr>km = demo_uvm demo_pages, cons = demo_console,
      ftable = (\<lambda>_. \<lparr>f_type = FD_NONE, f_ref = 0, readable = False, writable = False, f_pipe = 0, f_ip = None, f_off = 0\<rparr>),
      pipes = (\<lambda>_. demo_pipe),
      ptable = (\<lambda>_. demo_unused)(0 := demo_proc, 3 := demo_proc\<lparr>p_pid := 2, p_parent := Some 0\<rparr>),
      cur = None, cpu_id = 0, initproc = Some 0, nextpid = 3, ticks = 0, kpgdir = 0, cr3 = 0, first = False, kdata = 0x80104000,
      trapret = 0x80103000, forkret_addr = 0x80102000\<rparr>"

lemma demo_kernel_ptable: "ptable demo_kernel = (\<lambda>_. demo_unused)(0 := demo_proc, 3 := demo_proc\<lparr>p_pid := 2, p_parent := Some 0\<rparr>)"
  by (simp add: demo_kernel_def fs_state.defs)

theorem scheduler_fair_witness: "\<exists>k<NPROC. scheduler_pick (scheduler_pos (\<lambda>_. demo_kernel) 1 k) demo_kernel = Some 3"
  using scheduler_fair [of 3 1 "\<lambda>_. demo_kernel"] by (simp add: demo_kernel_ptable demo_proc_def layout_defs)

section \<open>Sleep and wakeup\<close>

lemma acquire_free:
  assumes "locked (locks m l) = 0"
  obtains m' where "acquire c rd v l m = Done m'" "holding c l m'" "\<And>k. k \<noteq> l \<Longrightarrow> locks m' k = locks m k"
    "ncli (cpus m' c) = ncli (cpus m c) + 1" "\<not> if_flag (cpus m' c)"
proof
  let ?m = "upd_lock l (\<lambda>x. x\<lparr>locked := 1, lk_cpu := Some c, lk_pcs := getcallerpcs rd v\<rparr>) (pushcli c m)"
  show "acquire c rd v l m = Done ?m" using assms by (simp add: acquire_def holding_def xchg_def Let_def)
  show "holding c l ?m" "\<And>k. k \<noteq> l \<Longrightarrow> locks ?m k = locks m k" by (simp_all add: holding_def)
  show "ncli (cpus ?m c) = ncli (cpus m c) + 1" "\<not> if_flag (cpus ?m c)" by (simp_all add: pushcli_def Let_def)
qed

lemma release_held:
  assumes "holding c l m" "\<not> if_flag (cpus m c)" "0 < ncli (cpus m c)"
  obtains m' where "release c l m = Done m'" "locked (locks m' l) = 0" "\<And>k. k \<noteq> l \<Longrightarrow> locks m' k = locks m k"
    "ncli (cpus m' c) = ncli (cpus m c) - 1" "1 < ncli (cpus m c) \<Longrightarrow> \<not> if_flag (cpus m' c)"
proof -
  let ?m = "upd_lock l (\<lambda>x. x\<lparr>lk_pcs := (lk_pcs x)[0 := 0], lk_cpu := None, locked := 0\<rparr>) m"
  have r: "release c l m = popcli c ?m" using assms(1) by (simp add: release_def xchg_def Let_def)
  show thesis using that [of "if ncli (cpus m c) = 1 \<and> intena (cpus m c) then upd_cpu c (\<lambda>x. x\<lparr>ncli := ncli x - 1, if_flag := True\<rparr>) ?m
      else upd_cpu c (\<lambda>x. x\<lparr>ncli := ncli x - 1\<rparr>) ?m"] assms(2,3)
    unfolding r by (auto simp: popcli_def Let_def)
qed


text \<open>Lock 1 is held by CPU 0.\<close>

definition demo_smp :: "nat smp" where
  "demo_smp = \<lparr>cpus = (\<lambda>_. \<lparr>ncli = 1, intena = True, if_flag = False\<rparr>),
     locks = (\<lambda>l. \<lparr>lk_name = [], locked = if l = 1 then 1 else 0, lk_cpu = if l = 1 then Some 0 else None, lk_pcs = replicate 10 0\<rparr>)\<rparr>"


section \<open>Reaping a child\<close>


definition demo_zombie :: kstate where
  "demo_zombie = upd_proc 3 (\<lambda>x. x\<lparr>p_state := ZOMBIE\<rparr>) (demo_kernel\<lparr>cur := Some 0\<rparr>)"

lemma demo_zombie_find:
  "find (\<lambda>p. p_parent (ptable demo_zombie p) = Some 0 \<and> p_state (ptable demo_zombie p) = ZOMBIE) [0..<NPROC] = Some 3"
  unfolding find_Some_iff
  by (rule exI [of _ 3])
    (auto simp: demo_zombie_def upd_proc_def demo_kernel_ptable demo_unused_def demo_proc_def layout_defs)


end
