(* ===== verification/Frames.thy ===== *)
theory Frames
  imports File
begin

text \<open>
  What the layers below the process table leave alone: the buffer cache, the log and the inode layer
  change only their own fields of the state of the kernel.
\<close>

section \<open>Partial correctness\<close>

definition ensures :: "'a outcome \<Rightarrow> ('a \<Rightarrow> bool) \<Rightarrow> bool" where
  "ensures m P \<longleftrightarrow> (\<forall>x. m = Done x \<longrightarrow> P x)"

lemma ensures_simps [simp]:
  "ensures (Done x) P \<longleftrightarrow> P x" "ensures (Panic e) P" "ensures (Sleep c) P" "ensures Diverge P" "ensures m (\<lambda>_. True)"
  by (simp_all add: ensures_def)

lemma ensuresD: "ensures m P \<Longrightarrow> m = Done x \<Longrightarrow> P x"
  by (simp add: ensures_def)

lemma ensures_mono: "ensures m P \<Longrightarrow> (\<And>x. P x \<Longrightarrow> Q x) \<Longrightarrow> ensures m Q"
  by (simp add: ensures_def)

lemma ensures_seq: "ensures m Q \<Longrightarrow> (\<And>x. Q x \<Longrightarrow> ensures (f x) P) \<Longrightarrow> ensures (obind m f) P"
  by (cases m) simp_all

section \<open>The buffer cache\<close>

lemma iderw_more: "ensures (iderw b s) (\<lambda>t. bio.more t = bio.more s)"
  by (auto simp: iderw_def Let_def upd_buf_def)

lemma bget_more: "ensures (bget d n s) (\<lambda>(b, t). bio.more t = bio.more s)"
  unfolding bget_def by (auto split: option.splits intro!: ensures_seq [where Q = "\<lambda>_. True"])

lemma bread_more: "ensures (bread d n s) (\<lambda>(b, t). bio.more t = bio.more s)"
  unfolding bread_def
  by (rule ensures_seq [OF bget_more]) (auto intro!: ensures_seq [OF iderw_more])

lemma bwrite_more: "ensures (bwrite b s) (\<lambda>t. bio.more t = bio.more s)"
  unfolding bwrite_def by (auto intro!: ensures_mono [OF iderw_more])

lemma brelse_more: "ensures (brelse b s) (\<lambda>t. bio.more t = bio.more s)"
  by (simp add: brelse_def)

lemma readsb_more: "ensures (readsb d s) (\<lambda>(b, t). bio.more t = bio.more s)"
  unfolding readsb_def Let_def
  by (rule ensures_seq [OF bread_more]) (auto intro!: ensures_seq [OF brelse_more])

section \<open>The log\<close>

lemma bio_log_more: "bio.more t = bio.more s \<Longrightarrow> log_state.more t = log_state.more s"
  by (cases s, cases t) simp

lemma bread_log: "ensures (bread d n s) (\<lambda>(b, t). log_state.more t = log_state.more s)"
  by (rule ensures_mono [OF bread_more]) (auto dest: bio_log_more)

lemma bwrite_log: "ensures (bwrite b s) (\<lambda>t. log_state.more t = log_state.more s)"
  by (rule ensures_mono [OF bwrite_more]) (rule bio_log_more)

lemma brelse_log: "ensures (brelse b s) (\<lambda>t. log_state.more t = log_state.more s)"
  by (rule ensures_mono [OF brelse_more]) (rule bio_log_more)

lemma set_data_log [simp]: "log_state.more (set_data b d s) = log_state.more s"
  by (rule bio_log_more) simp

lemma upd_buf_log [simp]: "log_state.more (upd_buf b f s) = log_state.more s"
  by (rule bio_log_more) simp

lemmas log_seq = ensures_seq [OF bread_log] ensures_seq [OF bwrite_log] ensures_seq [OF brelse_log]

lemma install_trans_loop_log: "log_state.more s = x \<Longrightarrow> ensures (install_trans_loop k i s) (\<lambda>t. log_state.more t = x)"
  by (induction k arbitrary: i s) (auto simp: Let_def intro!: log_seq)

lemma write_log_loop_log: "log_state.more s = x \<Longrightarrow> ensures (write_log_loop k i s) (\<lambda>t. log_state.more t = x)"
  by (induction k arbitrary: i s) (auto simp: Let_def intro!: log_seq)

lemma write_head_log: "ensures (write_head s) (\<lambda>t. log_state.more t = log_state.more s)"
  unfolding write_head_def Let_def by (auto intro!: log_seq ensures_mono [OF brelse_log])

lemma commit_log: "ensures (commit s) (\<lambda>t. log_state.more t = log_state.more s)"
  unfolding commit_def install_trans_def write_log_def
  by (auto intro!: ensures_seq [OF install_trans_loop_log [OF refl]] ensures_seq [OF write_log_loop_log [OF refl]]
      ensures_seq [OF write_head_log] ensures_mono [OF write_head_log])

lemma initlog_log: "ensures (initlog d s) (\<lambda>t. log_state.more t = log_state.more s)"
proof -
  have r: "ensures (read_head s) (\<lambda>t. log_state.more t = log_state.more s)" for s :: "'a log_state_scheme"
    unfolding read_head_def Let_def by (auto intro!: log_seq ensures_mono [OF brelse_log])
  have q: "ensures (recover_from_log s) (\<lambda>t. log_state.more t = log_state.more s)" for s :: "'a log_state_scheme"
    unfolding recover_from_log_def install_trans_def
    by (auto intro!: ensures_seq [OF r] ensures_seq [OF install_trans_loop_log [OF refl]] ensures_mono [OF write_head_log])
  show ?thesis unfolding initlog_def
    by (auto intro!: ensures_seq [OF readsb_more] ensures_mono [OF q] dest: bio_log_more)
qed

lemma begin_op_log: "ensures (begin_op s) (\<lambda>t. log_state.more t = log_state.more s)"
  by (simp add: begin_op_def)

lemma end_op_log: "ensures (end_op s) (\<lambda>t. log_state.more t = log_state.more s)"
  by (auto simp: end_op_def Let_def intro!: ensures_seq [OF commit_log])

lemma log_write_log: "ensures (log_write b s) (\<lambda>t. log_state.more t = log_state.more s)"
  by (simp add: log_write_def Let_def)

section \<open>The inode layer\<close>

lemma log_fs_more: "log_state.more t = log_state.more s \<Longrightarrow> fs_state.more t = fs_state.more s"
  by (cases s, cases t) simp

lemma bread_fs: "ensures (bread d n s) (\<lambda>(b, t). fs_state.more t = fs_state.more s)"
  by (rule ensures_mono [OF bread_log]) (auto dest: log_fs_more)

lemma readsb_fs: "ensures (readsb d s) (\<lambda>(b, t). fs_state.more t = fs_state.more s)"
  by (rule ensures_mono [OF readsb_more]) (auto dest: bio_log_more log_fs_more)

lemma fs_frames:
  "ensures (brelse b s) (\<lambda>t. fs_state.more t = fs_state.more s)"
  "ensures (log_write b s) (\<lambda>t. fs_state.more t = fs_state.more s)"
  "ensures (begin_op s) (\<lambda>t. fs_state.more t = fs_state.more s)"
  "ensures (end_op s) (\<lambda>t. fs_state.more t = fs_state.more s)"
  by (rule ensures_mono [OF brelse_log] ensures_mono [OF log_write_log] ensures_mono [OF begin_op_log] ensures_mono [OF end_op_log];
      rule log_fs_more; assumption)+

lemma fs_more_upd [simp]:
  "fs_state.more (set_data b d s) = fs_state.more s" "fs_state.more (upd_inode i f s) = fs_state.more s"
  "fs_state.more (set_addr i k v s) = fs_state.more s"
  by (rule log_fs_more, simp) (simp_all add: upd_inode_def set_addr_def)

lemmas fs_seq = ensures_seq [OF bread_fs] ensures_seq [OF readsb_fs] fs_frames [THEN ensures_seq]
lemmas fs_last = fs_frames [THEN ensures_mono]

lemma bfree_fs: "ensures (bfree d b s) (\<lambda>t. fs_state.more t = fs_state.more s)"
  unfolding bfree_def Let_def by (auto intro!: fs_seq fs_last)

lemma iupdate_fs: "ensures (iupdate ip s) (\<lambda>t. fs_state.more t = fs_state.more s)"
  unfolding iupdate_def Let_def by (auto intro!: fs_seq fs_last)

lemma itrunc_direct_fs: "fs_state.more s = x \<Longrightarrow> ensures (itrunc_direct is ip s) (\<lambda>t. fs_state.more t = x)"
  by (induction "is" arbitrary: s) (auto simp: Let_def intro!: ensures_seq [OF bfree_fs])

lemma itrunc_indirect_fs: "fs_state.more s = x \<Longrightarrow> ensures (itrunc_indirect js bp ip s) (\<lambda>t. fs_state.more t = x)"
  by (induction js arbitrary: s) (auto simp: Let_def intro!: ensures_seq [OF bfree_fs])

lemma itrunc_fs: "ensures (itrunc ip s) (\<lambda>t. fs_state.more t = fs_state.more s)"
  unfolding itrunc_def Let_def
  by (rule ensures_seq [OF itrunc_direct_fs [OF refl]], rule ensures_seq [where Q = "\<lambda>t. fs_state.more t = fs_state.more s"])
    (auto intro!: fs_seq ensures_seq [OF itrunc_indirect_fs [OF refl]] ensures_seq [OF bfree_fs] ensures_mono [OF iupdate_fs])

lemma iput_fs: "ensures (iput ip s) (\<lambda>t. fs_state.more t = fs_state.more s)"
  unfolding iput_def Let_def
  by (rule ensures_seq [where Q = "\<lambda>t. fs_state.more t = fs_state.more s"])
    (auto intro!: ensures_seq [OF itrunc_fs] ensures_seq [OF iupdate_fs])

end
