(* ===== verification/Proc_Inv.thy ===== *)
theory Proc_Inv
  imports Proc_Props Frames
begin

text \<open>
  The well-formedness of the process table, and that the operations of \<open>kern/proc.c\<close>, in whatever order
  they are called, keep it.
\<close>

section \<open>A well-formed table\<close>

definition live :: "proc \<Rightarrow> bool" where
  "live x \<longleftrightarrow> p_state x \<in> {SLEEPING, RUNNABLE, RUNNING}"

text \<open>
  Between two operations no entry is half made: exactly the used entries have a kernel stack, and they
  have a page table; a sleeping process sleeps on a channel; only used entries have a parent, which is
  a process that has not exited; and the first process has not exited.
\<close>

definition slot_ok :: "proc \<Rightarrow> bool" where
  "slot_ok x \<longleftrightarrow> (p_state x = UNUSED \<longleftrightarrow> p_kstack x = 0) \<and> p_state x \<noteq> EMBRYO \<and>
     (p_state x \<noteq> UNUSED \<longrightarrow> p_pgdir x \<noteq> 0) \<and> (p_state x = SLEEPING \<longrightarrow> p_chan x \<noteq> None) \<and>
     (p_state x = UNUSED \<longrightarrow> p_parent x = None)"

definition ptable_ok :: "kstate \<Rightarrow> bool" where
  "ptable_ok s \<longleftrightarrow> (\<forall>p<NPROC. slot_ok (ptable s p)) \<and>
     (\<forall>p<NPROC. \<forall>q. p_parent (ptable s p) = Some q \<longrightarrow> q < NPROC \<and> live (ptable s q)) \<and>
     (\<exists>i. initproc s = Some i \<and> i < NPROC \<and> live (ptable s i))"

lemma ptable_ok_step:
  assumes "ptable_ok s" "initproc t = initproc s"
    and "\<And>q. q < NPROC \<Longrightarrow> live (ptable s q) \<Longrightarrow> live (ptable t q)"
    and "\<And>p. p < NPROC \<Longrightarrow> slot_ok (ptable s p) \<Longrightarrow> slot_ok (ptable t p)"
    and "\<And>p q. p < NPROC \<Longrightarrow> p_parent (ptable t p) = Some q \<Longrightarrow>
      p_parent (ptable s p) = Some q \<or> q < NPROC \<and> live (ptable t q)"
  shows "ptable_ok t"
  using assms unfolding ptable_ok_def by metis

text \<open>Changing one entry.\<close>

lemma ptable_ok_upd:
  assumes "ptable_ok s" "live (ptable s p) \<Longrightarrow> live (f (ptable s p))" "slot_ok (ptable s p) \<Longrightarrow> slot_ok (f (ptable s p))"
    "p_parent (f (ptable s p)) = p_parent (ptable s p) \<or> p_parent (f (ptable s p)) = None"
  shows "ptable_ok (upd_proc p f s)"
  by (rule ptable_ok_step [OF assms(1)]) (use assms(2-4) in \<open>auto simp: upd_proc_def split: if_splits\<close>)

lemma ptable_ok_same: "ptable_ok s \<Longrightarrow> ptable t = ptable s \<Longrightarrow> initproc t = initproc s \<Longrightarrow> ptable_ok t"
  by (simp add: ptable_ok_def)

section \<open>Wakeups\<close>

text \<open>
  \<open>kept s t\<close>: apart from the parents, and as far as the invariant goes, at most wakeups happened to the
  table; \<open>woken s t\<close>: nor did the parents change.
\<close>

definition kept :: "kstate \<Rightarrow> kstate \<Rightarrow> bool" where
  "kept s t \<longleftrightarrow> cur t = cur s \<and> initproc t = initproc s \<and>
     (\<forall>p. p_kstack (ptable t p) = p_kstack (ptable s p) \<and> p_pgdir (ptable t p) = p_pgdir (ptable s p) \<and>
        p_chan (ptable t p) = p_chan (ptable s p) \<and>
        (p_state (ptable t p) = p_state (ptable s p) \<or>
         p_state (ptable s p) = SLEEPING \<and> p_state (ptable t p) = RUNNABLE))"

definition woken :: "kstate \<Rightarrow> kstate \<Rightarrow> bool" where
  "woken s t \<longleftrightarrow> kept s t \<and> (\<forall>p. p_parent (ptable t p) = p_parent (ptable s p))"

lemma kept_trans:
  assumes "kept s t" "kept t u"
  shows "kept s u"
proof -
  have "p_state (ptable u p) = p_state (ptable s p) \<or> p_state (ptable s p) = SLEEPING \<and> p_state (ptable u p) = RUNNABLE" for p
  proof -
    have "p_state (ptable t p) = p_state (ptable s p) \<or> p_state (ptable s p) = SLEEPING \<and> p_state (ptable t p) = RUNNABLE"
      "p_state (ptable u p) = p_state (ptable t p) \<or> p_state (ptable t p) = SLEEPING \<and> p_state (ptable u p) = RUNNABLE"
      using assms by (simp_all add: kept_def)
    then show ?thesis by auto
  qed
  then show ?thesis using assms by (simp add: kept_def)
qed

lemma woken_trans: "woken s t \<Longrightarrow> woken t u \<Longrightarrow> woken s u"
  unfolding woken_def by (auto intro: kept_trans)

lemma woken_refl [simp]: "woken s s"
  by (simp add: woken_def kept_def)

lemma keptD:
  assumes "kept s t"
  shows "cur t = cur s" "initproc t = initproc s" "live (ptable t p) = live (ptable s p)"
    "p_state (ptable s p) \<noteq> SLEEPING \<Longrightarrow> p_state (ptable t p) = p_state (ptable s p)"
    "slot_ok (ptable s p) \<Longrightarrow> p_parent (ptable t p) = p_parent (ptable s p) \<or> p_parent (ptable s p) \<noteq> None \<Longrightarrow> slot_ok (ptable t p)"
proof -
  have c: "p_kstack (ptable t p) = p_kstack (ptable s p)" "p_pgdir (ptable t p) = p_pgdir (ptable s p)"
    "p_chan (ptable t p) = p_chan (ptable s p)"
    "p_state (ptable t p) = p_state (ptable s p) \<or> p_state (ptable s p) = SLEEPING \<and> p_state (ptable t p) = RUNNABLE"
    using assms unfolding kept_def by blast+
  then show "live (ptable t p) = live (ptable s p)"
    "p_state (ptable s p) \<noteq> SLEEPING \<Longrightarrow> p_state (ptable t p) = p_state (ptable s p)"
    "slot_ok (ptable s p) \<Longrightarrow> p_parent (ptable t p) = p_parent (ptable s p) \<or> p_parent (ptable s p) \<noteq> None \<Longrightarrow> slot_ok (ptable t p)"
    by (auto simp: live_def slot_ok_def)
qed (use assms in \<open>simp_all add: kept_def\<close>)

lemma woken_kept: "woken s t \<Longrightarrow> kept s t"
  and woken_parent: "woken s t \<Longrightarrow> p_parent (ptable t p) = p_parent (ptable s p)"
  by (simp_all add: woken_def)

lemma woken_upd:
  "(\<And>x. p_kstack (f x) = p_kstack x \<and> p_pgdir (f x) = p_pgdir x \<and> p_chan (f x) = p_chan x \<and> p_parent (f x) = p_parent x \<and>
     p_state (f x) = p_state x) \<Longrightarrow> woken s (upd_proc p f s)"
  by (simp add: woken_def kept_def upd_proc_def)

lemma woken_ok: "ptable_ok s \<Longrightarrow> woken s t \<Longrightarrow> ptable_ok t"
  by (rule ptable_ok_step [of s]) (auto simp: keptD [OF woken_kept] woken_parent)

lemma wakeup_woken: "woken s (wakeup ch s)"
  by (simp add: woken_def kept_def wakeup_def wakeup1_def)

section \<open>Files\<close>

lemma more_woken: "fs_state.more t = fs_state.more s \<Longrightarrow> woken s t"
  by (cases s, cases t) (simp add: woken_def kept_def)

lemma on_km'_woken: "ensures (on_km' f s) (woken s)"
  by (auto simp: on_km'_def woken_def kept_def ensures_def obind_Done_iff)

lemma begin_op_woken: "ensures (begin_op s) (woken s)"
  and end_op_woken: "ensures (end_op s) (woken s)"
  by (rule ensures_mono [OF fs_frames(3)] ensures_mono [OF fs_frames(4)]; rule more_woken; assumption)+

lemma put_ip_woken: "ensures (put_ip p s) (woken s)"
  by (auto simp: put_ip_def split: option.splits intro: ensures_mono [OF iput_fs] more_woken)

lemma k_pipeclose_woken: "ensures (k_pipeclose p w s) (woken s)"
proof -
  have w: "woken s (wakeup_pipe p ch (s\<lparr>pipes := q\<rparr>))" for ch q
    using wakeup_woken [of "s\<lparr>pipes := q\<rparr>"] by (cases ch) (simp_all add: woken_def kept_def)
  show ?thesis
    unfolding k_pipeclose_def Let_def
    by (auto split: prod.splits intro: w woken_trans ensures_mono [OF on_km'_woken])
qed

lemma fileclose_woken: "ensures (fileclose f s) (woken s)"
proof -
  have u: "woken s (upd_file f g s)" for g s by (simp add: woken_def kept_def upd_file_def)
  have i: "ensures (obind (begin_op u) (\<lambda>s. obind (put_ip ip s) (\<lambda>s. end_op s))) (woken u)" for u ip
    by (intro ensures_seq [OF begin_op_woken] ensures_seq [OF put_ip_woken] ensures_mono [OF end_op_woken]) (metis woken_trans)
  define v where "v = upd_file f (\<lambda>x. x\<lparr>f_ref := f_ref x - 1\<rparr>) s"
  define w where "w = upd_file f (\<lambda>x. x\<lparr>f_ref := 0, f_type := FD_NONE\<rparr>) v"
  have sw: "woken s w" unfolding w_def v_def by (rule woken_trans [OF u u])
  have "ensures (case f_type (ftable v f) of
      FD_PIPE \<Rightarrow> k_pipeclose (f_pipe (ftable v f)) (writable (ftable v f)) w
    | FD_INODE \<Rightarrow> obind (begin_op w) (\<lambda>s. obind (put_ip (f_ip (ftable v f)) s) (\<lambda>s. end_op s))
    | FD_NONE \<Rightarrow> Done w) (woken s)"
    by (cases "f_type (ftable v f)")
      (simp_all add: sw ensures_mono [OF k_pipeclose_woken woken_trans [OF sw]] ensures_mono [OF i woken_trans [OF sw]])
  then show ?thesis using u unfolding fileclose_def Let_def v_def [symmetric] w_def [symmetric] by (simp add: v_def)
qed

section \<open>Exit\<close>

lemma exit_files_woken: "woken r s \<Longrightarrow> ensures (exit_files fds p s) (woken r)"
proof (induction fds arbitrary: s)
  case (Cons fd fds)
  have "ensures (exit_files fds p (upd_proc p (\<lambda>x. x\<lparr>p_ofile := (p_ofile x)(fd := None)\<rparr>) t)) (woken r)" if "woken s t" for t
    by (rule Cons.IH) (intro woken_trans [OF Cons.prems] woken_trans [OF that] woken_upd, simp)
  then show ?case using Cons by (auto split: option.splits intro!: ensures_seq [OF fileclose_woken])
qed simp

lemma wakeup_proc_woken: "woken s (wakeup_proc q s)"
  using wakeup_woken [of s] by (auto simp: wakeup_proc_def wakeup_def split: option.splits)

lemma reparent_spec:
  assumes "initproc s \<noteq> Some p"
  shows "kept s (reparent qs p s) \<and> (\<forall>q. p_parent (ptable (reparent qs p s) q) =
    (if q \<in> set qs \<and> p_parent (ptable s q) = Some p then initproc s else p_parent (ptable s q)))"
  using assms
proof (induction qs arbitrary: s)
  case Nil
  then show ?case using woken_kept by simp
next
  case (Cons q qs)
  show ?case
  proof (cases "p_parent (ptable s q) = Some p")
    case False
    then show ?thesis using Cons.IH [OF Cons.prems] by auto
  next
    case True
    define u where "u = upd_proc q (\<lambda>x. x\<lparr>p_parent := initproc s\<rparr>) s"
    define v where "v = (if p_state (ptable u q) = ZOMBIE then wakeup_proc (initproc u) u else u)"
    have u: "kept s u" "initproc u = initproc s" "p_parent (ptable u r) = (if r = q then initproc s else p_parent (ptable s r))" for r
      by (simp_all add: u_def upd_proc_def kept_def)
    have uv: "woken u v" using wakeup_proc_woken by (simp add: v_def)
    have r: "reparent (q # qs) p s = reparent qs p v" using True by (simp add: u_def v_def Let_def)
    have "initproc v \<noteq> Some p" using Cons.prems u(2) keptD(2) [OF woken_kept [OF uv]] by simp
    from Cons.IH [OF this] show ?thesis
      unfolding r using kept_trans [OF u(1) kept_trans [OF woken_kept [OF uv]]] Cons.prems True u(2,3)
        woken_parent [OF uv] keptD(2) [OF woken_kept [OF uv]] by auto
  qed
qed

text \<open>The end of \<open>exit\<close>, when the process has given up its files.\<close>

lemma exit_zombie:
  assumes s: "ptable_ok s" and p: "p_state (ptable s p) = RUNNING" and n: "initproc s \<noteq> Some p" and su: "woken s u"
  shows "ptable_ok (upd_proc p (\<lambda>x. x\<lparr>p_state := ZOMBIE\<rparr>) (reparent [0..<NPROC] p u))"
proof -
  have uo: "ptable_ok u" using woken_ok [OF s su] .
  have iu: "initproc u \<noteq> Some p" using n keptD(2) [OF woken_kept [OF su]] by simp
  define w where "w = reparent [0..<NPROC] p u"
  have w: "kept u w" "p_parent (ptable w q) = (if q < NPROC \<and> p_parent (ptable u q) = Some p then initproc u else p_parent (ptable u q))" for q
    using reparent_spec [OF iu, of "[0..<NPROC]"] by (simp_all add: w_def)
  have wp: "p_state (ptable w p) = RUNNING"
    using p keptD(4) [OF woken_kept [OF su], of p] keptD(4) [OF w(1), of p] by simp
  have iw: "initproc w = initproc u" using keptD(2) [OF w(1)] .
  have wo: "ptable_ok w"
  proof (rule ptable_ok_step [OF uo iw])
    show "live (ptable w q)" if "live (ptable u q)" for q using keptD(3) [OF w(1)] that by simp
    show "slot_ok (ptable w q)" if "slot_ok (ptable u q)" for q using keptD(5) [OF w(1) that] w(2) [of q] by auto
    show "p_parent (ptable u q) = Some r \<or> r < NPROC \<and> live (ptable w r)" if "p_parent (ptable w q) = Some r" for q r
      using that w(2) [of q] uo keptD(3) [OF w(1), of r] by (auto simp: ptable_ok_def split: if_splits)
  qed
  have np: "p_parent (ptable w q) \<noteq> Some p" if "q < NPROC" for q using w(2) [of q] iu that by auto
  have l: "live (ptable (upd_proc p (\<lambda>x. x\<lparr>p_state := ZOMBIE\<rparr>) w) q) = (q \<noteq> p \<and> live (ptable w q))" for q
    by (simp add: upd_proc_def live_def)
  show ?thesis
    using wo wp np iw iu unfolding w_def [symmetric] ptable_ok_def l by (auto simp: upd_proc_def slot_ok_def)
qed

lemma exit_ok:
  assumes s: "ptable_ok s" and c: "cur s = Some p" "p_state (ptable s p) = RUNNING"
  shows "ensures (exit v s) ptable_ok"
proof (cases "initproc s = Some p")
  case True
  then show ?thesis using c by (simp add: exit_def Let_def upd_proc_def)
next
  case False
  define s0 where "s0 = upd_proc p (\<lambda>x. x\<lparr>p_exitstatus := v\<rparr>) s"
  have 0: "woken s s0" unfolding s0_def by (rule woken_upd) simp
  have fin: "woken s (wakeup_proc q (upd_proc p (\<lambda>x. x\<lparr>p_cwd := None\<rparr>) t))" if t: "woken s t" for t q
    by (rule woken_trans [OF t], rule woken_trans [OF _ wakeup_proc_woken], rule woken_upd) simp
  have m: "ensures (obind (exit_files [0..<NOFILE] p s0) (\<lambda>s. obind (begin_op s) (\<lambda>s. obind (put_ip (p_cwd (ptable s p)) s) (\<lambda>s.
      obind (end_op s) g)))) ptable_ok" if "\<And>t. woken s t \<Longrightarrow> ensures (g t) ptable_ok" for g
    by (rule ensures_seq [OF exit_files_woken [OF 0]], rule ensures_seq [OF begin_op_woken], rule ensures_seq [OF put_ip_woken],
        rule ensures_seq [OF end_op_woken], rule that) (metis woken_trans)
  have i0: "initproc s0 \<noteq> Some p" using False by (simp add: s0_def upd_proc_def)
  show ?thesis unfolding exit_def Let_def c(1) option.case s0_def [symmetric] if_not_P [OF i0]
    by (rule m) (simp add: exit_zombie [OF s c(2) False fin])
qed

section \<open>Fork\<close>

text \<open>\<open>born np s t\<close>: only entry \<open>np\<close> of the table, unused in \<open>s\<close>, may have changed.\<close>

definition born :: "nat \<Rightarrow> kstate \<Rightarrow> kstate \<Rightarrow> bool" where
  "born np s t \<longleftrightarrow> np < NPROC \<and> p_state (ptable s np) = UNUSED \<and> cur t = cur s \<and> initproc t = initproc s \<and>
     (\<forall>q. q \<noteq> np \<longrightarrow> ptable t q = ptable s q)"

lemma born_ok:
  assumes "ptable_ok s" "born np s t" "slot_ok (ptable t np)"
    and "\<And>q. p_parent (ptable t np) = Some q \<Longrightarrow> q < NPROC \<and> live (ptable s q)"
  shows "ptable_ok t"
proof (rule ptable_ok_step [OF assms(1)])
  have l: "live (ptable t q)" if "live (ptable s q)" for q using that assms(2) by (cases "q = np") (auto simp: born_def live_def)
  then show "live (ptable t q)" if "live (ptable s q)" for q using that .
  show "slot_ok (ptable t q)" if "slot_ok (ptable s q)" for q using that assms(2,3) by (cases "q = np") (auto simp: born_def)
  show "p_parent (ptable s q) = Some r \<or> r < NPROC \<and> live (ptable t r)" if "p_parent (ptable t q) = Some r" for q r
    using that assms(2,4) l by (cases "q = np") (auto simp: born_def)
qed (use assms(2) in \<open>simp add: born_def\<close>)

lemma born_upd: "born np s t \<Longrightarrow> born np s (upd_proc np f t)"
  by (simp add: born_def upd_proc_def)

lemma allocproc_Some:
  assumes "allocproc s = (Some np, t)"
  shows "born np s t" "p_kstack (ptable t np) \<noteq> 0" "p_parent (ptable t np) = p_parent (ptable s np)"
proof -
  obtain stack k where ka: "kalloc (km s) = (stack, k)" by fastforce
  have f: "find (\<lambda>p. p_state (ptable s p) = UNUSED) [0..<NPROC] = Some np" "stack \<noteq> 0"
    using assms ka by (auto simp: allocproc_def Let_def k_alloc_def upd_proc_def split: option.splits if_splits)
  have np: "np < NPROC" "p_state (ptable s np) = UNUSED" using find_SomeD [OF f(1)] by auto
  show "born np s t" "p_kstack (ptable t np) \<noteq> 0" "p_parent (ptable t np) = p_parent (ptable s np)"
    using assms ka f np by (auto simp: allocproc_def Let_def k_alloc_def upd_proc_def store_word_def born_def)
qed

lemma allocproc_None:
  assumes s: "ptable_ok s" and a: "allocproc s = (None, t)"
  shows "ptable_ok t"
proof (cases "find (\<lambda>p. p_state (ptable s p) = UNUSED) [0..<NPROC]")
  case None
  then show ?thesis using a s by (simp add: allocproc_def)
next
  case (Some np)
  then have np: "np < NPROC" "p_state (ptable s np) = UNUSED" using find_SomeD by force+
  obtain stack k where ka: "kalloc (km s) = (stack, k)" by fastforce
  have "stack = 0" using a ka Some by (auto simp: allocproc_def Let_def k_alloc_def upd_proc_def split: if_splits)
  then have "ptable t = (ptable s)(np := (ptable s np)\<lparr>p_pid := nextpid s, p_kstack := 0, p_state := UNUSED\<rparr>)" "initproc t = initproc s"
    using a ka Some by (auto simp: allocproc_def Let_def k_alloc_def upd_proc_def)
  then show ?thesis using np
    by (intro ptable_ok_step [OF s]) (auto simp: live_def slot_ok_def split: if_splits)
qed

lemma on_km_ptable: "ensures (on_km f s) (\<lambda>(r, t). ptable t = ptable s \<and> cur t = cur s \<and> initproc t = initproc s)"
  by (auto simp: on_km_def ensures_def obind_Done_iff)

lemma on_km'_ptable: "ensures (on_km' f s) (\<lambda>t. ptable t = ptable s \<and> cur t = cur s \<and> initproc t = initproc s)"
  by (auto simp: on_km'_def ensures_def obind_Done_iff)

text \<open>What the entry of the child has got, whatever else \<open>fork\<close> does to it.\<close>

definition child :: "nat \<Rightarrow> u32 \<Rightarrow> u32 \<Rightarrow> nat option \<Rightarrow> kstate \<Rightarrow> kstate \<Rightarrow> bool" where
  "child np k d pa s t \<longleftrightarrow> born np s t \<and> p_kstack (ptable t np) = k \<and> p_pgdir (ptable t np) = d \<and> p_parent (ptable t np) = pa"

lemma child_upd:
  "child np k d pa s t \<Longrightarrow> (\<And>x. p_kstack (f x) = p_kstack x \<and> p_pgdir (f x) = p_pgdir x \<and> p_parent (f x) = p_parent x) \<Longrightarrow>
   child np k d pa s (upd_proc np f t)"
  by (simp add: child_def born_def upd_proc_def)

lemma child_same: "child np k d pa s t \<Longrightarrow> ptable u = ptable t \<Longrightarrow> cur u = cur t \<Longrightarrow> initproc u = initproc t \<Longrightarrow> child np k d pa s u"
  by (simp add: child_def born_def)

lemma fork_files_child: "child np k d pa s t \<Longrightarrow> ensures (fork_files is p np t) (child np k d pa s)"
proof (induction "is" arbitrary: t)
  case (Cons i "is")
  have "ensures (fork_files is p np (upd_proc np (\<lambda>x. x\<lparr>p_ofile := (p_ofile x)(i := Some f)\<rparr>) (upd_file f g t))) (child np k d pa s)" for f g
    by (rule Cons.IH, rule child_upd, rule child_same [OF Cons.prems]) (simp_all add: upd_file_def)
  then show ?case using Cons by (auto simp: filedup_def split: option.splits)
qed simp

lemma idup_ptable: "ptable (snd (idup ip s)) = ptable s" "cur (snd (idup ip s)) = cur s" "initproc (snd (idup ip s)) = initproc s"
  by (simp_all add: idup_def upd_inode_def)

lemma child_runnable:
  assumes "ptable_ok s" "child np k d (Some p) s t" "k \<noteq> 0" "d \<noteq> 0" "p < NPROC" "live (ptable s p)"
  shows "ptable_ok (upd_proc np (\<lambda>x. x\<lparr>p_state := RUNNABLE\<rparr>) t)"
proof (rule born_ok [OF assms(1) born_upd])
  show "born np s t" using assms(2) by (simp add: child_def)
  show "slot_ok (ptable (upd_proc np (\<lambda>x. x\<lparr>p_state := RUNNABLE\<rparr>) t) np)"
    using assms(2-4) by (simp add: child_def slot_ok_def upd_proc_def)
  show "q < NPROC \<and> live (ptable s q)" if "p_parent (ptable (upd_proc np (\<lambda>x. x\<lparr>p_state := RUNNABLE\<rparr>) t) np) = Some q" for q
    using that assms by (simp add: child_def upd_proc_def)
qed

lemma fork_fail:
  assumes s: "ptable_ok s" and u: "born np s u" "p_parent (ptable u np) = None"
  shows "ensures (obind (on_km' f u) (\<lambda>s. Done (r, upd_proc np (\<lambda>x. x\<lparr>p_kstack := 0, p_state := UNUSED\<rparr>) s))) (\<lambda>(r, t). ptable_ok t)"
proof -
  have "ptable_ok (upd_proc np (\<lambda>x. x\<lparr>p_kstack := 0, p_state := UNUSED\<rparr>) v)"
    if "ptable v = ptable u" "cur v = cur u" "initproc v = initproc u" for v
  proof (rule born_ok [OF s born_upd])
    show "born np s v" using u that by (simp add: born_def)
  qed (use u that in \<open>simp_all add: slot_ok_def upd_proc_def\<close>)
  then show ?thesis by (auto intro!: ensures_seq [OF on_km'_ptable])
qed

lemma fork_rest:
  assumes s: "ptable_ok s" and t: "child np k d (Some p) s t" "k \<noteq> 0" "d \<noteq> 0" and p: "p < NPROC" "live (ptable s p)"
  shows "ensures (obind (fork_files [0..<NOFILE] p np t) (\<lambda>s.
     case p_cwd (ptable s p) of
       None \<Rightarrow> Panic ''trap''
     | Some ip \<Rightarrow>
         (case idup ip s of (ip, s) \<Rightarrow>
            let s = upd_proc np (\<lambda>x. x\<lparr>p_cwd := Some ip\<rparr>) s;
                s = upd_proc np (set_name (p_name (ptable s p))) s;
                pid = p_pid (ptable s np)
            in Done (sint pid, upd_proc np (\<lambda>x. x\<lparr>p_state := RUNNABLE\<rparr>) s)))) (\<lambda>(r, t). ptable_ok t)"
proof (rule ensures_seq [OF fork_files_child [OF t(1)]])
  fix v
  assume v: "child np k d (Some p) s v"
  have "ptable_ok (upd_proc np (\<lambda>x. x\<lparr>p_state := RUNNABLE\<rparr>)
      (upd_proc np (set_name nm) (upd_proc np (\<lambda>x. x\<lparr>p_cwd := Some ip\<rparr>) (snd (idup ip v)))))" for ip nm
    by (rule child_runnable [OF s _ t(2,3) p], intro child_upd child_same [OF v]) (simp_all add: idup_ptable set_name_def)
  then show "ensures (case p_cwd (ptable v p) of
       None \<Rightarrow> Panic ''trap''
     | Some ip \<Rightarrow>
         (case idup ip v of (ip, s) \<Rightarrow>
            let s = upd_proc np (\<lambda>x. x\<lparr>p_cwd := Some ip\<rparr>) s;
                s = upd_proc np (set_name (p_name (ptable s p))) s;
                pid = p_pid (ptable s np)
            in Done (sint pid, upd_proc np (\<lambda>x. x\<lparr>p_state := RUNNABLE\<rparr>) s))) (\<lambda>(r, t). ptable_ok t)"
    by (auto simp: Let_def idup_def split: option.splits)
qed

lemma fork_ok:
  assumes s: "ptable_ok s" and c: "cur s = Some p" "p < NPROC" "p_state (ptable s p) = RUNNING"
  shows "ensures (fork s) (\<lambda>(r, t). ptable_ok t)"
proof -
  have lp: "live (ptable s p)" using c(3) by (simp add: live_def)
  obtain r t where a: "allocproc s = (r, t)" by fastforce
  show ?thesis
  proof (cases r)
    case None
    then show ?thesis using c allocproc_None [OF s] a by (simp add: fork_def)
  next
    case (Some np)
    note 1 = a [unfolded Some]
    note 2 = allocproc_Some [OF 1]
    have 4: "p_parent (ptable t np) = None" using 2(1,3) s by (auto simp: born_def ptable_ok_def slot_ok_def)
    have b: "born np s u" if "ptable u = ptable t" "cur u = cur t" "initproc u = initproc t" for u
      using that 2(1) by (simp add: born_def)
    have ch: "child np (p_kstack (ptable t np)) d (Some p) s
        (upd_proc np (\<lambda>x. x\<lparr>p_sz := z, p_parent := Some p, p_tf := f\<rparr>) (upd_proc np (\<lambda>x. x\<lparr>p_pgdir := d\<rparr>) u))"
      if "ptable u = ptable t" "cur u = cur t" "initproc u = initproc t" for u d z f
      using b [OF that] that by (simp add: child_def born_def upd_proc_def)
    have pn: "p_parent (ptable (upd_proc np (\<lambda>x. x\<lparr>p_pgdir := d\<rparr>) u) np) = None" if "ptable u = ptable t" for u d
      using that 4 by (simp add: upd_proc_def)
    show ?thesis
      unfolding fork_def c(1) 1 option.case prod.case
      by (rule ensures_seq [OF on_km_ptable], clarsimp simp only: prod.case Let_def split: if_split)
        (intro conjI impI, rule fork_fail [OF s born_upd [OF b] pn], assumption+,
         rule fork_rest [OF s ch 2(2) _ c(2) lp, unfolded Let_def], assumption+)
  qed
qed

section \<open>Wait, and the remaining operations\<close>

lemma uwrite_ptable: "ensures (uwrite bs va s) (\<lambda>t. ptable t = ptable s \<and> initproc t = initproc s \<and> cur t = cur s)"
proof (induction bs arbitrary: va s)
  case (Cons b bs)
  show ?case
    by (auto intro!: ensures_seq [where Q = "\<lambda>_. True"] ensures_mono [OF Cons.IH])
qed simp

lemma reap_ok:
  assumes "ptable_ok s" "p < NPROC" "p_state (ptable s p) = ZOMBIE"
    and "ptable t = (ptable s)(p := x)" "initproc t = initproc s" "p_state x = UNUSED" "p_kstack x = 0" "p_parent x = None"
  shows "ptable_ok t"
  by (rule ptable_ok_step [OF assms(1)]) (use assms in \<open>auto simp: live_def slot_ok_def split: if_splits\<close>)

lemma wait_ok:
  assumes s: "ptable_ok s"
  shows "ensures (wait st s) (\<lambda>(r, t). ptable_ok t)"
proof (cases "cur s")
  case (Some me)
  show ?thesis
  proof (cases "find (\<lambda>p. p_parent (ptable s p) = Some me \<and> p_state (ptable s p) = ZOMBIE) [0..<NPROC]")
    case None
    then show ?thesis using s Some by (simp add: wait_def)
  next
    case f: (Some p)
    then have p: "p < NPROC" "p_state (ptable s p) = ZOMBIE" using find_SomeD by force+
    have r: "ptable_ok t" if "ptable t = ptable (upd_proc p (\<lambda>x. x\<lparr>p_state := UNUSED, p_pid := 0, p_parent := None,
          p_name := (p_name x)[0 := 0], p_killed := False\<rparr>) v)" "ptable v = ptable (upd_proc p (\<lambda>x. x\<lparr>p_kstack := 0\<rparr>) u)"
        "ptable u = ptable s" "initproc t = initproc s" for t u v
      by (rule reap_ok [OF s p, where x = "ptable t p"]) (use that in \<open>simp_all add: upd_proc_def\<close>)
    have i: "initproc (upd_proc p f w) = initproc w" for f w by (simp add: upd_proc_def)
    show ?thesis
      unfolding wait_def Some f option.case Let_def
      by (rule ensures_seq [OF on_km'_ptable], rule ensures_seq [OF on_km'_ptable])
        (auto intro!: ensures_seq [OF uwrite_ptable] r [OF refl] elim!: r simp: i)
  qed
qed (simp add: wait_def)

lemma kill_ok: "ptable_ok s \<Longrightarrow> ptable_ok (snd (kill pid s))"
proof -
  assume s: "ptable_ok s"
  have "ptable_ok (upd_proc p (\<lambda>x. x\<lparr>p_killed := True, p_state := if p_state x = SLEEPING then RUNNABLE else p_state x\<rparr>) s)" for p
    by (rule ptable_ok_upd [OF s]) (auto simp: live_def slot_ok_def)
  then show ?thesis using s by (auto simp: kill_def split: option.splits)
qed

lemma growproc_woken: "ensures (growproc n s) (\<lambda>(r, t). woken s t)"
proof -
  have c: "ensures (case cur (upd_cur (\<lambda>x. x\<lparr>p_sz := z\<rparr>) u) of None \<Rightarrow> Panic ''trap''
      | Some p \<Rightarrow> obind (switchuvm p (upd_cur (\<lambda>x. x\<lparr>p_sz := z\<rparr>) u)) (\<lambda>s. Done (0 :: int, s))) (\<lambda>(r, t). woken s t)"
    if "ptable u = ptable s \<and> cur u = cur s \<and> initproc u = initproc s" for z u
    using that by (auto simp: upd_cur_def upd_proc_def switchuvm_def woken_def kept_def split: option.splits)
  have k: "woken s u" if "ptable u = ptable s \<and> cur u = cur s \<and> initproc u = initproc s" for u
    using that by (simp add: woken_def kept_def)
  show ?thesis
    unfolding growproc_def Let_def
    by (auto intro!: ensures_seq [OF on_km_ptable] c k)
qed

lemma sched_ensures: "ensures (sched c pt m s) (\<lambda>(m', t). t = s)"
  by (simp add: sched_def)

lemma yield_ok:
  assumes "ptable_ok s" "cur s = Some p" "p_state (ptable s p) = RUNNING"
  shows "ensures (yield c pt rd v m s) (\<lambda>(m', t). ptable_ok t)"
proof -
  have "ptable_ok (upd_proc p (\<lambda>x. x\<lparr>p_state := RUNNABLE\<rparr>) s)"
    by (rule ptable_ok_upd [OF assms(1)]) (use assms(3) in \<open>auto simp: live_def slot_ok_def\<close>)
  then show ?thesis
    using assms(2) unfolding yield_def
    by (auto simp: upd_cur_def intro!: ensures_seq [where Q = "\<lambda>_. True"] ensures_mono [OF sched_ensures])
qed

lemma sleep_ok:
  assumes "ptable_ok s" "cur s = Some p" "p_state (ptable s p) = RUNNING"
  shows "ensures (sleep c pt rd v ch lk m s) (\<lambda>(m', t). ptable_ok t)"
proof -
  have "ptable_ok (upd_proc p (\<lambda>x. x\<lparr>p_chan := Some ch, p_state := SLEEPING\<rparr>) s)"
    by (rule ptable_ok_upd [OF assms(1)]) (use assms(3) in \<open>auto simp: live_def slot_ok_def\<close>)
  then show ?thesis
    using assms(2) unfolding sleep_def
    by (auto split: option.splits intro!: ensures_seq [where Q = "\<lambda>_. True"] ensures_mono [OF sched_ensures])
qed

lemma sleep_resume_ok:
  assumes "ptable_ok s" "cur s = Some p" "p_state (ptable s p) = RUNNING"
  shows "ensures (sleep_resume c pt rd v l m s) (\<lambda>(m', t). ptable_ok t)"
proof -
  have "ptable_ok (upd_proc p (\<lambda>x. x\<lparr>p_chan := None\<rparr>) s)"
    by (rule ptable_ok_upd [OF assms(1)]) (use assms(3) in \<open>auto simp: live_def slot_ok_def\<close>)
  then show ?thesis
    using assms(2) unfolding sleep_resume_def
    by (auto simp: upd_cur_def Let_def intro!: ensures_seq [where Q = "\<lambda>_. True"])
qed

lemma scheduler_run_ok:
  assumes "ptable_ok s" "scheduler_pick i s = Some p"
  shows "\<exists>t. scheduler_run p s = Done t \<and> ptable_ok t"
proof -
  have p: "p < NPROC" "p_state (ptable s p) = RUNNABLE"
    using assms(2) find_SomeD by (fastforce simp: scheduler_pick_def split: option.splits)+
  then have d: "p_pgdir (ptable s p) \<noteq> 0" using assms(1) by (auto simp: ptable_ok_def slot_ok_def)
  define u where "u = s\<lparr>cur := Some p, cr3 := v2p (p_pgdir (ptable s p))\<rparr>"
  have "ptable_ok u" by (rule ptable_ok_same [OF assms(1)]) (simp_all add: u_def)
  then have "ptable_ok (upd_proc p (\<lambda>x. x\<lparr>p_state := RUNNING\<rparr>) u)"
    by (rule ptable_ok_upd) (use p in \<open>auto simp: u_def live_def slot_ok_def\<close>)
  then show ?thesis using d by (simp add: scheduler_run_def switchuvm_def u_def)
qed

section \<open>The first process\<close>

text \<open>The table as it is when the kernel starts, and with the first process made.\<close>

definition blank :: "proc \<Rightarrow> bool" where
  "blank x \<longleftrightarrow> p_state x = UNUSED \<and> p_kstack x = 0 \<and> p_parent x = None"

definition booted :: "kstate \<Rightarrow> bool" where
  "booted s \<longleftrightarrow> (\<exists>i<NPROC. initproc s = Some i \<and> p_state (ptable s i) = RUNNABLE \<and> p_kstack (ptable s i) \<noteq> 0 \<and>
     p_pgdir (ptable s i) \<noteq> 0 \<and> p_parent (ptable s i) = None \<and> (\<forall>q<NPROC. q \<noteq> i \<longrightarrow> blank (ptable s q)))"

lemma booted_ok: "booted s \<Longrightarrow> ptable_ok s"
  unfolding booted_def ptable_ok_def
proof (elim exE conjE, intro conjI allI impI)
  fix i p
  assume i: "i < NPROC" "initproc s = Some i" "p_state (ptable s i) = RUNNABLE" "p_kstack (ptable s i) \<noteq> 0"
     "p_pgdir (ptable s i) \<noteq> 0" "p_parent (ptable s i) = None" "\<forall>q<NPROC. q \<noteq> i \<longrightarrow> blank (ptable s q)"
  then show "slot_ok (ptable s p)" if "p < NPROC" using that by (cases "p = i") (auto simp: slot_ok_def blank_def)
  show "\<exists>i. initproc s = Some i \<and> i < NPROC \<and> live (ptable s i)" using i by (auto simp: live_def)
  fix q
  show "q < NPROC" "live (ptable s q)" if "p < NPROC" "p_parent (ptable s p) = Some q"
    using that i by (cases "p = i"; auto simp: blank_def)+
qed

lemma namei_root: "ensures (namei devsw 0 [47] s) (\<lambda>(ip, t). fs_state.more t = fs_state.more s)"
proof -
  have i: "ensures (iget d n s) (\<lambda>(ip, t). fs_state.more t = fs_state.more s)" for d n
    by (auto simp: iget_def split: option.splits)
  show ?thesis
    by (auto simp: namei_def namex_def namex_loop.simps skipelem_def obind_assoc split_beta intro!: ensures_seq [OF i])
qed

lemma userinit_booted:
  assumes "\<forall>p<NPROC. blank (ptable s p)"
  shows "ensures (userinit code s) booted"
proof -
  obtain r t where a: "allocproc s = (r, t)" by fastforce
  show ?thesis
  proof (cases r)
    case None
    then show ?thesis using a by (simp add: userinit_def)
  next
    case (Some p)
    note b = allocproc_Some [OF a [unfolded Some]]
    define k where "k = p_kstack (ptable t p)"
    have "p_parent (ptable s p) = None" using assms b(1) by (auto simp: blank_def born_def)
    then have f: "booted (upd_proc p (\<lambda>x. x\<lparr>p_cwd := ip, p_state := RUNNABLE\<rparr>) u)" if "child p k d None (s\<lparr>initproc := Some p\<rparr>) u" "d \<noteq> 0" for u d ip
      using that assms b(2) by (auto simp: booted_def child_def born_def upd_proc_def k_def)
    have c0: "child p k d None (s\<lparr>initproc := Some p\<rparr>) (upd_proc p (\<lambda>x. x\<lparr>p_pgdir := d\<rparr>) u)"
      if "ptable u = ptable t" "cur u = cur t" "initproc u = Some p" for u d
      using that b \<open>p_parent (ptable s p) = None\<close> by (simp add: child_def born_def upd_proc_def k_def)
    have more: "child p k d None w v" if "fs_state.more v = fs_state.more u" "child p k d None w u" for u v w d
      using that by (cases u, cases v) (simp add: child_def born_def)
    have last: "ensures (obind (namei devsw_table 0 [47] u) (\<lambda>(ip, s). Done (upd_proc p (\<lambda>x. x\<lparr>p_cwd := ip, p_state := RUNNABLE\<rparr>) s))) booted"
      if "child p k d None (s\<lparr>initproc := Some p\<rparr>) u" "d \<noteq> 0" for u d
      by (rule ensures_seq [OF namei_root]) (auto intro: f [OF more [OF _ that(1)] that(2)])
    have km: "ensures (obind (on_km' g u) (\<lambda>s. obind (namei devsw_table 0 [47] (upd_proc p (set_name nm) (upd_proc p (\<lambda>x. x\<lparr>p_sz := z, p_tf := tf\<rparr>) s)))
        (\<lambda>(ip, s). Done (upd_proc p (\<lambda>x. x\<lparr>p_cwd := ip, p_state := RUNNABLE\<rparr>) s)))) booted"
      if "child p k d None (s\<lparr>initproc := Some p\<rparr>) u" "d \<noteq> 0" for u d g nm z tf
      by (rule ensures_seq [OF on_km'_ptable], rule last [OF _ that(2)], intro child_upd child_same [OF that(1)])
        (auto simp: set_name_def)
    show ?thesis
      unfolding userinit_def a Some option.case prod.case Let_def
      by (rule ensures_seq [OF on_km_ptable]) (auto intro!: km c0)
  qed
qed

section \<open>All operations in any order\<close>

definition running :: "kstate \<Rightarrow> nat \<Rightarrow> bool" where
  "running s p \<longleftrightarrow> cur s = Some p \<and> p < NPROC \<and> p_state (ptable s p) = RUNNING"

text \<open>
  The calls of \<open>kern/proc.c\<close>: by the running process, by the scheduler when no process runs, and by
  interrupt handlers at any time.
\<close>

inductive proc_step :: "kstate \<Rightarrow> kstate \<Rightarrow> bool" where
  do_fork: "running s p \<Longrightarrow> fork s = Done (r, t) \<Longrightarrow> proc_step s t"
| do_exit: "running s p \<Longrightarrow> exit v s = Done t \<Longrightarrow> proc_step s t"
| do_wait: "running s p \<Longrightarrow> wait st s = Done (r, t) \<Longrightarrow> proc_step s t"
| do_growproc: "running s p \<Longrightarrow> growproc n s = Done (r, t) \<Longrightarrow> proc_step s t"
| do_kill: "kill pid s = (r, t) \<Longrightarrow> proc_step s t"
| do_wakeup: "proc_step s (wakeup ch s)"
| do_yield: "running s p \<Longrightarrow> yield c pt rd v (m :: nat smp) s = Done (m', t) \<Longrightarrow> proc_step s t"
| do_sleep: "running s p \<Longrightarrow> sleep c pt rd v ch lk (m :: nat smp) s = Done (m', t) \<Longrightarrow> proc_step s t"
| do_resume: "running s p \<Longrightarrow> sleep_resume c pt rd v l (m :: nat smp) s = Done (m', t) \<Longrightarrow> proc_step s t"
| do_run: "scheduler_pick i s = Some p \<Longrightarrow> scheduler_run p s = Done t \<Longrightarrow> proc_step s t"
| do_back: "proc_step s (scheduler_back s)"

inductive proc_reach :: "kstate \<Rightarrow> bool" where
  boot: "booted s \<Longrightarrow> proc_reach s"
| step: "proc_reach s \<Longrightarrow> proc_step s t \<Longrightarrow> proc_reach t"

lemma proc_step_ok: "proc_step s t \<Longrightarrow> ptable_ok s \<Longrightarrow> ptable_ok t"
proof (induction rule: proc_step.induct)
  case (do_fork s p r t)
  then show ?case using ensuresD [OF fork_ok] by (fastforce simp: running_def)
next
  case (do_exit s p v t)
  then show ?case using ensuresD [OF exit_ok] by (fastforce simp: running_def)
next
  case (do_wait s p st r t)
  then show ?case using ensuresD [OF wait_ok] by fastforce
next
  case (do_growproc s p n r t)
  then show ?case using ensuresD [OF growproc_woken] woken_ok by fastforce
next
  case (do_kill pid s r t)
  then show ?case using kill_ok [of s pid] by simp
next
  case (do_wakeup s ch)
  then show ?case using woken_ok wakeup_woken by blast
next
  case (do_yield s p c pt rd v m m' t)
  then show ?case using ensuresD [OF yield_ok] by (fastforce simp: running_def)
next
  case (do_sleep s p c pt rd v ch lk m m' t)
  then show ?case using ensuresD [OF sleep_ok] by (fastforce simp: running_def)
next
  case (do_resume s p c pt rd v l m m' t)
  then show ?case using ensuresD [OF sleep_resume_ok] by (fastforce simp: running_def)
next
  case (do_run i s p t)
  then show ?case using scheduler_run_ok by fastforce
next
  case (do_back s)
  then show ?case by (rule ptable_ok_same) (simp_all add: scheduler_back_def switchkvm_def)
qed

lemma proc_reach_ok: "proc_reach s \<Longrightarrow> ptable_ok s"
  by (induction rule: proc_reach.induct) (auto intro: booted_ok proc_step_ok)


definition demo_boot_kernel :: kstate where
  "demo_boot_kernel = demo_kernel\<lparr>ptable := (\<lambda>_. demo_unused)(0 := demo_proc)\<rparr>"


end
