(* ===== verification/Clock.thy ===== *)
theory Clock
  imports Xv6_Prelude
begin

text \<open>
  The real-time clock, the last part of \<open>kern/lapic.c\<close>. The clock is a device that changes on its own:
  \<open>rtc t r\<close> is the byte that register \<open>r\<close> delivers at the \<open>t\<close>-th access, and every access advances \<open>t\<close>.
\<close>

section \<open>Reading the registers\<close>

type_synonym rtc = "nat \<Rightarrow> u32 \<Rightarrow> u8"

record rtcdate =
  second :: u32
  minute :: u32
  hour :: u32
  day :: u32
  month :: u32
  year :: u32

definition CMOS_STATA :: u32 where "CMOS_STATA = 0x0a"
definition CMOS_STATB :: u32 where "CMOS_STATB = 0x0b"
definition CMOS_UIP :: u32 where "CMOS_UIP = 0x80"
definition SECS :: u32 where "SECS = 0"
definition MINS :: u32 where "MINS = 2"
definition HOURS :: u32 where "HOURS = 4"
definition DAY :: u32 where "DAY = 7"
definition MONTH :: u32 where "MONTH = 8"
definition YEAR :: u32 where "YEAR = 9"

definition cmos_read :: "rtc \<Rightarrow> u32 \<Rightarrow> nat \<Rightarrow> u32 \<times> nat" where
  "cmos_read rtc reg t = (ucast (rtc t reg), Suc t)"

definition fill_rtcdate :: "rtc \<Rightarrow> nat \<Rightarrow> rtcdate \<times> nat" where
  "fill_rtcdate rtc t =
     (let (s, t) = cmos_read rtc SECS t;
          (m, t) = cmos_read rtc MINS t;
          (h, t) = cmos_read rtc HOURS t;
          (d, t) = cmos_read rtc DAY t;
          (mo, t) = cmos_read rtc MONTH t;
          (y, t) = cmos_read rtc YEAR t
      in (\<lparr>second = s, minute = m, hour = h, day = d, month = mo, year = y\<rparr>, t))"

text \<open>The loop of \<open>cmostime\<close>, which repeats until two readings agree; it may run for ever.\<close>

partial_function (option) cmos_loop :: "rtc \<Rightarrow> nat \<Rightarrow> rtcdate option" where
  "cmos_loop rtc t =
     (case fill_rtcdate rtc t of (t1, t) \<Rightarrow>
      case cmos_read rtc CMOS_STATA t of (st, t) \<Rightarrow>
        if st AND CMOS_UIP \<noteq> 0 then cmos_loop rtc t
        else case fill_rtcdate rtc t of (t2, t) \<Rightarrow>
          if t1 = t2 then Some t1 else cmos_loop rtc t)"

definition conv :: "u32 \<Rightarrow> u32" where
  "conv x = drop_bit 4 x * 10 + (x AND 0xf)"

definition cmostime :: "rtc \<Rightarrow> nat \<Rightarrow> rtcdate option" where
  "cmostime rtc t =
     (case cmos_read rtc CMOS_STATB t of (st, t) \<Rightarrow>
      case cmos_loop rtc t of
        None \<Rightarrow> None
      | Some t1 \<Rightarrow>
          let t1 = (if st AND 4 = 0
                    then \<lparr>second = conv (second t1), minute = conv (minute t1), hour = conv (hour t1),
                          day = conv (day t1), month = conv (month t1), year = conv (year t1)\<rparr>
                    else t1)
          in Some (t1\<lparr>year := year t1 + 2000\<rparr>))"

section \<open>Seconds since the epoch\<close>

definition isleap :: "nat \<Rightarrow> bool" where "isleap yr \<longleftrightarrow> yr mod 4 = 0"
definition S_INDAY :: u32 where "S_INDAY = 86400"
definition S_INHOUR :: u32 where "S_INHOUR = 3600"
definition S_INMIN :: u32 where "S_INMIN = 60"

definition secs_to_mon :: "u32 list" where
  "secs_to_mon = [0, 0, 31 * S_INDAY, (31 + 28) * S_INDAY, (31 + 28 + 31) * S_INDAY, (31 + 28 + 31 + 30) * S_INDAY,
     (31 + 28 + 31 + 30 + 31) * S_INDAY, (31 + 28 + 31 + 30 + 31 + 30) * S_INDAY,
     (31 + 28 + 31 + 30 + 31 + 30 + 31) * S_INDAY, (31 + 28 + 31 + 30 + 31 + 30 + 31 + 31) * S_INDAY,
     (31 + 28 + 31 + 30 + 31 + 30 + 31 + 31 + 30) * S_INDAY,
     (31 + 28 + 31 + 30 + 31 + 30 + 31 + 31 + 30 + 31) * S_INDAY,
     (31 + 28 + 31 + 30 + 31 + 30 + 31 + 31 + 30 + 31 + 30) * S_INDAY]"

text \<open>The loop over the years before \<open>y\<close>, and the value of the loop variable behind it.\<close>

definition year_secs :: "nat \<Rightarrow> u32" where
  "year_secs y = fold (\<lambda>i tval. tval + (if isleap i then 366 * S_INDAY else 365 * S_INDAY)) [1970..<y] 0"

text \<open>An index outside of \<open>secs_to_mon\<close> is an error of the model.\<close>

definition mktime :: "rtcdate \<Rightarrow> u32 option" where
  "mktime gmt =
     (if unat (month gmt) \<ge> length secs_to_mon then None
      else
        let i = max 1970 (unat (year gmt));
            tval = year_secs (unat (year gmt));
            tval = (if isleap i \<and> month gmt > 2 then tval + S_INDAY else tval);
            tval = tval + secs_to_mon ! unat (month gmt);
            tval = tval + day gmt * S_INDAY;
            tval = tval + hour gmt * S_INHOUR;
            tval = tval + minute gmt * S_INMIN
        in Some (tval + second gmt))"

definition sys_time :: "rtc \<Rightarrow> nat \<Rightarrow> u32 option" where
  "sys_time rtc t = (case cmostime rtc t of None \<Rightarrow> None | Some r \<Rightarrow> mktime r)"

section \<open>The loop returns\<close>

text \<open>
  One round of the loop makes 13 accesses at most, so a stretch of 26 accesses during which the registers
  stand still and no update is reported contains a whole round.
\<close>

definition steady :: "rtc \<Rightarrow> nat \<Rightarrow> (u32 \<Rightarrow> u8) \<Rightarrow> bool" where
  "steady rtc t regs \<longleftrightarrow> (\<forall>i<26. rtc (t + i) = regs) \<and> ucast (regs CMOS_STATA) AND CMOS_UIP = 0"

definition reading :: "rtc \<Rightarrow> nat \<Rightarrow> rtcdate" where
  "reading rtc t = \<lparr>second = ucast (rtc t SECS), minute = ucast (rtc (t + 1) MINS), hour = ucast (rtc (t + 2) HOURS),
     day = ucast (rtc (t + 3) DAY), month = ucast (rtc (t + 4) MONTH), year = ucast (rtc (t + 5) YEAR)\<rparr>"

lemma fill_rtcdate_reading: "fill_rtcdate rtc t = (reading rtc t, t + 6)"
  by (simp add: fill_rtcdate_def cmos_read_def reading_def eval_nat_numeral)

text \<open>What the loop returns: a reading that was repeated, with no update reported in between.\<close>

definition agreed :: "rtc \<Rightarrow> nat \<Rightarrow> rtcdate \<Rightarrow> bool" where
  "agreed rtc u d \<longleftrightarrow> reading rtc u = d \<and> reading rtc (u + 7) = d \<and> ucast (rtc (u + 6) CMOS_STATA) AND CMOS_UIP = 0"

lemma cmos_loop_unfold:
  "cmos_loop rtc t =
     (if ucast (rtc (t + 6) CMOS_STATA) AND CMOS_UIP \<noteq> 0 then cmos_loop rtc (t + 7)
      else if reading rtc t = reading rtc (t + 7) then Some (reading rtc t) else cmos_loop rtc (t + 13))"
  by (subst cmos_loop.simps) (simp add: fill_rtcdate_reading cmos_read_def eval_nat_numeral)

lemma cmos_loop_returns:
  assumes "steady rtc T regs" "t \<le> T + 12"
  shows "\<exists>u d. t \<le> u \<and> cmos_loop rtc t = Some d \<and> agreed rtc u d"
  using assms(2)
proof (induction "T + 13 - t" arbitrary: t rule: less_induct)
  case less
  show ?case
  proof (cases "T \<le> t")
    case True
    then obtain k where k: "t = T + k" "k \<le> 12" using less.prems by (metis le_add_diff_inverse nat_add_left_cancel_le)
    have s: "rtc (t + i) = regs" if "i \<le> 12" for i
      using assms(1) k that by (simp add: steady_def add.assoc)
    have "reading rtc t = reading rtc (t + 7)"
      using s [of 0] s [of 1] s [of 2] s [of 3] s [of 4] s [of 5] s [of 7] s [of 8] s [of 9] s [of 10] s [of 11] s [of 12]
      by (simp add: reading_def eval_nat_numeral)
    moreover have "ucast (rtc (t + 6) CMOS_STATA) AND CMOS_UIP = 0" using assms(1) s [of 6] by (simp add: steady_def)
    ultimately show ?thesis
      by (intro exI [of _ t] exI [of _ "reading rtc t"]) (simp add: cmos_loop_unfold [of rtc t] agreed_def)
  next
    case False
    have IH: "\<exists>u d. t \<le> u \<and> cmos_loop rtc (t + k) = Some d \<and> agreed rtc u d" if "k = 7 \<or> k = 13" for k
    proof -
      have "T + 13 - (t + k) < T + 13 - t" "t + k \<le> T + 12" using False that by auto
      then show ?thesis using less.hyps [of "t + k"] by (meson le_add1 le_trans)
    qed
    show ?thesis
      using IH [of 7] IH [of 13] by (subst cmos_loop_unfold) (auto simp: agreed_def intro: exI [of _ t])
  qed
qed

section \<open>Days\<close>

text \<open>The calendar, and the seconds since the beginning of 1970.\<close>

definition leap :: "nat \<Rightarrow> bool" where
  "leap y \<longleftrightarrow> y mod 4 = 0 \<and> (y mod 100 \<noteq> 0 \<or> y mod 400 = 0)"

definition days_in :: "nat \<Rightarrow> nat list" where
  "days_in y = [31, if leap y then 29 else 28, 31, 30, 31, 30, 31, 31, 30, 31, 30, 31]"

definition days_since_epoch :: "nat \<Rightarrow> nat \<Rightarrow> nat \<Rightarrow> nat" where
  "days_since_epoch y m d = (\<Sum>i\<in>{1970..<y}. if leap i then 366 else 365) + sum_list (take (m - 1) (days_in y)) + (d - 1)"

definition epoch_seconds :: "rtcdate \<Rightarrow> nat" where
  "epoch_seconds r = 86400 * days_since_epoch (unat (year r)) (unat (month r)) (unat (day r)) +
     3600 * unat (hour r) + 60 * unat (minute r) + unat (second r)"

definition valid_date :: "rtcdate \<Rightarrow> bool" where
  "valid_date r \<longleftrightarrow> 1970 \<le> unat (year r) \<and> unat (year r) < 2100 \<and> 1 \<le> unat (month r) \<and> unat (month r) \<le> 12 \<and>
     1 \<le> unat (day r) \<and> unat (day r) \<le> days_in (unat (year r)) ! (unat (month r) - 1) \<and>
     unat (hour r) < 24 \<and> unat (minute r) < 60 \<and> unat (second r) < 60"

lemma leap_isleap: "1970 \<le> y \<Longrightarrow> y < 2100 \<Longrightarrow> leap y = isleap y"
proof -
  assume y: "1970 \<le> y" "y < 2100"
  have "y mod 100 = 0 \<Longrightarrow> y = 2000" using y by presburger
  then show ?thesis by (cases "y = 2000") (auto simp: leap_def isleap_def)
qed

lemma year_secs_days: "y \<le> 2100 \<Longrightarrow> year_secs y = of_nat (86400 * (\<Sum>i\<in>{1970..<y}. if leap i then 366 else 365))"
proof (induction y)
  case (Suc y)
  show ?case
  proof (cases "1970 \<le> y")
    case True
    then have "year_secs (Suc y) = year_secs y + (if isleap y then 366 * S_INDAY else 365 * S_INDAY)"
      by (simp add: year_secs_def)
    then show ?thesis
      using Suc True leap_isleap [OF True] by (auto simp: sum.atLeastLessThan_Suc S_INDAY_def algebra_simps)
  qed (simp add: year_secs_def)
qed (simp add: year_secs_def)

lemma month_secs:
  assumes "1 \<le> m" "m \<le> 12"
  shows "(if leap y \<and> 2 < m then S_INDAY else 0) + secs_to_mon ! m = of_nat (86400 * sum_list (take (m - 1) (days_in y)))"
proof -
  have "m = 1 \<or> m = 2 \<or> m = 3 \<or> m = 4 \<or> m = 5 \<or> m = 6 \<or> m = 7 \<or> m = 8 \<or> m = 9 \<or> m = 10 \<or> m = 11 \<or> m = 12"
    using assms by presburger
  then show ?thesis by (elim disjE; simp add: secs_to_mon_def days_in_def S_INDAY_def)
qed

lemma mktime_word:
  assumes "valid_date r"
  shows "mktime r = Some (of_nat (epoch_seconds r + 86400))"
proof -
  let ?y = "unat (year r)" and ?m = "unat (month r)"
  have v: "1970 \<le> ?y" "?y < 2100" "1 \<le> ?m" "?m \<le> 12" "1 \<le> unat (day r)" using assms by (simp_all add: valid_date_def)
  have l: "length secs_to_mon = 13" by (simp add: secs_to_mon_def)
  have g: "month r > 2 \<longleftrightarrow> 2 < ?m" by (simp add: word_less_nat_alt)
  define k where "k = unat (day r) - 1"
  have d: "day r = 1 + of_nat k" using v(5) by (simp add: k_def of_nat_diff)
  have "mktime r = Some (year_secs ?y + ((if leap ?y \<and> 2 < ?m then S_INDAY else 0) + secs_to_mon ! ?m) +
      day r * S_INDAY + hour r * S_INHOUR + minute r * S_INMIN + second r)"
    using v l leap_isleap [OF v(1,2)] by (simp add: mktime_def Let_def g max_def)
  also have "\<dots> = Some (of_nat (epoch_seconds r + 86400))"
    unfolding month_secs [OF v(3,4)] year_secs_days [OF less_imp_le [OF v(2)]] epoch_seconds_def days_since_epoch_def
      k_def [symmetric]
    by (subst d) (simp add: S_INDAY_def S_INHOUR_def S_INMIN_def algebra_simps)
  finally show ?thesis .
qed

lemma epoch_seconds_bound:
  assumes "valid_date r"
  shows "epoch_seconds r + 86400 < 2 ^ 32"
proof -
  let ?y = "unat (year r)" and ?m = "unat (month r)"
  have v: "1970 \<le> ?y" "?y < 2100" "1 \<le> ?m" "?m \<le> 12" "unat (day r) \<le> days_in ?y ! (?m - 1)" "unat (hour r) < 24"
    "unat (minute r) < 60" "unat (second r) < 60"
    using assms by (simp_all add: valid_date_def)
  have "(\<Sum>i\<in>{1970..<?y}. if leap i then 366 else 365) \<le> (\<Sum>i\<in>{1970..<?y}. 366 :: nat)" by (rule sum_mono) simp
  also have "\<dots> \<le> 366 * 130" using v(2) by simp
  finally have a: "(\<Sum>i\<in>{1970..<?y}. if leap i then 366 else 365) \<le> 366 * (130 :: nat)" .
  have "sum_list (take (?m - 1) (days_in ?y)) + sum_list (drop (?m - 1) (days_in ?y)) = sum_list (days_in ?y)"
    by (metis append_take_drop_id sum_list_append)
  moreover have "sum_list (days_in ?y) \<le> 366" by (simp add: days_in_def)
  ultimately have b: "sum_list (take (?m - 1) (days_in ?y)) \<le> 366" by linarith
  have "?m - 1 < length (days_in ?y)" using v(3,4) by (simp add: days_in_def)
  then have "days_in ?y ! (?m - 1) \<in> set (days_in ?y)" by (rule nth_mem)
  then have "days_in ?y ! (?m - 1) \<le> 31" by (auto simp: days_in_def split: if_splits)
  then have c: "days_since_epoch ?y ?m (unat (day r)) \<le> 47977" using a b v(5) unfolding days_since_epoch_def by linarith
  have "epoch_seconds r + 86400 \<le> 86400 * 47977 + 3600 * 24 + 60 * 60 + 60 + 86400"
    using c v(6-8) unfolding epoch_seconds_def by linarith
  then show ?thesis by simp
qed

section \<open>Properties\<close>

text \<open>
  C33: reading the clock ends. If the registers ever stand still for 26 accesses with no update in
  progress, \<open>cmostime\<close> returns, and the date it converts was read twice with the same result and no update
  in between.
\<close>

theorem cmostime_returns:
  assumes "steady rtc T regs" "Suc t \<le> T"
  shows "\<exists>u d r. t < u \<and> cmos_loop rtc (Suc t) = Some d \<and> agreed rtc u d \<and> cmostime rtc t = Some r"
proof -
  obtain u d where u: "Suc t \<le> u" "cmos_loop rtc (Suc t) = Some d" "agreed rtc u d"
    using cmos_loop_returns [OF assms(1), of "Suc t"] assms(2) by auto
  then have "t < u" "\<exists>r. cmostime rtc t = Some r" by (simp_all add: cmostime_def cmos_read_def Let_def)
  then show ?thesis using u by blast
qed

text \<open>A clock that counts seconds and reports an update at one access in a hundred.\<close>

definition demo_rtc :: rtc where
  "demo_rtc t reg = (if reg = SECS then of_nat (t div 100) else if reg = CMOS_STATA then (if t mod 100 = 99 then 0x80 else 0) else 1)"

theorem cmostime_returns_witness: "\<exists>r. cmostime demo_rtc 0 = Some r"
proof -
  have "(1 + i) div 100 = 0" "(1 + i) mod 100 \<noteq> 99" if "i < 26" for i :: nat using that by auto
  then have "steady demo_rtc 1 (demo_rtc 1)"
    by (auto simp: steady_def demo_rtc_def fun_eq_iff CMOS_STATA_def SECS_def)
  from cmostime_returns [OF this, of 0] show ?thesis by auto
qed



end
