(* ===== verification/Ide.thy ===== *)
theory Ide
  imports Bio
begin

text \<open>
  The disk driver of \<open>kern/ide.c\<close>: the queue of requests, linked through \<open>qnext\<close>, and the programming of
  the controller. What the driver writes to the ports of the controller is kept in \<open>ports\<close>; what it reads
  from them are arguments: \<open>st i\<close> is the status that the \<open>i\<close>-th reading of port 0x1f7 gives, \<open>din\<close> the words
  that \<open>insl\<close> fetches. The lock \<open>idelock\<close> makes each function atomic.
\<close>

section \<open>State\<close>

record ide_buf = buf +
  qnext :: "nat option"

datatype port_op = Outb u16 u8 | Outsl u16 bytes

record ide =
  ibufs :: "nat \<Rightarrow> ide_buf"
  idequeue :: "nat option"
  havedisk1 :: bool
  ports :: "port_op list"

definition SECTOR_SIZE :: nat where "SECTOR_SIZE = 512"
definition IDE_BSY :: u8 where "IDE_BSY = 0x80"
definition IDE_DRDY :: u8 where "IDE_DRDY = 0x40"
definition IDE_DF :: u8 where "IDE_DF = 0x20"
definition IDE_ERR :: u8 where "IDE_ERR = 0x01"
definition IDE_CMD_READ :: u8 where "IDE_CMD_READ = 0x20"
definition IDE_CMD_WRITE :: u8 where "IDE_CMD_WRITE = 0x30"
definition IDE_CMD_RDMUL :: u8 where "IDE_CMD_RDMUL = 0xC4"
definition IDE_CMD_WRMUL :: u8 where "IDE_CMD_WRMUL = 0xC5"

definition upd_ibuf :: "nat \<Rightarrow> (ide_buf \<Rightarrow> ide_buf) \<Rightarrow> ide \<Rightarrow> ide" where
  "upd_ibuf b f s = s\<lparr>ibufs := (ibufs s)(b := f (ibufs s b))\<rparr>"

definition out :: "port_op list \<Rightarrow> ide \<Rightarrow> ide" where
  "out ps s = s\<lparr>ports := ports s @ ps\<rparr>"

section \<open>Operations\<close>

text \<open>\<open>idewait\<close> reads the status until the disk is ready; with a disk that never is, it does not return.\<close>

partial_function (option) idewait_loop :: "(nat \<Rightarrow> u8) \<Rightarrow> nat \<Rightarrow> u8 option" where
  "idewait_loop st i = (if st i AND (IDE_BSY OR IDE_DRDY) \<noteq> IDE_DRDY then idewait_loop st (i + 1) else Some (st i))"

definition idewait :: "bool \<Rightarrow> (nat \<Rightarrow> u8) \<Rightarrow> int outcome" where
  "idewait checkerr st =
     (case idewait_loop st 0 of
        None \<Rightarrow> Diverge
      | Some r \<Rightarrow> Done (if checkerr \<and> r AND (IDE_DF OR IDE_ERR) \<noteq> 0 then -1 else 0))"

text \<open>\<open>ideinit\<close>: \<open>st1\<close> are the readings of the loop that looks for disk 1.\<close>

definition ideinit :: "(nat \<Rightarrow> u8) \<Rightarrow> (nat \<Rightarrow> u8) \<Rightarrow> ide \<Rightarrow> ide outcome" where
  "ideinit st st1 s =
     obind (idewait False st) (\<lambda>_.
       let s = out [Outb 0x1f6 (0xe0 OR push_bit 4 1)] s;
           s = (if \<exists>i \<in> set [0..<1000]. st1 i \<noteq> 0 then s\<lparr>havedisk1 := True\<rparr> else s)
       in Done (out [Outb 0x1f6 (0xe0 OR push_bit 4 0)] s))"

definition idestart :: "nat option \<Rightarrow> (nat \<Rightarrow> u8) \<Rightarrow> ide \<Rightarrow> ide outcome" where
  "idestart q st s =
     (case q of
        None \<Rightarrow> Panic ''idestart''
      | Some b \<Rightarrow>
          let bf = ibufs s b in
          if unat (blockno bf) \<ge> FSSIZE then Panic ''incorrect blockno''
          else
            let sector_per_block = BSIZE div SECTOR_SIZE;
                sector = blockno bf * of_nat sector_per_block;
                read_cmd = (if sector_per_block = 1 then IDE_CMD_READ else IDE_CMD_RDMUL);
                write_cmd = (if sector_per_block = 1 then IDE_CMD_WRITE else IDE_CMD_WRMUL)
            in if sector_per_block > 7 then Panic ''idestart''
               else
                 obind (idewait False st) (\<lambda>_.
                   let s = out [Outb 0x3f6 0, Outb 0x1f2 (of_nat sector_per_block), Outb 0x1f3 (ucast (sector AND 0xff)),
                         Outb 0x1f4 (ucast (drop_bit 8 sector AND 0xff)), Outb 0x1f5 (ucast (drop_bit 16 sector AND 0xff)),
                         Outb 0x1f6 (0xe0 OR push_bit 4 (ucast (dev bf AND 1)) OR ucast (drop_bit 24 sector AND 0x0f))] s
                   in if B_DIRTY \<in> flags bf then Done (out [Outb 0x1f7 write_cmd, Outsl 0x1f0 (data bf)] s)
                      else Done (out [Outb 0x1f7 read_cmd] s)))"

text \<open>The interrupt handler; the result is the buffer whose process it wakes.\<close>

definition ideintr :: "(nat \<Rightarrow> u8) \<Rightarrow> bytes \<Rightarrow> (nat \<Rightarrow> u8) \<Rightarrow> ide \<Rightarrow> (nat option \<times> ide) outcome" where
  "ideintr st din st' s =
     (case idequeue s of
        None \<Rightarrow> Done (None, s)
      | Some b \<Rightarrow>
          let s = s\<lparr>idequeue := qnext (ibufs s b)\<rparr> in
          obind (if B_DIRTY \<notin> flags (ibufs s b)
                 then obind (idewait True st) (\<lambda>r. Done (if r \<ge> 0 then upd_ibuf b (\<lambda>x. x\<lparr>data := din\<rparr>) s else s))
                 else Done s) (\<lambda>s.
            let s = upd_ibuf b (\<lambda>x. x\<lparr>flags := insert B_VALID (flags x)\<rparr>) s;
                s = upd_ibuf b (\<lambda>x. x\<lparr>flags := flags x - {B_DIRTY}\<rparr>) s
            in obind (if idequeue s \<noteq> None then idestart (idequeue s) st' s else Done s) (\<lambda>s. Done (Some b, s))))"

text \<open>The walk of \<open>iderw\<close> to the last buffer of the queue.\<close>

partial_function (option) ide_last :: "(nat \<Rightarrow> ide_buf) \<Rightarrow> nat \<Rightarrow> nat option" where
  "ide_last bs b = (case qnext (bs b) of None \<Rightarrow> Some b | Some c \<Rightarrow> ide_last bs c)"

text \<open>\<open>iderw\<close> up to its waiting loop.\<close>

definition iderw_request :: "nat \<Rightarrow> (nat \<Rightarrow> u8) \<Rightarrow> ide \<Rightarrow> ide outcome" where
  "iderw_request b st s =
     (let bf = ibufs s b in
      if B_BUSY \<notin> flags bf then Panic ''iderw: buf not busy''
      else if flags bf \<inter> {B_VALID, B_DIRTY} = {B_VALID} then Panic ''iderw: nothing to do''
      else if dev bf \<noteq> 0 \<and> \<not> havedisk1 s then Panic ''iderw: ide disk 1 not present''
      else
        let s = upd_ibuf b (\<lambda>x. x\<lparr>qnext := None\<rparr>) s in
        obind (case idequeue s of
                 None \<Rightarrow> Done (s\<lparr>idequeue := Some b\<rparr>)
               | Some h \<Rightarrow>
                   (case ide_last (ibufs s) h of
                      None \<Rightarrow> Diverge
                    | Some l \<Rightarrow> Done (upd_ibuf l (\<lambda>x. x\<lparr>qnext := Some b\<rparr>) s))) (\<lambda>s.
        if idequeue s = Some b then idestart (Some b) st s else Done s))"

text \<open>Its waiting loop: one round.\<close>

definition iderw_wait :: "nat \<Rightarrow> ide \<Rightarrow> ide outcome" where
  "iderw_wait b s = (if flags (ibufs s b) \<inter> {B_VALID, B_DIRTY} \<noteq> {B_VALID} then Sleep (Chan_Buf b) else Done s)"

section \<open>The queue as a list\<close>

lemma upd_ibuf_fields [simp]:
  "upd_ibuf b g (upd_ibuf b f s) = upd_ibuf b (\<lambda>x. g (f x)) s" "idequeue (upd_ibuf b f s) = idequeue s"
  "ports (upd_ibuf b f s) = ports s" "ibufs (upd_ibuf b f s) c = (if c = b then f (ibufs s b) else ibufs s c)"
  by (simp_all add: upd_ibuf_def)

lemma upd_ibuf_cong: "f (ibufs s b) = g (ibufs s b) \<Longrightarrow> upd_ibuf b f s = upd_ibuf b g s"
  by (simp add: upd_ibuf_def)

fun queued :: "(nat \<Rightarrow> ide_buf) \<Rightarrow> nat option \<Rightarrow> nat list \<Rightarrow> bool" where
  "queued bs p [] \<longleftrightarrow> p = None"
| "queued bs p (b # q) \<longleftrightarrow> p = Some b \<and> queued bs (qnext (bs b)) q"

lemma queued_upd: "b \<notin> set q \<Longrightarrow> queued (bs(b := x)) p q = queued bs p q"
  by (induction q arbitrary: p) auto

lemma queued_same: "qnext x = qnext (bs b) \<Longrightarrow> queued (bs(b := x)) p q = queued bs p q"
  by (induction q arbitrary: p) auto

lemma queued_last: "queued bs (Some h) (q @ [l]) \<Longrightarrow> ide_last bs h = Some l"
proof (induction q arbitrary: h)
  case Nil
  then show ?case by (simp add: ide_last.simps)
next
  case (Cons b q)
  then obtain c where "qnext (bs b) = Some c" by (cases q) auto
  then show ?case using Cons by (simp add: ide_last.simps [of bs b])
qed

lemma queued_snoc:
  "queued bs p (q @ [l]) \<Longrightarrow> distinct (q @ [l, b]) \<Longrightarrow> qnext (bs b) = None \<Longrightarrow>
   queued (bs(l := (bs l)\<lparr>qnext := Some b\<rparr>)) p (q @ [l, b])"
  by (induction q arbitrary: p) auto

section \<open>The controller becomes ready\<close>

definition ready :: "(nat \<Rightarrow> u8) \<Rightarrow> bool" where
  "ready st \<longleftrightarrow> (\<exists>i. st i AND (IDE_BSY OR IDE_DRDY) = IDE_DRDY)"

lemma idewait_loop_ready:
  assumes "st i AND (IDE_BSY OR IDE_DRDY) = IDE_DRDY" "j \<le> i"
  shows "\<exists>r. idewait_loop st j = Some r"
  using assms(2)
proof (induction "i - j" arbitrary: j)
  case 0
  then show ?case using assms(1) by (simp add: idewait_loop.simps)
next
  case (Suc n)
  then have "\<exists>r. idewait_loop st (j + 1) = Some r" by (intro Suc.hyps(1)) auto
  then show ?case by (subst idewait_loop.simps) auto
qed

lemma idewait_ready:
  assumes "ready st"
  obtains r where "idewait c st = Done r" "r = 0 \<or> r = -1"
proof -
  obtain v where "idewait_loop st 0 = Some v" using assms idewait_loop_ready [of st _ 0] by (auto simp: ready_def)
  then show thesis using that [of "if c \<and> v AND (IDE_DF OR IDE_ERR) \<noteq> 0 then -1 else 0"] by (simp add: idewait_def)
qed

text \<open>What \<open>idestart\<close> writes to the ports for a buffer.\<close>

definition ide_command :: "'a buf_scheme \<Rightarrow> port_op list" where
  "ide_command bf =
     (let sector = blockno bf * 2 in
      [Outb 0x3f6 0, Outb 0x1f2 2, Outb 0x1f3 (ucast (sector AND 0xff)),
       Outb 0x1f4 (ucast (drop_bit 8 sector AND 0xff)), Outb 0x1f5 (ucast (drop_bit 16 sector AND 0xff)),
       Outb 0x1f6 (0xe0 OR push_bit 4 (ucast (dev bf AND 1)) OR ucast (drop_bit 24 sector AND 0x0f))] @
      (if B_DIRTY \<in> flags bf then [Outb 0x1f7 IDE_CMD_WRMUL, Outsl 0x1f0 (data bf)] else [Outb 0x1f7 IDE_CMD_RDMUL]))"

lemma idestart_command:
  assumes "ready st" "unat (blockno (ibufs s b)) < FSSIZE"
  shows "idestart (Some b) st s = Done (out (ide_command (ibufs s b)) s)"
proof -
  obtain r where "idewait False st = Done r" using idewait_ready [OF assms(1)] by blast
  moreover have "BSIZE div SECTOR_SIZE = 2" by (simp add: BSIZE_def SECTOR_SIZE_def)
  ultimately show ?thesis
    using assms(2) by (simp add: idestart_def Let_def ide_command_def out_def)
qed

section \<open>Requests and interrupts\<close>

definition same_request :: "ide_buf \<Rightarrow> ide_buf \<Rightarrow> bool" where
  "same_request x y \<longleftrightarrow> flags x = flags y \<and> dev x = dev y \<and> blockno x = blockno y \<and> data x = data y"

lemma same_request_command: "same_request x y \<Longrightarrow> ide_command x = ide_command y"
  by (simp add: same_request_def ide_command_def)

text \<open>
  \<open>ide_reach s D P\<close>: the driver can get into \<open>s\<close>, the requests \<open>D\<close> being finished and \<open>P\<close> waiting, in the
  order in which \<open>iderw\<close> was called; a request is the buffer as it was then. While a buffer waits, nobody
  else touches it, since its holder sleeps.
\<close>

inductive ide_reach :: "ide \<Rightarrow> ide_buf list \<Rightarrow> (nat \<times> ide_buf) list \<Rightarrow> bool" where
  start: "idequeue s = None \<Longrightarrow> ports s = [] \<Longrightarrow> ide_reach s [] []"
| request: "ide_reach s D P \<Longrightarrow> b \<notin> fst ` set P \<Longrightarrow> unat (blockno (ibufs s b)) < FSSIZE \<Longrightarrow> ready st \<Longrightarrow>
    iderw_request b st s = Done t \<Longrightarrow> ide_reach t D (P @ [(b, ibufs s b)])"
| interrupt: "ide_reach s D ((b, x) # P) \<Longrightarrow> ready st \<Longrightarrow> ready st' \<Longrightarrow> ideintr st din st' s = Done (r, t) \<Longrightarrow> ide_reach t (D @ [x]) P"
| spurious: "ide_reach s D [] \<Longrightarrow> ideintr st din st' s = Done (r, t) \<Longrightarrow> ide_reach t D []"
| holder: "ide_reach s D P \<Longrightarrow> b \<notin> fst ` set P \<Longrightarrow> ide_reach (upd_ibuf b f s) D P"

definition ide_inv :: "ide \<Rightarrow> ide_buf list \<Rightarrow> (nat \<times> ide_buf) list \<Rightarrow> bool" where
  "ide_inv s D P \<longleftrightarrow> queued (ibufs s) (idequeue s) (map fst P) \<and> distinct (map fst P) \<and>
     ports s = concat (map ide_command (D @ map snd (take 1 P))) \<and>
     (\<forall>(b, x) \<in> set P. same_request (ibufs s b) x \<and> unat (blockno x) < FSSIZE \<and> flags x \<inter> {B_VALID, B_DIRTY} \<noteq> {B_VALID})"

lemma iderw_request_inv:
  assumes i: "ide_inv s D P" and b: "b \<notin> fst ` set P" "unat (blockno (ibufs s b)) < FSSIZE" and st: "ready st"
    and t: "iderw_request b st s = Done t"
  shows "ide_inv t D (P @ [(b, ibufs s b)])"
proof -
  define u where "u = upd_ibuf b (\<lambda>x. x\<lparr>qnext := None\<rparr>) s"
  have fl: "flags (ibufs s b) \<inter> {B_VALID, B_DIRTY} \<noteq> {B_VALID}"
    using t by (auto simp: iderw_request_def Let_def split: if_splits)
  have tt: "obind (case idequeue u of
      None \<Rightarrow> Done (u\<lparr>idequeue := Some b\<rparr>)
    | Some h \<Rightarrow> (case ide_last (ibufs u) h of None \<Rightarrow> Diverge | Some l \<Rightarrow> Done (upd_ibuf l (\<lambda>x. x\<lparr>qnext := Some b\<rparr>) u)))
    (\<lambda>s. if idequeue s = Some b then idestart (Some b) st s else Done s) = Done t"
    using t unfolding iderw_request_def Let_def u_def [symmetric] by (auto split: if_splits)
  have q: "queued (ibufs u) (idequeue u) (map fst P)"
    using i b(1) queued_upd [of b "map fst P" "ibufs s"] by (simp add: ide_inv_def u_def upd_ibuf_def)
  have rq: "same_request (ibufs u c) (ibufs s c)" for c by (simp add: u_def upd_ibuf_def same_request_def)
  show ?thesis
  proof (cases P rule: rev_cases)
    case Nil
    then have "idequeue u = None" using q by simp
    then have t': "t = out (ide_command (ibufs s b)) (u\<lparr>idequeue := Some b\<rparr>)"
      using tt b(2) idestart_command [OF st, of "u\<lparr>idequeue := Some b\<rparr>" b] same_request_command [OF rq, of b] rq [of b]
      by (simp add: same_request_def)
    show ?thesis using i Nil b(2) fl rq [of b] unfolding t'
      by (simp add: ide_inv_def out_def u_def upd_ibuf_def)
  next
    case (snoc P' lx)
    define l where "l = fst lx"
    have Pn: "P \<noteq> []" using snoc by simp
    have P: "map fst P = map fst P' @ [l]" using snoc by (simp add: l_def)
    obtain h where h: "idequeue u = Some h" "h \<in> fst ` set P" using q Pn by (cases P) auto
    have "h \<noteq> b" using h(2) b(1) by auto
    have "ide_last (ibufs u) h = Some l" using q unfolding P h(1) by (rule queued_last)
    then have t': "t = upd_ibuf l (\<lambda>x. x\<lparr>qnext := Some b\<rparr>) u"
      using tt h(1) \<open>h \<noteq> b\<close> by simp
    have "distinct (map fst P' @ [l, b])" using i b(1) P snoc by (auto simp: ide_inv_def l_def)
    then have "queued (ibufs t) (idequeue t) (map fst P' @ [l, b])"
      using queued_snoc [of "ibufs u" "idequeue u" "map fst P'" l b] q P by (simp add: t' upd_ibuf_def u_def)
    moreover have "same_request (ibufs t c) (ibufs s c)" for c
      using rq [of c] by (auto simp: t' same_request_def)
    moreover have "ports t = ports s" by (simp add: t' u_def upd_ibuf_def)
    moreover have "take 1 (P @ [(b, ibufs s b)]) = take 1 P" using Pn by (cases P) auto
    ultimately show ?thesis
      using i b(2) fl P \<open>distinct (map fst P' @ [l, b])\<close> by (auto simp: ide_inv_def same_request_def split: prod.splits)
  qed
qed

text \<open>An interrupt finishes the first request and starts the next one.\<close>

lemma ideintr_serves:
  assumes i: "ide_inv s D ((b, x) # P)" and st: "ready st" "ready st'"
  obtains t where "ideintr st din st' s = Done (Some b, t)" "iderw_wait b t = Done t"
    "B_DIRTY \<in> flags x \<Longrightarrow> data (ibufs t b) = data x"
    "B_DIRTY \<notin> flags x \<Longrightarrow> idewait True st = Done 0 \<Longrightarrow> data (ibufs t b) = din" "ide_inv t (D @ [x]) P"
proof -
  define f where "f = (\<lambda>bf :: ide_buf. bf\<lparr>flags := insert B_VALID (flags bf) - {B_DIRTY},
     data := if B_DIRTY \<notin> flags bf \<and> idewait True st = Done 0 then din else data bf\<rparr>)"
  define u where "u = upd_ibuf b f (s\<lparr>idequeue := qnext (ibufs s b)\<rparr>)"
  have q: "idequeue s = Some b" "queued (ibufs s) (qnext (ibufs s b)) (map fst P)" "b \<notin> fst ` set P" using i by (auto simp: ide_inv_def)
  obtain r where r: "idewait True st = Done r" "r = 0 \<or> r = -1" using idewait_ready [OF st(1)] by blast
  have e: "ideintr st din st' s = obind (if idequeue u \<noteq> None then idestart (idequeue u) st' u else Done u) (\<lambda>s. Done (Some b, s))"
  proof (cases "B_DIRTY \<in> flags (ibufs s b)")
    case True
    have "upd_ibuf b (\<lambda>x. x\<lparr>flags := insert B_VALID (flags x) - {B_DIRTY}\<rparr>) (s\<lparr>idequeue := qnext (ibufs s b)\<rparr>) = u"
      unfolding u_def by (rule upd_ibuf_cong) (use True in \<open>simp add: f_def\<close>)
    then show ?thesis using True q(1) by (cases "qnext (ibufs s b)") (simp_all add: ideintr_def Let_def u_def)
  next
    case False
    have "upd_ibuf b (\<lambda>x. x\<lparr>data := if r \<ge> 0 then din else data x, flags := insert B_VALID (flags x) - {B_DIRTY}\<rparr>) (s\<lparr>idequeue := qnext (ibufs s b)\<rparr>) = u"
      unfolding u_def by (rule upd_ibuf_cong) (use False r in \<open>auto simp: f_def\<close>)
    then show ?thesis using False q(1) r by (cases "qnext (ibufs s b)") (auto simp: ideintr_def Let_def u_def)
  qed
  have qu: "queued (ibufs u) (idequeue u) (map fst P)"
    using q queued_upd [of b "map fst P" "ibufs s"] by (simp add: u_def upd_ibuf_def)
  have same: "\<forall>(c, y) \<in> set P. same_request (ibufs u c) y \<and> unat (blockno y) < FSSIZE \<and> flags y \<inter> {B_VALID, B_DIRTY} \<noteq> {B_VALID}"
    using i q(3) by (force simp: ide_inv_def u_def upd_ibuf_def)
  have xb: "same_request (ibufs s b) x" using i by (simp add: ide_inv_def)
  have ub: "iderw_wait b v = Done v" "B_DIRTY \<in> flags x \<Longrightarrow> data (ibufs v b) = data x"
    "B_DIRTY \<notin> flags x \<Longrightarrow> idewait True st = Done 0 \<Longrightarrow> data (ibufs v b) = din" if "ibufs v = ibufs u" for v
    using xb that by (auto simp: iderw_wait_def u_def f_def upd_ibuf_def same_request_def)
  have pu: "ports u = concat (map ide_command (D @ [x]))" using i by (simp add: ide_inv_def u_def upd_ibuf_def)
  have d: "distinct (map fst P)" using i by (simp add: ide_inv_def)
  show thesis
  proof (cases P)
    case Nil
    then show ?thesis using that [of u] e qu ub [OF refl] pu by (simp add: ide_inv_def)
  next
    case (Cons cy P')
    obtain c y where cy: "cy = (c, y)" by fastforce
    have c: "idequeue u = Some c" "same_request (ibufs u c) y" "unat (blockno (ibufs u c)) < FSSIZE"
      using qu same Cons cy by (auto simp: same_request_def)
    define t where "t = out (ide_command y) u"
    have "ideintr st din st' s = Done (Some b, t)"
      using e c(1) idestart_command [OF st(2) c(3)] same_request_command [OF c(2)] by (simp add: t_def)
    moreover have "ide_inv t (D @ [x]) P"
      using qu d same pu Cons cy by (auto simp: ide_inv_def t_def out_def)
    ultimately show ?thesis using that [of t] ub [of t] by (simp add: t_def out_def)
  qed
qed

lemma ide_reach_inv: "ide_reach s D P \<Longrightarrow> ide_inv s D P"
proof (induction rule: ide_reach.induct)
  case (start s)
  then show ?case by (simp add: ide_inv_def)
next
  case (request s D P b st t)
  then show ?case by (intro iderw_request_inv)
next
  case (interrupt s D b x P st st' din r t)
  from ideintr_serves [OF interrupt.IH interrupt.hyps(2,3), of din] show ?case using interrupt.hyps(4) by auto
next
  case (spurious s D st din st' r t)
  then show ?case by (auto simp: ide_inv_def ideintr_def)
next
  case (holder s D P b f)
  then have "\<forall>(c, y) \<in> set P. c \<noteq> b" by force
  then show ?case using holder.IH queued_upd [of b "map fst P" "ibufs s"] holder.hyps(2)
    by (auto simp: ide_inv_def upd_ibuf_def)
qed

section \<open>Properties\<close>

text \<open>
  C10: The disk driver serves its requests in order. Whatever way calls of \<open>iderw\<close> and interrupts interleave, the
  buffers linked from \<open>idequeue\<close> are the unfinished requests, oldest first, and the controller has been given exactly one
  command for every finished request and for the oldest unfinished one, in the order of the calls. The next interrupt
  finishes that one: a dirty buffer keeps its data, a clean one gets the data of the disk, and the process that waits
  for it goes on.
\<close>

theorem ide_fifo:
  assumes "ide_reach s D P"
  shows "queued (ibufs s) (idequeue s) (map fst P) \<and> distinct (map fst P) \<and>
    ports s = concat (map ide_command (D @ map snd (take 1 P))) \<and>
    (\<forall>b x Q st st' din. P = (b, x) # Q \<longrightarrow> ready st \<longrightarrow> ready st' \<longrightarrow>
      (\<exists>t. ideintr st din st' s = Done (Some b, t) \<and> iderw_wait b t = Done t \<and> ide_reach t (D @ [x]) Q \<and>
        (B_DIRTY \<in> flags x \<longrightarrow> data (ibufs t b) = data x) \<and>
        (B_DIRTY \<notin> flags x \<longrightarrow> idewait True st = Done 0 \<longrightarrow> data (ibufs t b) = din)))"
proof -
  have i: "ide_inv s D P" by (rule ide_reach_inv [OF assms])
  have "\<exists>t. ideintr st din st' s = Done (Some b, t) \<and> iderw_wait b t = Done t \<and> ide_reach t (D @ [x]) Q \<and>
        (B_DIRTY \<in> flags x \<longrightarrow> data (ibufs t b) = data x) \<and>
        (B_DIRTY \<notin> flags x \<longrightarrow> idewait True st = Done 0 \<longrightarrow> data (ibufs t b) = din)"
    if P: "P = (b, x) # Q" and st: "ready st" "ready st'" for b x Q st st' din
  proof -
    obtain t where t: "ideintr st din st' s = Done (Some b, t)" "iderw_wait b t = Done t"
      "B_DIRTY \<in> flags x \<Longrightarrow> data (ibufs t b) = data x"
      "B_DIRTY \<notin> flags x \<Longrightarrow> idewait True st = Done 0 \<Longrightarrow> data (ibufs t b) = din"
      using ideintr_serves [OF i [unfolded P] st, of din] by metis
    then show ?thesis using ide_reach.interrupt [OF assms [unfolded P] st t(1)] by blast
  qed
  then show ?thesis using i by (simp add: ide_inv_def)
qed

text \<open>A read and a write request, the second made while the first is served.\<close>

definition demo_ibuf :: "nat \<Rightarrow> ide_buf" where
  "demo_ibuf b = \<lparr>flags = (if b = 4 then {B_BUSY} else {B_BUSY, B_DIRTY}), dev = 0, blockno = of_nat b, bprev = 0, bnext = 0,
     data = replicate BSIZE 0, qnext = None\<rparr>"

definition demo_ide :: ide where
  "demo_ide = \<lparr>ibufs = demo_ibuf, idequeue = None, havedisk1 = False, ports = []\<rparr>"

theorem ide_fifo_witness:
  "\<exists>s t. ide_reach s [] [(4, demo_ibuf 4), (6, demo_ibuf 6)] \<and>
     ideintr (\<lambda>_. 0x40) (replicate BSIZE 9) (\<lambda>_. 0x40) s = Done (Some 4, t) \<and> ports s = ide_command (demo_ibuf 4) \<and> data (ibufs t 4) = replicate BSIZE 9"
proof -
  let ?st = "\<lambda>_ :: nat. 0x40 :: u8"
  have rd: "ready ?st" by (simp add: ready_def IDE_BSY_def IDE_DRDY_def)
  have w: "idewait True ?st = Done 0" by (simp add: idewait_def idewait_loop.simps IDE_BSY_def IDE_DRDY_def IDE_DF_def IDE_ERR_def)
  have "ide_reach demo_ide [] []" by (rule ide_reach.start) (simp_all add: demo_ide_def)
  moreover obtain u where u: "iderw_request 4 ?st demo_ide = Done u" "ibufs u 6 = demo_ibuf 6"  "ibufs demo_ide 4 = demo_ibuf 4" "idequeue u = Some 4" "qnext (ibufs u 4) = None"
    using idestart_command [OF rd, of "(upd_ibuf 4 (\<lambda>x. x\<lparr>qnext := None\<rparr>) demo_ide)\<lparr>idequeue := Some 4\<rparr>" 4]
    by (auto simp: iderw_request_def Let_def demo_ide_def demo_ibuf_def upd_ibuf_def out_def FSSIZE_def)
  ultimately have 1: "ide_reach u [] [(4, demo_ibuf 4)]"
    using ide_reach.request [of demo_ide "[]" "[]" 4 ?st u] rd by (simp add: demo_ide_def demo_ibuf_def FSSIZE_def)
  obtain s where s: "iderw_request 6 ?st u = Done s"
    using u by (auto simp: iderw_request_def Let_def demo_ibuf_def upd_ibuf_def ide_last.simps)
  have 2: "ide_reach s [] [(4, demo_ibuf 4), (6, demo_ibuf 6)]"
    using ide_reach.request [OF 1, of 6 ?st s] rd s u(2) by (simp add: demo_ibuf_def FSSIZE_def)
  show ?thesis using ide_fifo [OF 2] rd w 2 by (fastforce simp: demo_ibuf_def)
qed

end
