(* ===== verification/Mkfs.thy ===== *)
theory Mkfs
  imports Fs_Spec
begin

text \<open>
  The program \<open>tools/mkfs.c\<close> that builds the initial file system image from a directory of the host.
  The image file is a function from sector numbers to sectors together with its length in sectors;
  sectors that have not been written read as zeroes. The directory of the host is an argument: the
  entries in the order in which \<open>readdir\<close> delivers them, the entries \<open>.\<close> and \<open>..\<close> included or not, and
  what \<open>stat\<close>, \<open>open\<close> and \<open>opendir\<close> make of them. Names are looked up in the directory that is being
  read, as they are in a tree without symbolic links to directories. An exit with an error message and
  a failed assertion are a \<open>Panic\<close>. A \<open>struct dinode\<close> is an \<open>inode\<close> of which only the fields on disk
  are used. The host is little-endian.
\<close>

section \<open>State\<close>

definition NINODES :: nat where [layout_defs]: "NINODES = 200"
definition nbitmap :: nat where [layout_defs]: "nbitmap = FSSIZE div (BSIZE * 8) + 1"
definition ninodeblocks :: nat where [layout_defs]: "ninodeblocks = NINODES div IPB + 1"
definition nlog :: nat where [layout_defs]: "nlog = LOGSIZE"
definition nmeta :: nat where [layout_defs]: "nmeta = 2 + nlog + ninodeblocks + nbitmap"
definition nblocks :: nat where [layout_defs]: "nblocks = FSSIZE - nmeta"

record mkfs =
  img :: "nat \<Rightarrow> bytes"
  nsects :: nat
  freeinode :: u32
  freeblock :: u32
  mk_sb :: superblock

text \<open>
  A file of the host, with its time of modification: a regular file with its contents, unless it cannot
  be opened; a directory with its entries, unless it cannot be opened; any other kind of file; a name
  for which \<open>stat\<close> fails.
\<close>

datatype host =
    Host_File u32 "bytes option"
  | Host_Dir u32 "(bytes \<times> host) list option"
  | Host_Other
  | Host_Missing

section \<open>Byte order\<close>

definition xshort :: "u16 \<Rightarrow> u16" where
  "xshort x = u16_of_bytes [ucast x, ucast (drop_bit 8 x)]"

definition xint :: "u32 \<Rightarrow> u32" where
  "xint x = u32_of_bytes [ucast x, ucast (drop_bit 8 x), ucast (drop_bit 16 x), ucast (drop_bit 24 x)]"

section \<open>Sectors and inodes\<close>

definition sector :: "u32 \<Rightarrow> nat" where
  "sector sec = unat (sec * of_nat BSIZE) div BSIZE"

definition wsect :: "u32 \<Rightarrow> bytes \<Rightarrow> mkfs \<Rightarrow> mkfs" where
  "wsect sec buf s = s\<lparr>img := (img s)(sector sec := buf), nsects := max (nsects s) (Suc (sector sec))\<rparr>"

definition rsect :: "u32 \<Rightarrow> mkfs \<Rightarrow> bytes outcome" where
  "rsect sec s = (if sector sec < nsects s then Done (img s (sector sec)) else Panic ''read'')"

definition no_dinode :: inode where
  "no_dinode = \<lparr>i_dev = 0, i_inum = 0, i_ref = 0, i_flags = {}, i_type = 0, i_major = 0, i_minor = 0,
     i_nlink = 0, i_size = 0, i_mtime = 0, i_addrs = (\<lambda>_. 0)\<rparr>"

definition winode :: "u32 \<Rightarrow> inode \<Rightarrow> mkfs \<Rightarrow> mkfs outcome" where
  "winode inum ip s =
     (let bn = IBLOCK inum (mk_sb s) in
      obind (rsect bn s) (\<lambda>buf. Done (wsect bn (put_dinode (dinode_off inum) ip buf) s)))"

definition rinode :: "u32 \<Rightarrow> mkfs \<Rightarrow> inode outcome" where
  "rinode inum s =
     (let bn = IBLOCK inum (mk_sb s) in
      obind (rsect bn s) (\<lambda>buf. Done (get_dinode (dinode_off inum) buf no_dinode)))"

definition mkfs_ialloc :: "u16 \<Rightarrow> u32 \<Rightarrow> mkfs \<Rightarrow> (u32 \<times> mkfs) outcome" where
  "mkfs_ialloc ty mtime s =
     (let inum = freeinode s; s = s\<lparr>freeinode := freeinode s + 1\<rparr> in
      if \<not> freeinode s < of_nat NINODES then Panic ''freeinode<NINODES''
      else
        let din = no_dinode\<lparr>i_type := xshort ty, i_nlink := xshort 1, i_size := xint 0, i_mtime := mtime\<rparr> in
        obind (winode inum din s) (\<lambda>s. Done (inum, s)))"

definition mkfs_balloc :: "u32 \<Rightarrow> mkfs \<Rightarrow> mkfs outcome" where
  "mkfs_balloc n s =
     (if \<not> sint n < int (BSIZE * 8) then Panic ''used < BSIZE*8''
      else Done (wsect (sb_bmapstart (mk_sb s)) (fold (\<lambda>i buf. set_bit_of buf i) [0..<nat (sint n)] (replicate BSIZE 0)) s))"

section \<open>Appending to files\<close>

text \<open>The address in entry \<open>i\<close> of \<open>din.addrs\<close>, taken from the free blocks if there is none yet.\<close>

definition iappend_addr :: "nat \<Rightarrow> inode \<Rightarrow> mkfs \<Rightarrow> inode \<times> mkfs" where
  "iappend_addr i din s =
     (if xint (i_addrs din i) = 0
      then (din\<lparr>i_addrs := (i_addrs din)(i := xint (freeblock s))\<rparr>, s\<lparr>freeblock := freeblock s + 1\<rparr>)
      else (din, s))"

text \<open>The block \<open>x\<close> that holds block \<open>fbn\<close> of the file.\<close>

definition iappend_block :: "nat \<Rightarrow> inode \<Rightarrow> mkfs \<Rightarrow> (u32 \<times> inode \<times> mkfs) outcome" where
  "iappend_block fbn din s =
     (if fbn < NDIRECT
      then let (din, s) = iappend_addr fbn din s in Done (xint (i_addrs din fbn), din, s)
      else
        let (din, s) = iappend_addr NDIRECT din s in
        obind (rsect (xint (i_addrs din NDIRECT)) s) (\<lambda>indirect.
          let e = 4 * (fbn - NDIRECT) in
          if get32 e indirect = 0
          then
            let indirect = put32 e (xint (freeblock s)) indirect;
                s = s\<lparr>freeblock := freeblock s + 1\<rparr>
            in Done (xint (get32 e indirect), din, wsect (xint (i_addrs din NDIRECT)) indirect s)
          else Done (xint (get32 e indirect), din, s)))"

lemma less_div_times: "m < BSIZE + m div BSIZE * BSIZE"
  by (metis BSIZE_def dividend_less_div_times zero_less_numeral)

function iappend_loop :: "bytes \<Rightarrow> u32 \<Rightarrow> inode \<Rightarrow> mkfs \<Rightarrow> (u32 \<times> inode \<times> mkfs) outcome" where
  "iappend_loop p off din s =
     (if p = [] then Done (off, din, s)
      else
        let fbn = unat off div BSIZE in
        if \<not> fbn < MAXFILE then Panic ''fbn < MAXFILE''
        else
          obind (iappend_block fbn din s) (\<lambda>(x, din, s).
            let n1 = min (length p) ((fbn + 1) * BSIZE - unat off) in
            obind (rsect x s) (\<lambda>buf.
              let s = wsect x (patch (unat off - fbn * BSIZE) (take n1 p) buf) s in
              iappend_loop (drop n1 p) (off + of_nat n1) din s)))"
  by auto
termination
  by (relation "measure (\<lambda>(p, _). length p)") (auto simp: BSIZE_def less_div_times)

declare iappend_loop.simps [simp del]

definition iappend :: "u32 \<Rightarrow> bytes \<Rightarrow> mkfs \<Rightarrow> mkfs outcome" where
  "iappend inum p s =
     obind (rinode inum s) (\<lambda>din.
     obind (iappend_loop p (xint (i_size din)) din s) (\<lambda>(off, din, s).
       if \<not> freeblock s < of_nat FSSIZE then Panic ''freeblock<FSSIZE''
       else winode inum (din\<lparr>i_size := xint off\<rparr>) s))"

definition dappend :: "u32 \<Rightarrow> bytes \<Rightarrow> u32 \<Rightarrow> mkfs \<Rightarrow> mkfs outcome" where
  "dappend dirino name fileino s =
     iappend dirino (bytes_of_dirent \<lparr>de_inum = xshort (ucast fileino), de_name = strncpy (cstr name) (int DIRSIZ)\<rparr>) s"

text \<open>The loop of \<open>fappend\<close>: \<open>read\<close> delivers a block at a time, and less at the end of the file.\<close>

function fappend_loop :: "u32 \<Rightarrow> bytes \<Rightarrow> mkfs \<Rightarrow> mkfs outcome" where
  "fappend_loop inum rest s =
     (if rest = [] then Done s
      else obind (iappend inum (take BSIZE rest) s) (\<lambda>s. fappend_loop inum (drop BSIZE rest) s))"
  by auto
termination by (relation "measure (\<lambda>(_, rest, _). length rest)") (auto simp: BSIZE_def)

declare fappend_loop.simps [simp del]

definition fappend :: "u32 \<Rightarrow> bytes \<Rightarrow> u32 \<Rightarrow> bytes option \<Rightarrow> mkfs \<Rightarrow> mkfs outcome" where
  "fappend dirino filename mtime fd s =
     (case fd of
        None \<Rightarrow> Panic ''open''
      | Some contents \<Rightarrow>
          obind (mkfs_ialloc T_FILE mtime s) (\<lambda>(inum, s).
          obind (dappend dirino filename inum s) (\<lambda>s.
          fappend_loop inum contents s)))"

definition makdir :: "u32 \<Rightarrow> bytes \<Rightarrow> u32 \<Rightarrow> mkfs \<Rightarrow> (u32 \<times> mkfs) outcome" where
  "makdir dirino newdir mtime s =
     obind (mkfs_ialloc T_DIR mtime s) (\<lambda>(ino, s).
     obind (dappend ino [46] ino s) (\<lambda>s.
     obind (dappend ino [46, 46] dirino s) (\<lambda>s.
     obind (dappend dirino newdir ino s) (\<lambda>s. Done (ino, s)))))"

text \<open>
  The loop of \<open>add_directory\<close> over the entries of an open directory; the directories among them are
  opened and read in the same way.
\<close>

fun add_directory :: "u32 \<Rightarrow> (bytes \<times> host) list \<Rightarrow> mkfs \<Rightarrow> mkfs outcome" where
  "add_directory dirino [] s = Done s"
| "add_directory dirino ((d_name, h) # D) s =
     (if d_name = [46] \<or> d_name = [46, 46] then add_directory dirino D s
      else
        obind
          (case h of
             Host_Missing \<Rightarrow> Panic ''stat''
           | Host_Dir mtime es \<Rightarrow>
               obind (makdir dirino d_name mtime s) (\<lambda>(newdirino, s).
                 case es of None \<Rightarrow> Panic ''opendir'' | Some es \<Rightarrow> add_directory newdirino es s)
           | Host_File mtime fd \<Rightarrow> fappend dirino d_name mtime fd s
           | Host_Other \<Rightarrow> Done s)
          (\<lambda>s. add_directory dirino D s))"

section \<open>The program\<close>

definition bytes_of_superblock :: "superblock \<Rightarrow> bytes" where
  "bytes_of_superblock b = bytes_of_u32 (sb_size b) @ bytes_of_u32 (sb_nblocks b) @ bytes_of_u32 (sb_ninodes b) @
     bytes_of_u32 (sb_nlog b) @ bytes_of_u32 (sb_logstart b) @ bytes_of_u32 (sb_inodestart b) @ bytes_of_u32 (sb_bmapstart b)"

definition mkfs_sb :: superblock where
  "mkfs_sb = \<lparr>sb_size = xint (of_nat FSSIZE), sb_nblocks = xint (of_nat nblocks), sb_ninodes = xint (of_nat NINODES),
     sb_nlog = xint (of_nat nlog), sb_logstart = xint 2, sb_inodestart = xint (of_nat (2 + nlog)),
     sb_bmapstart = xint (of_nat (2 + nlog + ninodeblocks))\<rparr>"

text \<open>The state when \<open>fs.img\<close> has been opened, and when its blocks are cleared and the superblock is written.\<close>

definition mkfs_open :: mkfs where
  "mkfs_open = \<lparr>img = (\<lambda>_. replicate BSIZE 0), nsects = 0, freeinode = 1, freeblock = 0,
     mk_sb = \<lparr>sb_size = 0, sb_nblocks = 0, sb_ninodes = 0, sb_nlog = 0, sb_logstart = 0, sb_inodestart = 0, sb_bmapstart = 0\<rparr>\<rparr>"

definition mkfs_start :: mkfs where
  "mkfs_start =
     (let s = mkfs_open\<lparr>mk_sb := mkfs_sb, freeblock := of_nat nmeta\<rparr>;
          s = fold (\<lambda>i. wsect (of_nat i) (replicate BSIZE 0)) [0..<FSSIZE] s
      in wsect 1 (patch 0 (bytes_of_superblock (mk_sb s)) (replicate BSIZE 0)) s)"

definition mkfs_main :: "int \<Rightarrow> int \<Rightarrow> (bytes \<times> host) list option \<Rightarrow> mkfs outcome" where
  "mkfs_main argc fsfd basedir =
     (if argc \<noteq> 3 then Panic ''Usage: mkfs fs.img basedir''
      else if BSIZE mod sizeof_dinode \<noteq> 0 then Panic ''BSIZE % sizeof(struct dinode)''
      else if BSIZE mod sizeof_dirent \<noteq> 0 then Panic ''BSIZE % sizeof(struct xv6dirent)''
      else if fsfd < 0 then Panic ''open''
      else
        obind (mkfs_ialloc T_DIR 0 mkfs_start) (\<lambda>(rootino, s).
        if rootino \<noteq> ROOTINO then Panic ''rootino == ROOTINO''
        else
          obind (dappend rootino [46] rootino s) (\<lambda>s.
          obind (dappend rootino [46, 46] rootino s) (\<lambda>s.
          obind (case basedir of None \<Rightarrow> Panic ''opendir'' | Some es \<Rightarrow> add_directory rootino es s) (\<lambda>s.
          obind (rinode rootino s) (\<lambda>din.
            let off = xint (i_size din);
                off = ((off div of_nat BSIZE) + 1) * of_nat BSIZE
            in
            obind (winode rootino (din\<lparr>i_size := xint off\<rparr>) s) (\<lambda>s.
            mkfs_balloc (freeblock s) s)))))))"

end
