(* ===== verification/Mkfs_Spec.thy ===== *)
theory Mkfs_Spec
  imports Mkfs
begin

text \<open>
  What \<open>mkfs\<close> builds: an abstract table of files, with the type, the modification time and the contents
  of every inode, and the relation between such a table and an image. Blocks are handed out in order,
  and no two files share one.
\<close>

section \<open>Byte order and sectors\<close>

lemma xshort_id [simp]: "xshort x = x"
  using u16_of_bytes_of_u16 [of x] by (simp add: xshort_def bytes_of_u16_def)

lemma xint_id [simp]: "xint x = x"
  using u32_of_bytes_of_u32 [of x] by (simp add: xint_def bytes_of_u32_def)

lemma sector_small: "unat x < 2 ^ 22 \<Longrightarrow> sector x = unat x"
  by (simp add: sector_def BSIZE_def unat_word_ariths)

section \<open>Files of an image\<close>

text \<open>
  Inode \<open>i\<close> of an image \<open>M\<close>, the blocks of a file, with its indirect block in position \<open>MAXFILE\<close>, and the
  contents of these blocks; a block that is missing reads as zeroes.
\<close>

definition dinode_at :: "(nat \<Rightarrow> bytes) \<Rightarrow> nat \<Rightarrow> inode" where
  "dinode_at M i = get_dinode (64 * (i mod 16)) (M (32 + i div 16)) no_dinode"

definition fslot :: "(nat \<Rightarrow> bytes) \<Rightarrow> inode \<Rightarrow> nat \<Rightarrow> u32" where
  "fslot M d k =
     (if k < NDIRECT then i_addrs d k
      else if k = MAXFILE then i_addrs d NDIRECT
      else if i_addrs d NDIRECT = 0 then 0 else get32 (4 * (k - NDIRECT)) (M (unat (i_addrs d NDIRECT))))"

definition fdata :: "(nat \<Rightarrow> bytes) \<Rightarrow> inode \<Rightarrow> nat \<Rightarrow> bytes" where
  "fdata M d k = (if fslot M d k = 0 then replicate BSIZE 0 else M (unat (fslot M d k)))"

definition fbyte :: "(nat \<Rightarrow> bytes) \<Rightarrow> inode \<Rightarrow> nat \<Rightarrow> u8" where
  "fbyte M d p = fdata M d (p div BSIZE) ! (p mod BSIZE)"

text \<open>
  The blocks of the first \<open>n\<close> inodes \<open>D\<close> are different data blocks below \<open>fb\<close>, and the blocks from \<open>fb\<close> on
  are empty.
\<close>

definition blocks_ok :: "(nat \<Rightarrow> bytes) \<Rightarrow> nat \<Rightarrow> nat \<Rightarrow> (nat \<Rightarrow> inode) \<Rightarrow> bool" where
  "blocks_ok M fb n D \<longleftrightarrow>
     (\<forall>k. length (M k) = BSIZE) \<and> nmeta \<le> fb \<and> (\<forall>k\<ge>fb. M k = replicate BSIZE 0) \<and>
     (\<forall>i<n. \<forall>k\<le>MAXFILE. fslot M (D i) k \<noteq> 0 \<longrightarrow> nmeta \<le> unat (fslot M (D i) k) \<and> unat (fslot M (D i) k) < fb) \<and>
     (\<forall>i<n. \<forall>k\<le>MAXFILE. \<forall>j<n. \<forall>l\<le>MAXFILE.
        fslot M (D i) k = fslot M (D j) l \<longrightarrow> fslot M (D i) k \<noteq> 0 \<longrightarrow> i = j \<and> k = l)"

lemma blocks_okD:
  assumes "blocks_ok M fb n D"
  shows "length (M k) = BSIZE" "nmeta \<le> fb" "fb \<le> k \<Longrightarrow> M k = replicate BSIZE 0"
    "i < n \<Longrightarrow> k \<le> MAXFILE \<Longrightarrow> fslot M (D i) k \<noteq> 0 \<Longrightarrow> nmeta \<le> unat (fslot M (D i) k)"
    "i < n \<Longrightarrow> k \<le> MAXFILE \<Longrightarrow> fslot M (D i) k \<noteq> 0 \<Longrightarrow> unat (fslot M (D i) k) < fb"
    "i < n \<Longrightarrow> k \<le> MAXFILE \<Longrightarrow> j < n \<Longrightarrow> l \<le> MAXFILE \<Longrightarrow> fslot M (D i) k = fslot M (D j) l \<Longrightarrow>
       fslot M (D i) k \<noteq> 0 \<Longrightarrow> i = j \<and> k = l"
  using assms unfolding blocks_ok_def by blast+

lemma fslot_indirect: "fslot M d MAXFILE = i_addrs d NDIRECT"
  by (simp add: fslot_def layout_defs)

lemma fslot_cong:
  assumes "\<forall>k\<le>NDIRECT. i_addrs d k = i_addrs e k" "i_addrs d NDIRECT \<noteq> 0 \<Longrightarrow> M (unat (i_addrs d NDIRECT)) = N (unat (i_addrs d NDIRECT))"
  shows "fslot M d k = fslot N e k"
  using assms by (auto simp: fslot_def)

text \<open>Storing into a block that is not a block of a file.\<close>

lemma blocks_ok_meta:
  assumes "blocks_ok M fb n D" "a < nmeta" "length v = BSIZE" "\<And>i k. i < n \<Longrightarrow> k \<le> NDIRECT \<Longrightarrow> i_addrs (E i) k = i_addrs (D i) k"
  shows "blocks_ok (M(a := v)) fb n E" "i < n \<Longrightarrow> k \<le> MAXFILE \<Longrightarrow> fslot (M(a := v)) (E i) k = fslot M (D i) k"
    "i < n \<Longrightarrow> k \<le> MAXFILE \<Longrightarrow> fdata (M(a := v)) (E i) k = fdata M (D i) k"
proof -
  note b = blocks_okD [OF assms(1)]
  have ne: "unat (fslot M (D i) k) \<noteq> a" if "i < n" "k \<le> MAXFILE" "fslot M (D i) k \<noteq> 0" for i k
    using b(4) [OF that] assms(2) by simp
  show s: "fslot (M(a := v)) (E i) k = fslot M (D i) k" if "i < n" "k \<le> MAXFILE" for i k
    using ne [OF that(1), of MAXFILE] that assms(4) by (intro fslot_cong) (auto simp: fslot_indirect)
  show "fdata (M(a := v)) (E i) k = fdata M (D i) k" if "i < n" "k \<le> MAXFILE" for i k
    using ne that s by (simp add: fdata_def)
  show "blocks_ok (M(a := v)) fb n E"
    unfolding blocks_ok_def using assms(2,3) b s by auto
qed

text \<open>Storing into a block of a file that holds data.\<close>

lemma blocks_ok_write:
  assumes "blocks_ok M fb n D" "i < n" "k < MAXFILE" "fslot M (D i) k \<noteq> 0" "length v = BSIZE"
  defines "N \<equiv> M(unat (fslot M (D i) k) := v)"
  shows "blocks_ok N fb n D" "j < n \<Longrightarrow> l \<le> MAXFILE \<Longrightarrow> fslot N (D j) l = fslot M (D j) l"
    "j < n \<Longrightarrow> l \<le> MAXFILE \<Longrightarrow> fdata N (D j) l = (if j = i \<and> l = k then v else fdata M (D j) l)"
proof -
  note b = blocks_okD [OF assms(1)]
  have ne: "unat (fslot M (D j) l) \<noteq> unat (fslot M (D i) k)"
    if "j < n" "l \<le> MAXFILE" "fslot M (D j) l \<noteq> 0" "(j, l) \<noteq> (i, k)" for j l
    using b(6) [OF that(1,2) assms(2), of k] that assms(3) by (auto dest: word_unat_eq_iff [THEN iffD2])
  show s: "fslot N (D j) l = fslot M (D j) l" if "j < n" "l \<le> MAXFILE" for j l
    using ne [OF that(1), of MAXFILE] that assms(3) unfolding N_def
    by (intro fslot_cong [symmetric]) (auto simp: fslot_indirect)
  show "fdata N (D j) l = (if j = i \<and> l = k then v else fdata M (D j) l)" if "j < n" "l \<le> MAXFILE" for j l
    using ne [OF that] that s assms(4) by (auto simp: fdata_def N_def)
  show "blocks_ok N fb n D"
    unfolding blocks_ok_def using assms(5) b b(5) [OF assms(2), of k] assms(3,4) s by (auto simp: N_def)
qed

text \<open>A new block for position \<open>k\<close> of file \<open>i\<close>.\<close>

lemma blocks_ok_new:
  assumes "blocks_ok M fb n D" "i < n" "k \<le> MAXFILE" "fb < FSSIZE"
    and N: "\<And>k. length (N k) = BSIZE" "\<And>k. fb \<le> k \<Longrightarrow> N k = replicate BSIZE 0"
    and s: "\<And>j l. j < n \<Longrightarrow> l \<le> MAXFILE \<Longrightarrow> fslot N (E j) l = (if j = i \<and> l = k then of_nat fb else fslot M (D j) l)"
  shows "blocks_ok N (Suc fb) n E"
proof -
  note b = blocks_okD [OF assms(1)]
  have u: "unat (of_nat fb :: u32) = fb" using assms(4) by (simp add: unat_of_nat layout_defs)
  have ne: "fslot M (D j) l \<noteq> of_nat fb" if "j < n" "l \<le> MAXFILE" for j l
  proof
    assume e: "fslot M (D j) l = of_nat fb"
    moreover have "(of_nat fb :: u32) \<noteq> 0"
    proof
      assume "(of_nat fb :: u32) = 0"
      then have "fb = 0" using u by simp
      with b(2) show False by (simp add: layout_defs)
    qed
    ultimately have "unat (fslot M (D j) l) < fb" using b(5) [OF that] by simp
    then show False using e u by simp
  qed
  have r: "nmeta \<le> unat (fslot N (E j) l) \<and> unat (fslot N (E j) l) < Suc fb"
    if "j < n" "l \<le> MAXFILE" "fslot N (E j) l \<noteq> 0" for j l
    using that(3) b(2) b(4,5) [OF that(1,2)] by (auto simp: s [OF that(1,2)] u less_Suc_eq)
  have "j = j' \<and> l = l'" if "j < n" "l \<le> MAXFILE" "j' < n" "l' \<le> MAXFILE"
    "fslot N (E j) l = fslot N (E j') l'" "fslot N (E j) l \<noteq> 0" for j l j' l'
    using that(5,6) b(6) [OF that(1-4)] ne [OF that(1,2)] ne [OF that(3,4)]
    unfolding s [OF that(1,2)] s [OF that(3,4)] by (auto split: if_splits)
  then show ?thesis unfolding blocks_ok_def using N b(2) r by (auto simp: Suc_le_eq)
qed

section \<open>Finding the block to write\<close>

lemma get32_zero_block: "4 * (k - NDIRECT) + 4 \<le> BSIZE \<Longrightarrow> get32 (4 * (k - NDIRECT)) (replicate BSIZE 0) = 0"
  by (rule get32_replicate_0)

lemma entry_range: "k < MAXFILE \<Longrightarrow> NDIRECT \<le> k \<Longrightarrow> 4 * (k - NDIRECT) + 4 \<le> BSIZE"
  by (simp add: layout_defs)

definition addr_slot :: "nat \<Rightarrow> nat" where
  "addr_slot k = (if k = NDIRECT then MAXFILE else k)"

lemma iappend_addr_ok:
  assumes b: "blocks_ok (img s) (unat (freeblock s)) n D" "i < n" "k \<le> NDIRECT" "unat (freeblock s) < FSSIZE"
    and r: "iappend_addr k (D i) s = (d, t)"
  defines "z \<equiv> fslot (img s) (D i) (addr_slot k) = 0"
  shows "t = s\<lparr>freeblock := freeblock s + (if z then 1 else 0)\<rparr>" "\<exists>a. d = (D i)\<lparr>i_addrs := a\<rparr>"
    "blocks_ok (img s) (unat (freeblock t)) n (D(i := d))" "unat (freeblock t) = unat (freeblock s) + of_bool z"
    "fslot (img s) d (addr_slot k) \<noteq> 0"
    "l \<le> MAXFILE \<Longrightarrow> l \<noteq> addr_slot k \<Longrightarrow> fslot (img s) d l = fslot (img s) (D i) l"
    "l \<le> MAXFILE \<Longrightarrow> fdata (img s) d l = fdata (img s) (D i) l"
proof -
  let ?M = "img s" and ?fb = "unat (freeblock s)" and ?k = "addr_slot k"
  note bd = blocks_okD [OF b(1)]
  have k: "?k \<le> MAXFILE" "fslot M e ?k = i_addrs e k" for M e
    using b(3) by (auto simp: addr_slot_def fslot_def layout_defs)
  have f: "freeblock s \<noteq> 0" "unat (freeblock s + 1) = Suc ?fb"
    using bd(2) b(4) by (auto simp: layout_defs unat_word_ariths)
  have d: "d = (if z then (D i)\<lparr>i_addrs := (i_addrs (D i))(k := freeblock s)\<rparr> else D i)"
    and t: "t = s\<lparr>freeblock := freeblock s + (if z then 1 else 0)\<rparr>"
    using r k(2) by (auto simp: iappend_addr_def z_def split: if_splits)
  have M: "?M ?fb = replicate BSIZE 0" using bd(3) by simp
  have sl: "fslot ?M d l = (if z \<and> l = ?k then freeblock s else fslot ?M (D i) l)" if l: "l \<le> MAXFILE" for l
  proof (cases z)
    case True
    then have z: "i_addrs (D i) k = 0" using k(2) by (simp add: z_def)
    show ?thesis
    proof (cases "l = ?k")
      case True
      then show ?thesis using d \<open>z\<close> k(2) by simp
    next
      case False
      have "k = NDIRECT \<Longrightarrow> NDIRECT \<le> l \<Longrightarrow> l < MAXFILE \<Longrightarrow> get32 (4 * (l - NDIRECT)) (?M ?fb) = 0"
        unfolding M by (intro get32_zero_block entry_range)
      then show ?thesis using False z f(1) l b(3) unfolding d
        by (auto simp: fslot_def addr_slot_def \<open>z\<close>)
    qed
  qed (simp add: d)
  show "t = s\<lparr>freeblock := freeblock s + (if z then 1 else 0)\<rparr>" by (rule t)
  show "\<exists>a. d = (D i)\<lparr>i_addrs := a\<rparr>" unfolding d by (cases z; cases "D i") auto
  show "unat (freeblock t) = ?fb + of_bool z" using t f by simp
  show "fslot ?M d ?k \<noteq> 0" using sl [OF k(1)] f(1) by (auto simp: z_def)
  show "fslot ?M d l = fslot ?M (D i) l" if "l \<le> MAXFILE" "l \<noteq> ?k" using sl that by simp
  show "fdata ?M d l = fdata ?M (D i) l" if "l \<le> MAXFILE"
    using sl [OF that] M f(1) by (auto simp: fdata_def z_def)
  show "blocks_ok ?M (unat (freeblock t)) n (D(i := d))"
  proof (cases z)
    case True
    have "blocks_ok ?M (Suc ?fb) n (D(i := d))"
      using b(1,2) k(1) b(4) bd(1,3) sl True by (intro blocks_ok_new [of ?M ?fb n D i ?k]) auto
    then show ?thesis using t True f by simp
  qed (use b(1) t d in simp)
qed

text \<open>A new block, entered in the indirect block of the file.\<close>

lemma new_entry:
  assumes b: "blocks_ok M fb n D" "i < n" "NDIRECT \<le> k" "k < MAXFILE" "fb < FSSIZE"
    and a: "a = fslot M (D i) MAXFILE" "a \<noteq> 0" "fslot M (D i) k = 0"
  defines "N \<equiv> M(unat a := put32 (4 * (k - NDIRECT)) (of_nat fb) (M (unat a)))"
  shows "j < n \<Longrightarrow> l \<le> MAXFILE \<Longrightarrow> fslot N (D j) l = (if j = i \<and> l = k then of_nat fb else fslot M (D j) l)"
    "blocks_ok N (Suc fb) n D" "j < n \<Longrightarrow> l < MAXFILE \<Longrightarrow> fdata N (D j) l = fdata M (D j) l"
proof -
  note bd = blocks_okD [OF b(1)]
  have e: "4 * (k - NDIRECT) + 4 \<le> length (M (unat a))" using entry_range b(3,4) bd(1) by simp
  have af: "unat a < fb" "nmeta \<le> unat a" using bd(4,5) [OF b(2), of MAXFILE] a by simp_all
  have ne: "unat (fslot M (D j) l) \<noteq> unat a"
    if "j < n" "l \<le> MAXFILE" "fslot M (D j) l \<noteq> 0" "(j, l) \<noteq> (i, MAXFILE)" for j l
    using bd(6) [OF that(1,2) b(2), of MAXFILE] that a by (auto dest: word_unat_eq_iff [THEN iffD2])
  show s: "fslot N (D j) l = (if j = i \<and> l = k then of_nat fb else fslot M (D j) l)" if "j < n" "l \<le> MAXFILE" for j l
  proof (cases "j = i")
    case False
    then show ?thesis using ne [OF that(1), of MAXFILE] that unfolding N_def
      by (simp, intro fslot_cong) (auto simp: fslot_indirect)
  next
    case True
    have A: "i_addrs (D i) NDIRECT = a" using a(1) by (simp add: fslot_indirect)
    have "get32 (4 * (l - NDIRECT)) (put32 (4 * (k - NDIRECT)) (of_nat fb) (M (unat a))) = get32 (4 * (l - NDIRECT)) (M (unat a))"
      if "NDIRECT \<le> l" "l < MAXFILE" "l \<noteq> k"
    proof -
      have "4 * (l - NDIRECT) + 4 \<le> 4 * (k - NDIRECT) \<or> 4 * (k - NDIRECT) + 4 \<le> 4 * (l - NDIRECT)"
        using that b(3) by auto
      then show ?thesis using entry_range that e bd(1) by (intro get32_put32_other) auto
    qed
    then show ?thesis using True that a(2) b(3,4) e by (auto simp: fslot_def A N_def)
  qed
  show "blocks_ok N (Suc fb) n D"
  proof (rule blocks_ok_new [OF b(1,2) _ b(5)])
    show "length (N x) = BSIZE" for x using bd(1) e by (simp add: N_def)
    show "fb \<le> x \<Longrightarrow> N x = replicate BSIZE 0" for x using bd(3) af by (simp add: N_def)
  qed (use b(4) s in auto)
  have fb: "unat (of_nat fb :: u32) = fb" using b(5) by (simp add: unat_of_nat layout_defs)
  show "fdata N (D j) l = fdata M (D j) l" if "j < n" "l < MAXFILE" for j l
    using ne [OF that(1), of l] that s [OF that(1), of l] a(3) bd(3) [of fb] af fb
    by (auto simp: fdata_def N_def)
qed

definition only_blocks :: "mkfs \<Rightarrow> mkfs \<Rightarrow> bool" where
  "only_blocks s t \<longleftrightarrow> nsects t = nsects s \<and> freeinode t = freeinode s \<and> mk_sb t = mk_sb s \<and> (\<forall>a<nmeta. img t a = img s a)"

lemma only_blocks_trans: "only_blocks s t \<Longrightarrow> only_blocks t u \<Longrightarrow> only_blocks s u"
  by (simp add: only_blocks_def)

text \<open>The blocks that \<open>iappend_block\<close> takes.\<close>

definition new_blocks :: "(nat \<Rightarrow> bytes) \<Rightarrow> inode \<Rightarrow> nat \<Rightarrow> nat" where
  "new_blocks M d k = of_bool (fslot M d k = 0) + of_bool (NDIRECT \<le> k \<and> fslot M d MAXFILE = 0)"

definition block_found :: "nat \<Rightarrow> (nat \<Rightarrow> inode) \<Rightarrow> nat \<Rightarrow> nat \<Rightarrow> mkfs \<Rightarrow> u32 \<Rightarrow> inode \<Rightarrow> mkfs \<Rightarrow> bool" where
  "block_found n D i k s x d t \<longleftrightarrow>
     blocks_ok (img t) (unat (freeblock t)) n (D(i := d)) \<and> x = fslot (img t) d k \<and> x \<noteq> 0 \<and> (\<exists>a. d = (D i)\<lparr>i_addrs := a\<rparr>) \<and>
     unat (freeblock t) = unat (freeblock s) + new_blocks (img s) (D i) k \<and>
     (\<forall>l<MAXFILE. l \<noteq> k \<longrightarrow> fslot (img t) d l = fslot (img s) (D i) l) \<and>
     (fslot (img t) d MAXFILE \<noteq> 0 \<longleftrightarrow> NDIRECT \<le> k \<or> fslot (img s) (D i) MAXFILE \<noteq> 0) \<and>
     (\<forall>j<n. \<forall>l<MAXFILE. fdata (img t) ((D(i := d)) j) l = fdata (img s) (D j) l) \<and>
     (\<forall>j<n. j \<noteq> i \<longrightarrow> (\<forall>l\<le>MAXFILE. fslot (img t) (D j) l = fslot (img s) (D j) l)) \<and> only_blocks s t"

lemma no_indirect: "NDIRECT \<le> k \<Longrightarrow> k < MAXFILE \<Longrightarrow> fslot M d MAXFILE = 0 \<Longrightarrow> fslot M d k = 0"
  by (simp add: fslot_def layout_defs)

lemma only_blocks_free [simp]: "only_blocks s (s\<lparr>freeblock := v\<rparr>)"
  by (simp add: only_blocks_def)

lemma iappend_direct_ok:
  assumes b: "blocks_ok (img s) (unat (freeblock s)) n D" "i < n" "k < NDIRECT"
    and r: "unat (freeblock s) < FSSIZE"
  shows "\<exists>x d t. iappend_block k (D i) s = Done (x, d, t) \<and> block_found n D i k s x d t"
proof -
  obtain d t where e: "iappend_addr k (D i) s = (d, t)" by force
  have k: "addr_slot k = k" "k \<le> NDIRECT" "k < MAXFILE" "\<not> NDIRECT \<le> k" "k \<noteq> MAXFILE"
    using b(3) by (simp_all add: addr_slot_def layout_defs)
  note a = iappend_addr_ok [OF b(1,2) k(2) r e, unfolded k(1)]
  have m: "img t = img s" "only_blocks s t" using a(1) by (simp_all only: only_blocks_free, simp)
  have "iappend_block k (D i) s = Done (fslot (img t) d k, d, t)"
    using b(3) e by (simp add: iappend_block_def fslot_def)
  moreover have "block_found n D i k s (fslot (img t) d k) d t"
    unfolding block_found_def new_blocks_def m(1) using a(2-) k m(2) by auto
  ultimately show ?thesis by blast
qed

lemma indirect_entry_ok:
  assumes b: "blocks_ok (img t) (unat (freeblock t)) n D" "i < n" "NDIRECT \<le> k" "k < MAXFILE" "nsects t = FSSIZE"
    and r: "unat (freeblock t) < FSSIZE"
    and a: "a = fslot (img t) (D i) MAXFILE" "a \<noteq> 0" "fslot (img t) (D i) k = 0"
  defines "u \<equiv> wsect a (put32 (4 * (k - NDIRECT)) (freeblock t) (img t (unat a))) (t\<lparr>freeblock := freeblock t + 1\<rparr>)"
  shows "only_blocks t u" "unat (freeblock u) = Suc (unat (freeblock t))" "blocks_ok (img u) (unat (freeblock u)) n D"
    "j < n \<Longrightarrow> l \<le> MAXFILE \<Longrightarrow> fslot (img u) (D j) l = (if j = i \<and> l = k then freeblock t else fslot (img t) (D j) l)"
    "j < n \<Longrightarrow> l < MAXFILE \<Longrightarrow> fdata (img u) (D j) l = fdata (img t) (D j) l"
proof -
  let ?f = "unat (freeblock t)"
  note bd = blocks_okD(4,5) [OF b(1,2), of MAXFILE]
  have A: "nmeta \<le> unat a" "unat a < ?f" "(of_nat ?f :: u32) = freeblock t" using bd a by simp_all
  have s: "sector a = unat a" using A(2) r by (simp add: sector_small layout_defs)
  note N = new_entry [OF b(1-4) r a, unfolded A(3)]
  have I: "img u = (img t)(unat a := put32 (4 * (k - NDIRECT)) (freeblock t) (img t (unat a)))"
    by (simp add: u_def wsect_def s)
  show "only_blocks t u" using A b(5) r by (simp add: u_def wsect_def s only_blocks_def max_def)
  show f: "unat (freeblock u) = Suc ?f" using r by (simp add: u_def wsect_def unat_word_ariths layout_defs)
  show "blocks_ok (img u) (unat (freeblock u)) n D" unfolding I f by (rule N(2))
  show "fslot (img u) (D j) l = (if j = i \<and> l = k then freeblock t else fslot (img t) (D j) l)" if "j < n" "l \<le> MAXFILE"
    unfolding I by (rule N(1) [OF that])
  show "fdata (img u) (D j) l = fdata (img t) (D j) l" if "j < n" "l < MAXFILE" unfolding I by (rule N(3) [OF that])
qed

lemma iappend_indirect_ok:
  assumes b: "blocks_ok (img s) (unat (freeblock s)) n D" "i < n" "NDIRECT \<le> k" "k < MAXFILE" "nsects s = FSSIZE"
    and r: "unat (freeblock s) + new_blocks (img s) (D i) k < FSSIZE"
  shows "\<exists>x d t. iappend_block k (D i) s = Done (x, d, t) \<and> block_found n D i k s x d t"
proof -
  obtain d t where e: "iappend_addr NDIRECT (D i) s = (d, t)" by force
  have k: "addr_slot NDIRECT = MAXFILE" "NDIRECT \<le> NDIRECT" "k \<noteq> MAXFILE" "unat (freeblock s) < FSSIZE"
    using b(4) r by (simp_all add: addr_slot_def)
  note a = iappend_addr_ok [OF b(1,2) k(2,4) e, unfolded k(1)]
  have m: "img t = img s" "only_blocks s t" "nsects t = FSSIZE" using a(1) b(5) by simp_all
  define E where "E = D(i := d)"
  have E: "E i = d" "j \<noteq> i \<Longrightarrow> E j = D j" for j by (simp_all add: E_def)
  let ?a = "fslot (img t) d MAXFILE"
  have B: "blocks_ok (img t) (unat (freeblock t)) n E" using a(3) m(1) by (simp add: E_def)
  have sk: "fslot (img t) d k = fslot (img s) (D i) k" using a(6) [of k] b(4) k(3) m(1) by simp
  have fb: "unat (freeblock t) + of_bool (fslot (img s) (D i) k = 0) = unat (freeblock s) + new_blocks (img s) (D i) k"
    using a(4) b(3) by (simp add: new_blocks_def)
  have A: "?a = i_addrs d NDIRECT" "unat ?a < unat (freeblock t)" "fslot (img t) d k = get32 (4 * (k - NDIRECT)) (img t (unat ?a))"
    using blocks_okD(5) [OF B b(2), of MAXFILE] E a(5) b(3,4) k(3) m(1) by (simp_all add: fslot_indirect fslot_def)
  have rs: "rsect ?a t = Done (img t (unat ?a))"
    using A(2) fb r m by (simp add: rsect_def sector_small layout_defs)
  show ?thesis
  proof (cases "fslot (img s) (D i) k = 0")
    case False
    then have "iappend_block k (D i) s = Done (fslot (img t) d k, d, t)"
      using b(3) e rs A sk by (simp add: iappend_block_def Let_def)
    moreover have "block_found n D i k s (fslot (img t) d k) d t"
      unfolding block_found_def m(1) using a(2-) k(3) m b(3) False sk fb by auto
    ultimately show ?thesis by blast
  next
    case True
    define u where "u = wsect ?a (put32 (4 * (k - NDIRECT)) (freeblock t) (img t (unat ?a))) (t\<lparr>freeblock := freeblock t + 1\<rparr>)"
    have ai: "?a = fslot (img t) (E i) MAXFILE" "?a \<noteq> 0" "fslot (img t) (E i) k = 0" using True sk a(5) m(1) E by simp_all
    have f: "unat (freeblock t) < FSSIZE" "freeblock t \<noteq> 0" using fb r True blocks_okD(2) [OF B] by (auto simp: layout_defs)
    note N = indirect_entry_ok [OF B b(2-4) m(3) f(1) ai, folded u_def]
    have Ni: "fslot (img u) d l = (if l = k then freeblock t else fslot (img s) d l)" if "l \<le> MAXFILE" for l
      using N(4) [OF b(2) that] m(1) E by simp
    have "4 * (k - NDIRECT) + 4 \<le> length (img t (unat ?a))" using entry_range b(3,4) blocks_okD(1) [OF B] by simp
    then have "iappend_block k (D i) s = Done (freeblock t, d, u)"
      using b(3) e rs A True sk by (simp add: iappend_block_def Let_def u_def)
    moreover have "block_found n D i k s (freeblock t) d u"
      unfolding block_found_def E_def [symmetric]
    proof (intro conjI allI impI)
      show "blocks_ok (img u) (unat (freeblock u)) n E" by (rule N(3))
      show "fdata (img u) (E j) l = fdata (img s) (D j) l" if "j < n" "l < MAXFILE" for j l
        using N(5) [OF that] a(7) that E m(1) by (cases "j = i") simp_all
      show "fslot (img u) (D j) l = fslot (img s) (D j) l" if "j < n" "j \<noteq> i" "l \<le> MAXFILE" for j l
        using N(4) [of j l] that E m(1) by simp
    qed (use N(2) Ni b(3,4) f(2) a(2,5,6) fb True k(3) only_blocks_trans [OF m(2) N(1)] in auto)
    ultimately show ?thesis by blast
  qed
qed

lemma iappend_block_ok:
  assumes "blocks_ok (img s) (unat (freeblock s)) n D" "i < n" "k < MAXFILE" "nsects s = FSSIZE"
    "unat (freeblock s) + new_blocks (img s) (D i) k < FSSIZE"
  shows "\<exists>x d t. iappend_block k (D i) s = Done (x, d, t) \<and> block_found n D i k s x d t"
  using assms iappend_direct_ok [of s n D i k] iappend_indirect_ok [of s n D i k] by (cases "k < NDIRECT") auto

section \<open>Appending\<close>

text \<open>A file of \<open>n\<close> bytes has exactly the blocks it needs; how many these are.\<close>

definition sized :: "(nat \<Rightarrow> bytes) \<Rightarrow> inode \<Rightarrow> nat \<Rightarrow> bool" where
  "sized M d n \<longleftrightarrow>
     (\<forall>k<MAXFILE. fslot M d k \<noteq> 0 \<longleftrightarrow> k * BSIZE < n) \<and> (fslot M d MAXFILE \<noteq> 0 \<longleftrightarrow> NDIRECT * BSIZE < n)"

definition blocks_for :: "nat \<Rightarrow> nat" where
  "blocks_for n = (n + (BSIZE - 1)) div BSIZE + of_bool (NDIRECT * BSIZE < n)"

lemma blocks_for_mono: "m \<le> n \<Longrightarrow> blocks_for m \<le> blocks_for n"
  unfolding blocks_for_def by (intro add_mono div_le_mono) auto

lemma new_blocks_for:
  assumes s: "sized M d off" and k: "off div BSIZE = k" "k < MAXFILE" and m: "0 < m" "off + m \<le> (k + 1) * BSIZE"
  shows "blocks_for (off + m) = blocks_for off + new_blocks M d k"
proof -
  have k': "k * 1024 \<le> off" "off < (k + 1) * 1024" using k(1) div_times_less_eq_dividend [of off 1024] m by (auto simp: layout_defs)
  have z: "fslot M d k = 0 \<longleftrightarrow> off = k * 1024" "fslot M d MAXFILE = 0 \<longleftrightarrow> off \<le> 11 * 1024"
    using s k(2) k' by (auto simp: sized_def layout_defs)
  have d: "(off + m + 1023) div 1024 = k + 1" using k' m by (intro div_nat_eqI) (auto simp: layout_defs)
  have e: "(off + 1023) div 1024 = (if off = k * 1024 then k else k + 1)" using k' by (intro div_nat_eqI) auto
  have "of_bool (11 * 1024 < off + m) = of_bool (11 * 1024 < off) + (of_bool (11 \<le> k \<and> off \<le> 11 * 1024) :: nat)"
    using k' m by (auto simp: layout_defs)
  then show ?thesis using d e unfolding blocks_for_def new_blocks_def z by (simp add: layout_defs)
qed

lemma sized_chunk:
  assumes s: "sized M d off" and k: "off div BSIZE = k" "k < MAXFILE" and m: "0 < m" "off + m \<le> (k + 1) * BSIZE"
    and t: "fslot N e k \<noteq> 0" "\<And>l. l < MAXFILE \<Longrightarrow> l \<noteq> k \<Longrightarrow> fslot N e l = fslot M d l"
      "fslot N e MAXFILE \<noteq> 0 \<longleftrightarrow> NDIRECT \<le> k \<or> fslot M d MAXFILE \<noteq> 0"
  shows "sized N e (off + m)"
proof -
  have k': "k * 1024 \<le> off" "off < (k + 1) * 1024" using k(1) div_times_less_eq_dividend [of off 1024] m by (auto simp: layout_defs)
  have "l < MAXFILE \<Longrightarrow> fslot N e l \<noteq> 0 \<longleftrightarrow> l * BSIZE < off + m" for l
    using s t(1) t(2) [of l] k' m by (cases l k rule: linorder_cases) (auto simp: sized_def layout_defs)
  moreover have "fslot N e MAXFILE \<noteq> 0 \<longleftrightarrow> NDIRECT * BSIZE < off + m"
    using s t(3) k' m by (auto simp: sized_def layout_defs)
  ultimately show ?thesis by (simp add: sized_def)
qed

definition appended :: "nat \<Rightarrow> (nat \<Rightarrow> inode) \<Rightarrow> nat \<Rightarrow> mkfs \<Rightarrow> nat \<Rightarrow> bytes \<Rightarrow> inode \<Rightarrow> mkfs \<Rightarrow> bool" where
  "appended n D i s off p d t \<longleftrightarrow>
     blocks_ok (img t) (unat (freeblock t)) n (D(i := d)) \<and> (\<exists>a. d = (D i)\<lparr>i_addrs := a\<rparr>) \<and> sized (img t) d (off + length p) \<and>
     unat (freeblock t) + blocks_for off = unat (freeblock s) + blocks_for (off + length p) \<and>
     (\<forall>l<MAXFILE * BSIZE. fbyte (img t) d l = (if off \<le> l \<and> l < off + length p then p ! (l - off) else fbyte (img s) (D i) l)) \<and>
     (\<forall>j<n. j \<noteq> i \<longrightarrow> (\<forall>l\<le>MAXFILE. fslot (img t) (D j) l = fslot (img s) (D j) l) \<and>
        (\<forall>l<MAXFILE. fdata (img t) (D j) l = fdata (img s) (D j) l)) \<and> only_blocks s t"

lemma appended_trans:
  assumes "appended n D i s off p d t" "appended n (D(i := d)) i t (off + length p) q e u"
  shows "appended n D i s off (p @ q) e u"
proof -
  note a = assms [unfolded appended_def]
  have "fbyte (img u) e l = (if off \<le> l \<and> l < off + length (p @ q) then (p @ q) ! (l - off) else fbyte (img s) (D i) l)"
    if "l < MAXFILE * BSIZE" for l
    using a that by (auto simp: nth_append)
  moreover have "\<exists>x. e = (D i)\<lparr>i_addrs := x\<rparr>" using a by auto
  moreover have "unat (freeblock u) + blocks_for off = unat (freeblock s) + blocks_for (off + length (p @ q))"
    using a by (simp add: add.assoc)
  moreover have "only_blocks s u" using a only_blocks_trans by blast
  ultimately show ?thesis unfolding appended_def using a by (simp add: add.assoc)
qed

lemma block_foundD:
  assumes "block_found n D i k s x d t" "E = D(i := d)"
  shows "blocks_ok (img t) (unat (freeblock t)) n E" "x = fslot (img t) (E i) k" "x \<noteq> 0" "\<exists>a. d = (D i)\<lparr>i_addrs := a\<rparr>"
    "unat (freeblock t) = unat (freeblock s) + new_blocks (img s) (D i) k"
    "l < MAXFILE \<Longrightarrow> l \<noteq> k \<Longrightarrow> fslot (img t) (E i) l = fslot (img s) (D i) l"
    "fslot (img t) (E i) MAXFILE \<noteq> 0 \<longleftrightarrow> NDIRECT \<le> k \<or> fslot (img s) (D i) MAXFILE \<noteq> 0"
    "j < n \<Longrightarrow> l < MAXFILE \<Longrightarrow> fdata (img t) (E j) l = fdata (img s) (D j) l"
    "j < n \<Longrightarrow> j \<noteq> i \<Longrightarrow> l \<le> MAXFILE \<Longrightarrow> fslot (img t) (D j) l = fslot (img s) (D j) l" "only_blocks s t"
  using assms(1) unfolding block_found_def assms(2) fun_upd_same by blast+

lemma chunk_byte:
  assumes k: "off div BSIZE = k" and c: "off + length c \<le> (k + 1) * BSIZE" and b: "length (W k) = BSIZE"
    and V: "V (l div BSIZE) = (if l div BSIZE = k then patch (off mod BSIZE) c (W k) else W (l div BSIZE))"
  shows "V (l div BSIZE) ! (l mod BSIZE) =
    (if off \<le> l \<and> l < off + length c then c ! (l - off) else W (l div BSIZE) ! (l mod BSIZE))"
proof -
  have o: "off = k * BSIZE + off mod BSIZE" unfolding k [symmetric] by simp
  have lk: "off \<le> l \<Longrightarrow> l < off + length c \<Longrightarrow> l div BSIZE = k"
    using o c by (intro div_nat_eqI) (simp_all add: mult.commute)
  show ?thesis
  proof (cases "l div BSIZE = k")
    case True
    then have l: "l = k * BSIZE + l mod BSIZE" by (metis div_mult_mod_eq)
    have "off mod BSIZE + length c \<le> length (W k)" "l mod BSIZE < length (W k)"
      using o c b by (auto simp: layout_defs)
    moreover have "l - off = l mod BSIZE - off mod BSIZE" "off \<le> l \<longleftrightarrow> off mod BSIZE \<le> l mod BSIZE"
      "l < off + length c \<longleftrightarrow> l mod BSIZE < off mod BSIZE + length c"
      using o l by linarith+
    ultimately show ?thesis unfolding V using True by (simp add: nth_patch)
  qed (use V lk in auto)
qed

lemma chunk_ok:
  assumes b: "blocks_ok (img s) (unat (freeblock s)) n D" "i < n" "nsects s = FSSIZE" "sized (img s) (D i) off"
    and k: "off div BSIZE = k" "k < MAXFILE" and c: "c \<noteq> []" "off + length c \<le> (k + 1) * BSIZE"
    and r: "unat (freeblock s) + blocks_for (off + length c) < FSSIZE + blocks_for off"
  shows "\<exists>x d t. iappend_block k (D i) s = Done (x, d, t) \<and> rsect x t = Done (img t (unat x)) \<and>
    nsects t = FSSIZE \<and> appended n D i s off c d (wsect x (patch (off - k * BSIZE) c (img t (unat x))) t)"
proof -
  have lc: "0 < length c" using c(1) by simp
  note nb = new_blocks_for [OF b(4) k lc c(2)]
  obtain x d t where e: "iappend_block k (D i) s = Done (x, d, t)" and f: "block_found n D i k s x d t"
    using iappend_block_ok [OF b(1,2) k(2) b(3)] r nb by force
  define E where "E = D(i := d)"
  note B = block_foundD [OF f E_def]
  have E: "E i = d" "j \<noteq> i \<Longrightarrow> E j = D j" for j by (simp_all add: E_def)
  have ns: "nsects t = FSSIZE" using B(10) b(3) by (simp add: only_blocks_def)
  have nz: "fslot (img t) (E i) k \<noteq> 0" using B(2,3) by simp
  have x: "unat x < unat (freeblock t)" "nmeta \<le> unat x" "unat (freeblock t) < FSSIZE"
    using blocks_okD(4,5) [OF B(1) b(2) less_imp_le [OF k(2)] nz] B(2,5) nb r by auto
  then have s: "sector x = unat x" by (intro sector_small) (simp add: layout_defs)
  have p: "off mod BSIZE + length c \<le> BSIZE" "off - k * BSIZE = off mod BSIZE"
    using c(2) div_mult_mod_eq [of off BSIZE] unfolding k(1) by auto
  define v where "v = patch (off mod BSIZE) c (img t (unat x))"
  define u where "u = wsect x v t"
  have v: "length v = BSIZE" using p blocks_okD(1) [OF B(1)] by (simp add: v_def)
  have U: "img u = (img t)(unat (fslot (img t) (E i) k) := v)" "freeblock u = freeblock t" "only_blocks t u"
    using x s B(2) ns by (simp_all add: u_def wsect_def only_blocks_def max_def)
  note w = blocks_ok_write [OF B(1) b(2) k(2) nz v, folded U(1)]
  have dk: "fdata (img s) (D i) k = img t (unat x)" using B(2,3) B(8) [OF b(2) k(2)] by (auto simp: fdata_def)
  have "appended n D i s off c d u"
    unfolding appended_def E_def [symmetric] U(2)
  proof (intro conjI allI impI)
    show "sized (img u) d (off + length c)"
      using B(6,7) w(2) [OF b(2)] k(2) E nz by (intro sized_chunk [OF b(4) k lc c(2)]) auto
    show "fbyte (img u) d l = (if off \<le> l \<and> l < off + length c then c ! (l - off) else fbyte (img s) (D i) l)"
      if "l < MAXFILE * BSIZE" for l
    proof -
      have l: "l div BSIZE < MAXFILE" using that by (simp add: layout_defs)
      have "fdata (img u) d (l div BSIZE) = (if l div BSIZE = k then v else fdata (img s) (D i) (l div BSIZE))"
        using w(3) [OF b(2) less_imp_le [OF l]] B(8) [OF b(2) l] E by simp
      then show ?thesis unfolding fbyte_def v_def dk [symmetric]
        using blocks_okD(1) [OF B(1)] dk by (intro chunk_byte [OF k(1) c(2)]) simp_all
    qed
    show "only_blocks s u" by (rule only_blocks_trans [OF B(10) U(3)])
    show "fslot (img u) (D j) l = fslot (img s) (D j) l" if "j < n" "j \<noteq> i" "l \<le> MAXFILE" for j l
      using w(2) [of j l] B(9) that E(2) by simp
    show "fdata (img u) (D j) l = fdata (img s) (D j) l" if "j < n" "j \<noteq> i" "l < MAXFILE" for j l
      using w(3) [of j l] B(8) [of j l] that E(2) by simp
  qed (use w(1) B(4,5) nb in \<open>auto simp del: fun_upd_apply\<close>)
  then show ?thesis using e ns x s p(2) unfolding u_def v_def by (auto simp: rsect_def)
qed

lemma appended_Nil:
  assumes "blocks_ok (img s) (unat (freeblock s)) n D" "sized (img s) (D i) off"
  shows "appended n D i s off [] (D i) s"
proof -
  have "\<exists>a. D i = (D i)\<lparr>i_addrs := a\<rparr>" by (cases "D i") auto
  then show ?thesis using assms by (auto simp: appended_def only_blocks_def)
qed

lemma iappend_loop_ok:
  assumes "blocks_ok (img s) (unat (freeblock s)) n D" "i < n" "nsects s = FSSIZE" "sized (img s) (D i) (unat off)"
    "unat off + length p \<le> MAXFILE * BSIZE"
    "unat (freeblock s) + blocks_for (unat off + length p) < FSSIZE + blocks_for (unat off)"
  shows "\<exists>d t. iappend_loop p off (D i) s = Done (off + of_nat (length p), d, t) \<and> appended n D i s (unat off) p d t"
  using assms
proof (induction "length p" arbitrary: p off D s rule: less_induct)
  case less
  show ?case
  proof (cases "p = []")
    case True
    then show ?thesis using appended_Nil [of s n D i] less.prems by (subst iappend_loop.simps) auto
  next
    case False
    define k where "k = unat off div BSIZE"
    define m where "m = min (length p) ((k + 1) * BSIZE - unat off)"
    have "unat off < MAXFILE * BSIZE" using less.prems(5) False by (cases p) simp_all
    then have k: "k < MAXFILE" "unat off < (k + 1) * BSIZE"
      using less_div_times [of "unat off"] by (auto simp: k_def div_less_iff_less_mult BSIZE_def)
    have m: "0 < m" "m \<le> length p" "unat off + m \<le> (k + 1) * BSIZE" "length (take m p) = m" "take m p \<noteq> []"
      using False k by (auto simp: m_def)
    have mono: "blocks_for (unat off + m) \<le> blocks_for (unat off + length p)" using m(2) by (intro blocks_for_mono) simp
    obtain x d t where e: "iappend_block k (D i) s = Done (x, d, t)" "rsect x t = Done (img t (unat x))"
      and a: "appended n D i s (unat off) (take m p) d (wsect x (patch (unat off - k * BSIZE) (take m p) (img t (unat x))) t)"
      using chunk_ok [OF less.prems(1-4) k_def [symmetric] k(1) m(5)] m(3,4) less.prems(6) mono by force
    define u where "u = wsect x (patch (unat off - k * BSIZE) (take m p) (img t (unat x))) t"
    let ?E = "D(i := d)"
    note A = a [folded u_def, unfolded appended_def m(4)]
    have o: "unat (off + of_nat m) = unat off + m" using less.prems(5) m(2) by (intro unat_add_of_nat) (simp add: layout_defs)
    have "\<exists>e v. iappend_loop (drop m p) (off + of_nat m) (?E i) u = Done (off + of_nat m + of_nat (length (drop m p)), e, v) \<and>
        appended n ?E i u (unat (off + of_nat m)) (drop m p) e v"
    proof (rule less.hyps)
      show "blocks_ok (img u) (unat (freeblock u)) n ?E" "nsects u = FSSIZE" "sized (img u) (?E i) (unat (off + of_nat m))"
        using A less.prems(3) o by (auto simp: only_blocks_def)
      show "unat (freeblock u) + blocks_for (unat (off + of_nat m) + length (drop m p)) < FSSIZE + blocks_for (unat (off + of_nat m))"
        using A less.prems(6) m(2) unfolding o by simp
    qed (use m less.prems(2,5) o in auto)
    then obtain e' v where r: "iappend_loop (drop m p) (off + of_nat m) d u = Done (off + of_nat (length p), e', v)"
      and b: "appended n ?E i u (unat off + m) (drop m p) e' v"
      using m(2) unfolding o by (auto simp flip: of_nat_add simp add: add.assoc)
    have "min (length p) (BSIZE + k * BSIZE - unat off) = m" by (simp add: m_def)
    then have "iappend_loop p off (D i) s = Done (off + of_nat (length p), e', v)"
      using r e k(1) False by (subst iappend_loop.simps) (simp add: Let_def k_def [symmetric] u_def [symmetric])
    then show ?thesis using appended_trans [OF a [folded u_def], unfolded m(4), OF b] by auto
  qed
qed

end
