(* ===== verification/Mkfs_Table.thy ===== *)
theory Mkfs_Table
  imports Mkfs_Spec
begin

text \<open>
  The image as a table of files. The table lists, by inode number, the type, the time of modification
  and the contents of every inode, with an unused entry for number 0; \<open>tabled s T\<close> says that the state
  \<open>s\<close> of \<open>mkfs\<close> holds the table \<open>T\<close>. Allocating an inode and appending to a file refine the two
  corresponding operations on tables.
\<close>

section \<open>Inodes of the image\<close>

lemma mkfs_sb_values:
  "mkfs_sb = \<lparr>sb_size = 10000, sb_nblocks = 9953, sb_ninodes = 200, sb_nlog = 30, sb_logstart = 2,
     sb_inodestart = 32, sb_bmapstart = 45\<rparr>"
  by (simp add: mkfs_sb_def layout_defs)

lemma IBLOCK_mkfs:
  assumes "i < 208"
  shows "unat (IBLOCK (of_nat i) mkfs_sb) = 32 + i div 16"
proof -
  have "unat (of_nat i :: u32) = i" "unat (of_nat (i div 16) + 32 :: u32) = 32 + i div 16"
    using assms by (simp_all add: unat_word_ariths unat_of_nat)
  then show ?thesis by (simp add: IBLOCK_def mkfs_sb_values layout_defs)
qed

lemma inode_place:
  assumes "i < 208"
  shows "sector (IBLOCK (of_nat i) mkfs_sb) = 32 + i div 16" "dinode_off (of_nat i) = 64 * (i mod 16)"
  using assms by (simp_all add: sector_small IBLOCK_mkfs dinode_off_def unat_of_nat layout_defs)

definition put_inode :: "nat \<Rightarrow> inode \<Rightarrow> (nat \<Rightarrow> bytes) \<Rightarrow> nat \<Rightarrow> bytes" where
  "put_inode i d M = M(32 + i div 16 := put_dinode (64 * (i mod 16)) d (M (32 + i div 16)))"

lemma rinode_ok: "i < 208 \<Longrightarrow> nsects s = FSSIZE \<Longrightarrow> mk_sb s = mkfs_sb \<Longrightarrow> rinode (of_nat i) s = Done (dinode_at (img s) i)"
  by (simp add: rinode_def rsect_def inode_place dinode_at_def layout_defs)

lemma winode_ok:
  assumes "i < 208" "nsects s = FSSIZE" "mk_sb s = mkfs_sb"
  shows "winode (of_nat i) d s = Done (s\<lparr>img := put_inode i d (img s)\<rparr>)"
  using assms inode_place [OF assms(1)]
  by (cases s) (simp add: winode_def Let_def rsect_def wsect_def put_inode_def layout_defs max_def)

lemma dinode_range': "64 * (i mod 16) + sizeof_dinode \<le> BSIZE"
proof -
  have "i mod 16 < 16" by simp
  then show ?thesis by (simp add: layout_defs del: mod_less_divisor)
qed

lemma length_put_inode: "(\<And>k. length (M k) = BSIZE) \<Longrightarrow> length (put_inode i d M k) = BSIZE"
  using dinode_range' [of i] by (simp add: put_inode_def length_put_dinode)

lemma dinode_at_same:
  assumes "\<And>k. length (M k) = BSIZE" "e = dinode_at (put_inode i d M) i"
  shows "i_type e = i_type d" "i_major e = i_major d" "i_minor e = i_minor d" "i_nlink e = i_nlink d"
    "i_size e = i_size d" "i_mtime e = i_mtime d" "k \<le> NDIRECT \<Longrightarrow> i_addrs e k = i_addrs d k"
  using dinode_range' [of i] assms(1) by (simp_all add: assms(2) dinode_at_def put_inode_def get_put_dinode)

lemma dinode_at_other:
  assumes "\<And>k. length (M k) = BSIZE" "j \<noteq> i" "i < 208" "j < 208"
  shows "dinode_at (put_inode i d M) j = dinode_at M j"
proof (cases "j div 16 = i div 16")
  case True
  then have m: "unat (of_nat j :: u32) mod IPB \<noteq> unat (of_nat i :: u32) mod IPB"
    using assms(2-4) div_mult_mod_eq [of i 16] div_mult_mod_eq [of j 16] by (auto simp: unat_of_nat layout_defs)
  show ?thesis
    using get_dinode_other [OF _ m, of "M (32 + i div 16)" d no_dinode] assms(1) True inode_place(2) assms(3,4)
    by (simp add: dinode_at_def put_inode_def)
qed (simp add: dinode_at_def put_inode_def)

lemma dinode_at_cong: "i < 208 \<Longrightarrow> (\<And>a. a < nmeta \<Longrightarrow> M a = N a) \<Longrightarrow> dinode_at M i = dinode_at N i"
  by (simp add: dinode_at_def layout_defs)

section \<open>Tables of files\<close>

type_synonym fentry = "u16 \<times> u32 \<times> bytes"

abbreviation bytes_in :: "fentry \<Rightarrow> bytes" where
  "bytes_in e \<equiv> snd (snd e)"

definition table_new :: "u16 \<Rightarrow> u32 \<Rightarrow> fentry list \<Rightarrow> fentry list" where
  "table_new ty mt T = T @ [(ty, mt, [])]"

definition table_app :: "nat \<Rightarrow> bytes \<Rightarrow> fentry list \<Rightarrow> fentry list" where
  "table_app i p T = T[i := (fst (T ! i), fst (snd (T ! i)), bytes_in (T ! i) @ p)]"

definition table_blocks :: "fentry list \<Rightarrow> nat" where
  "table_blocks T = sum_list (map (\<lambda>e. blocks_for (length (bytes_in e))) T)"

text \<open>A table for which an image has room, and the tables that are contained in it.\<close>

definition fits :: "fentry list \<Rightarrow> bool" where
  "fits T \<longleftrightarrow> (\<forall>e\<in>set T. length (bytes_in e) \<le> MAXFILE * BSIZE) \<and> length T < NINODES \<and> nmeta + table_blocks T < FSSIZE"

definition extends :: "fentry list \<Rightarrow> fentry list \<Rightarrow> bool" where
  "extends T U \<longleftrightarrow> length T \<le> length U \<and>
     (\<forall>i<length T. fst (U ! i) = fst (T ! i) \<and> fst (snd (U ! i)) = fst (snd (T ! i)) \<and>
        (\<exists>q. bytes_in (U ! i) = bytes_in (T ! i) @ q))"

lemma extends_refl [simp]: "extends T T"
  by (auto simp: extends_def)

lemma extendsD:
  assumes "extends T U" "i < length T"
  shows "i < length U" "fst (U ! i) = fst (T ! i)" "fst (snd (U ! i)) = fst (snd (T ! i))"
    "\<exists>q. bytes_in (U ! i) = bytes_in (T ! i) @ q"
  using assms by (simp_all add: extends_def)

lemma extends_trans:
  assumes "extends T U" "extends U V"
  shows "extends T V"
  unfolding extends_def
proof (intro conjI allI impI)
  show "length T \<le> length V" using assms by (simp add: extends_def)
  fix i assume i: "i < length T"
  note t = extendsD [OF assms(1) i]
  note u = extendsD [OF assms(2) t(1)]
  show "fst (V ! i) = fst (T ! i)" "fst (snd (V ! i)) = fst (snd (T ! i))" using t u by simp_all
  show "\<exists>q. bytes_in (V ! i) = bytes_in (T ! i) @ q" using t(4) u(4) by auto
qed

lemma extends_new [simp]: "extends T (table_new ty mt T)"
  by (auto simp: extends_def table_new_def nth_append)

lemma extends_app [simp]: "extends T (table_app i p T)"
  by (cases "i < length T") (auto simp: extends_def table_app_def nth_list_update list_update_beyond)

lemma table_blocks_mono:
  assumes "length T \<le> length U" "\<And>i. i < length T \<Longrightarrow> length (bytes_in (T ! i)) \<le> length (bytes_in (U ! i))"
  shows "table_blocks T \<le> table_blocks U"
  using assms
proof (induction T arbitrary: U)
  case (Cons e T)
  then obtain f V where U: "U = f # V" by (cases U) auto
  have "table_blocks T \<le> table_blocks V"
    using Cons.prems(1) Cons.prems(2) [of "Suc i" for i] by (intro Cons.IH) (auto simp: U)
  moreover have "blocks_for (length (bytes_in e)) \<le> blocks_for (length (bytes_in f))"
    using Cons.prems(2) [of 0] by (intro blocks_for_mono) (simp add: U)
  ultimately show ?case by (simp add: table_blocks_def U)
qed (simp add: table_blocks_def)

lemma fits_extends:
  assumes "extends T U" "fits U"
  shows "fits T"
proof -
  have l: "length (bytes_in (T ! i)) \<le> length (bytes_in (U ! i))" if "i < length T" for i
    using extendsD(4) [OF assms(1) that] by auto
  have n: "length T \<le> length U" using assms(1) by (simp add: extends_def)
  have "table_blocks T \<le> table_blocks U" by (rule table_blocks_mono [OF n l])
  moreover have "length (bytes_in e) \<le> MAXFILE * BSIZE" if e: "e \<in> set T" for e
  proof -
    obtain i where i: "i < length T" "e = T ! i" using e unfolding in_set_conv_nth by blast
    have "U ! i \<in> set U" using n i(1) by simp
    then have "length (bytes_in (U ! i)) \<le> MAXFILE * BSIZE" using assms(2) unfolding fits_def by blast
    then show ?thesis using l [OF i(1)] i(2) by simp
  qed
  ultimately show ?thesis using assms(2) n by (simp add: fits_def)
qed

text \<open>An image that holds a table.\<close>

definition inode_holds :: "(nat \<Rightarrow> bytes) \<Rightarrow> inode \<Rightarrow> fentry \<Rightarrow> bool" where
  "inode_holds M d e \<longleftrightarrow>
     i_type d = fst e \<and> i_mtime d = fst (snd e) \<and> i_size d = of_nat (length (bytes_in e)) \<and>
     length (bytes_in e) \<le> MAXFILE * BSIZE \<and> sized M d (length (bytes_in e)) \<and>
     (\<forall>p<MAXFILE * BSIZE. fbyte M d p = (if p < length (bytes_in e) then bytes_in e ! p else 0))"

definition super_block :: bytes where
  "super_block = patch 0 (bytes_of_superblock mkfs_sb) (replicate BSIZE 0)"

definition meta_ok :: "(nat \<Rightarrow> bytes) \<Rightarrow> nat \<Rightarrow> bool" where
  "meta_ok M n \<longleftrightarrow>
     (\<forall>a<nmeta. a < 32 \<or> 45 \<le> a \<longrightarrow> M a = (if a = 1 then super_block else replicate BSIZE 0)) \<and>
     (\<forall>i<208. i_nlink (dinode_at M i) = (if 0 < i \<and> i < n then 1 else 0) \<and> (n \<le> i \<longrightarrow> i_type (dinode_at M i) = 0))"

definition tabled :: "mkfs \<Rightarrow> fentry list \<Rightarrow> bool" where
  "tabled s T \<longleftrightarrow>
     nsects s = FSSIZE \<and> mk_sb s = mkfs_sb \<and> freeinode s = of_nat (length T) \<and> 0 < length T \<and> length T < NINODES \<and>
     blocks_ok (img s) (unat (freeblock s)) (length T) (dinode_at (img s)) \<and>
     (\<forall>i<length T. inode_holds (img s) (dinode_at (img s) i) (T ! i)) \<and>
     unat (freeblock s) = nmeta + table_blocks T \<and> meta_ok (img s) (length T)"

section \<open>Writing an inode back\<close>

lemma put_inode_ok:
  assumes b: "blocks_ok M fb n F" and i: "i < n" "n \<le> 208" and e: "\<forall>k\<le>NDIRECT. i_addrs e k = i_addrs (F i) k"
    and F: "\<forall>j<n. j \<noteq> i \<longrightarrow> F j = dinode_at M j" and N: "N = put_inode i e M"
  shows "blocks_ok N fb n (dinode_at N)"
    "j < n \<Longrightarrow> k \<le> MAXFILE \<Longrightarrow> fslot N (dinode_at N j) k = fslot M (F j) k"
    "j < n \<Longrightarrow> k \<le> MAXFILE \<Longrightarrow> fdata N (dinode_at N j) k = fdata M (F j) k"
proof -
  note l = blocks_okD(1) [OF b]
  let ?a = "32 + i div 16"
  have a: "?a < nmeta" "length (N ?a) = BSIZE" "M(?a := N ?a) = N"
    using i length_put_inode [of M i e ?a, OF l] by (simp_all add: N layout_defs put_inode_def)
  have "i_addrs (dinode_at N j) k = i_addrs (F j) k" if "j < n" "k \<le> NDIRECT" for j k
    using dinode_at_same(7) [of M, OF l refl that(2), of i e] dinode_at_other [of M, OF l, of j i e] F that i e N
    by (cases "j = i") auto
  note m = blocks_ok_meta [OF b a(1,2), of "dinode_at N", OF this, unfolded a(3)]
  then show "blocks_ok N fb n (dinode_at N)"
    "j < n \<Longrightarrow> k \<le> MAXFILE \<Longrightarrow> fslot N (dinode_at N j) k = fslot M (F j) k"
    "j < n \<Longrightarrow> k \<le> MAXFILE \<Longrightarrow> fdata N (dinode_at N j) k = fdata M (F j) k" by blast+
qed

lemma sized_cong: "(\<And>k. k \<le> MAXFILE \<Longrightarrow> fslot N e k = fslot M d k) \<Longrightarrow> sized N e n = sized M d n"
  by (simp add: sized_def)

lemma fbyte_cong: "(\<And>k. k < MAXFILE \<Longrightarrow> fdata N e k = fdata M d k) \<Longrightarrow> p < MAXFILE * BSIZE \<Longrightarrow> fbyte N e p = fbyte M d p"
  by (simp add: fbyte_def layout_defs)

lemma inode_holds_cong:
  assumes "inode_holds M d e" "\<And>k. k \<le> MAXFILE \<Longrightarrow> fslot N d' k = fslot M d k"
    "\<And>k. k < MAXFILE \<Longrightarrow> fdata N d' k = fdata M d k" "i_type d' = i_type d" "i_mtime d' = i_mtime d" "i_size d' = i_size d"
  shows "inode_holds N d' e"
  using assms sized_cong [of N d' M d] fbyte_cong [of N d' M d] by (auto simp: inode_holds_def)

lemma meta_ok_put:
  assumes "meta_ok M n" "i < 208" "\<And>k. length (M k) = BSIZE"
    "i_nlink e = (if 0 < i \<and> i < m then 1 else 0)" "i < m" "\<And>j. j \<noteq> i \<Longrightarrow> j < n \<longleftrightarrow> j < m"
  shows "meta_ok (put_inode i e M) m"
  unfolding meta_ok_def
proof (intro conjI allI impI)
  show "put_inode i e M a = (if a = 1 then super_block else replicate BSIZE 0)" if "a < nmeta" "a < 32 \<or> 45 \<le> a" for a
    using assms(1,2) that by (auto simp: meta_ok_def put_inode_def)
  show "i_nlink (dinode_at (put_inode i e M) j) = (if 0 < j \<and> j < m then 1 else 0)" if "j < 208" for j
    using assms that dinode_at_same(4) [of M, OF assms(3) refl, of i e] dinode_at_other [of M, OF assms(3), of j i e]
    by (cases "j = i") (auto simp: meta_ok_def)
  show "i_type (dinode_at (put_inode i e M) j) = 0" if "j < 208" "m \<le> j" for j
    using assms(1,2,5) assms(6) [of j] that dinode_at_other [of M, OF assms(3), of j i e]
    by (cases "j = i") (auto simp: meta_ok_def)
qed

section \<open>Appending to a file of the table\<close>

lemma tabledD:
  assumes "tabled s T"
  shows "nsects s = FSSIZE" "mk_sb s = mkfs_sb" "freeinode s = of_nat (length T)" "0 < length T" "length T < NINODES"
    "blocks_ok (img s) (unat (freeblock s)) (length T) (dinode_at (img s))"
    "i < length T \<Longrightarrow> inode_holds (img s) (dinode_at (img s) i) (T ! i)"
    "unat (freeblock s) = nmeta + table_blocks T" "meta_ok (img s) (length T)"
  using assms unfolding tabled_def by blast+

lemma table_app_blocks:
  assumes "i < length T"
  shows "table_blocks (table_app i p T) + blocks_for (length (bytes_in (T ! i))) =
    table_blocks T + blocks_for (length (bytes_in (T ! i)) + length p)"
proof -
  let ?f = "\<lambda>e :: fentry. blocks_for (length (bytes_in e))"
  have "sum_list ((map ?f T)[i := x]) + map ?f T ! i = sum_list (map ?f T) + x" for x
    using assms elem_le_sum_list [of i "map ?f T"] by (simp add: sum_list_update)
  then show ?thesis using assms by (simp add: table_blocks_def table_app_def map_update)
qed

lemma appended_tabled:
  assumes t: "tabled s T" and i: "i < length T"
    and a: "appended (length T) (dinode_at (img s)) i s (length (bytes_in (T ! i))) p d t"
    and c: "length (bytes_in (T ! i)) + length p \<le> MAXFILE * BSIZE"
  defines "d' \<equiv> d\<lparr>i_size := of_nat (length (bytes_in (T ! i)) + length p)\<rparr>"
  shows "tabled (t\<lparr>img := put_inode i d' (img t)\<rparr>) (table_app i p T)"
proof -
  note td = tabledD [OF t]
  define D where "D = dinode_at (img s)"
  let ?n = "length T" and ?T = "table_app i p T" and ?F = "D(i := d)"
  define N where "N = put_inode i d' (img t)"
  have n: "?n \<le> 208" "i < 208" using td(5) i by (simp_all add: layout_defs)
  note h = td(7) [OF i, folded D_def, unfolded inode_holds_def]
  note A = a [folded D_def, unfolded appended_def]
  have B: "blocks_ok (img t) (unat (freeblock t)) ?n ?F" using A by blast
  obtain x where x: "d = (D i)\<lparr>i_addrs := x\<rparr>" using A by blast
  have m: "\<And>a. a < nmeta \<Longrightarrow> img t a = img s a" "nsects t = FSSIZE" "freeinode t = freeinode s" "mk_sb t = mkfs_sb"
    using A td(1,2) by (simp_all add: only_blocks_def)
  have Dt: "dinode_at (img t) j = D j" if "j < 208" for j unfolding D_def using that m(1) by (rule dinode_at_cong)
  have mt: "meta_ok (img t) ?n" using td(9) m(1) Dt by (simp add: meta_ok_def D_def)
  have "\<forall>k\<le>NDIRECT. i_addrs d' k = i_addrs (?F i) k" "\<forall>j<?n. j \<noteq> i \<longrightarrow> ?F j = dinode_at (img t) j"
    using Dt n by (simp_all add: d'_def)
  note P = put_inode_ok [OF B i n(1) this N_def]
  note lt = blocks_okD(1) [OF B]
  note S = dinode_at_same(1-6) [of "img t", OF lt refl, where i = i and d = d', folded N_def]
  have O: "dinode_at N j = D j" if "j < ?n" "j \<noteq> i" for j
    unfolding N_def using dinode_at_other [of "img t" j i d', OF lt that(2) n(2)] Dt that(1) n(1) by simp
  have hold: "inode_holds N (dinode_at N j) (?T ! j)" if j: "j < ?n" for j
  proof (cases "j = i")
    case True
    have "sized N (dinode_at N i) (length (bytes_in (T ! i)) + length p)"
      using A sized_cong [of N "dinode_at N i" "img t" d] P(2) [OF i] by simp
    moreover have "fbyte N (dinode_at N i) k = (if k < length (bytes_in (T ! i) @ p) then (bytes_in (T ! i) @ p) ! k else 0)"
      if k: "k < MAXFILE * BSIZE" for k
      using A h k fbyte_cong [of N "dinode_at N i" "img t" d k] P(3) [OF i] by (simp add: nth_append)
    ultimately show ?thesis using True i h S x c by (simp add: inode_holds_def table_app_def d'_def)
  next
    case False
    then have "inode_holds N (dinode_at N j) (T ! j)"
      using A j O P(2,3) [OF j] by (intro inode_holds_cong [OF td(7) [OF j]]) (simp_all add: D_def)
    then show ?thesis using False by (simp add: table_app_def)
  qed
  have "meta_ok N ?n" unfolding N_def
    using td(9) i n by (intro meta_ok_put [OF mt n(2) lt]) (auto simp: d'_def x meta_ok_def D_def)
  moreover have "unat (freeblock t) = nmeta + table_blocks ?T" using A td(8) table_app_blocks [OF i, of p] by linarith
  moreover have "length ?T = ?n" by (simp add: table_app_def)
  ultimately show ?thesis
    unfolding tabled_def using m td(3-5) P(1) hold by (simp add: N_def [symmetric])
qed

lemma tabled_app:
  assumes t: "tabled s T" and i: "i < length T" and f: "fits (table_app i p T)"
  shows "\<exists>u. iappend (of_nat i) p s = Done u \<and> tabled u (table_app i p T)"
proof -
  note td = tabledD [OF t]
  define D where "D = dinode_at (img s)"
  let ?c = "bytes_in (T ! i)" and ?n = "length T" and ?T = "table_app i p T"
  have n: "?n \<le> 208" "i < 208" using td(5) i by (simp_all add: layout_defs)
  note h = td(7) [OF i, folded D_def, unfolded inode_holds_def]
  have e: "?T ! i = (fst (T ! i), fst (snd (T ! i)), ?c @ p)" "length ?T = ?n" "\<And>j. j \<noteq> i \<Longrightarrow> ?T ! j = T ! j"
    using i by (simp_all add: table_app_def)
  have "?T ! i \<in> set ?T" using i e(2) by simp
  then have "length (bytes_in (?T ! i)) \<le> MAXFILE * BSIZE" using f unfolding fits_def by blast
  then have c: "length ?c + length p \<le> MAXFILE * BSIZE" using e(1) by simp
  have sz: "unat (i_size (D i)) = length ?c" using h c by (simp add: unat_of_nat layout_defs)
  note tb = table_app_blocks [OF i, of p]
  have r: "unat (freeblock s) + blocks_for (length ?c + length p) < FSSIZE + blocks_for (length ?c)"
    using f td(8) tb by (simp add: fits_def)
  obtain d t' where l: "iappend_loop p (i_size (D i)) (D i) s = Done (i_size (D i) + of_nat (length p), d, t')"
    and a: "appended ?n D i s (length ?c) p d t'"
    using iappend_loop_ok [OF td(6) [folded D_def] i td(1), of "i_size (D i)" p] h c r unfolding sz by auto
  note A = a [unfolded appended_def only_blocks_def]
  define d' where "d' = d\<lparr>i_size := i_size (D i) + of_nat (length p)\<rparr>"
  define u where "u = t'\<lparr>img := put_inode i d' (img t')\<rparr>"
  have fb: "unat (freeblock t') = nmeta + table_blocks ?T" using A td(8) tb by linarith
  then have "freeblock t' < of_nat FSSIZE" using f by (simp add: word_less_nat_alt fits_def layout_defs)
  then have "iappend (of_nat i) p s = Done u"
    using l A td(1,2) rinode_ok [OF n(2) td(1,2), folded D_def] winode_ok [OF n(2), of t' d']
    by (simp add: iappend_def u_def d'_def)
  moreover have "tabled u ?T"
    unfolding u_def d'_def using appended_tabled [OF t i a [unfolded D_def] c] h by simp
  ultimately show ?thesis by blast
qed

section \<open>A new inode\<close>

lemma blocks_ok_Suc:
  assumes b: "blocks_ok M fb n D" and d: "\<forall>k\<le>MAXFILE. fslot M d k = 0"
  shows "blocks_ok M fb (Suc n) (D(n := d))"
proof -
  note bd = blocks_okD [OF b]
  have e: "i < n \<and> (D(n := d)) i = D i" if "i < Suc n" "k \<le> MAXFILE" "fslot M ((D(n := d)) i) k \<noteq> 0" for i k
    using that d by (auto simp: less_Suc_eq split: if_splits)
  show ?thesis
    unfolding blocks_ok_def using bd(1-3)
    by (intro conjI) (use e bd(4-6) in metis)+
qed

lemma tabled_new:
  assumes t: "tabled s T" and f: "fits (table_new ty mt T)"
  shows "\<exists>u. mkfs_ialloc ty mt s = Done (of_nat (length T), u) \<and> tabled u (table_new ty mt T)"
proof -
  note td = tabledD [OF t]
  let ?n = "length T" and ?D = "dinode_at (img s)"
  define d where "d = no_dinode\<lparr>i_type := ty, i_nlink := 1, i_size := 0, i_mtime := mt\<rparr>"
  define u where "u = s\<lparr>freeinode := freeinode s + 1, img := put_inode ?n d (img s)\<rparr>"
  let ?N = "put_inode ?n d (img s)"
  have n: "Suc ?n < NINODES" "?n < 208" "Suc ?n \<le> 208" using f by (simp_all add: fits_def table_new_def layout_defs)
  have z: "fslot (img s) d k = 0" for k by (simp add: fslot_def d_def no_dinode_def)
  have B: "blocks_ok (img s) (unat (freeblock s)) (Suc ?n) (?D(?n := d))" using blocks_ok_Suc [OF td(6)] z by simp
  have "\<forall>k\<le>NDIRECT. i_addrs d k = i_addrs ((?D(?n := d)) ?n) k" "\<forall>j<Suc ?n. j \<noteq> ?n \<longrightarrow> (?D(?n := d)) j = ?D j" by simp_all
  note P = put_inode_ok [OF B lessI n(3) this refl]
  note lt = blocks_okD(1) [OF B]
  note S = dinode_at_same(1-6) [of "img s", OF lt refl, where i = ?n and d = d]
  have fi: "freeinode s + 1 < of_nat NINODES" "freeinode s + 1 = of_nat (Suc ?n)"
    using n by (simp_all add: td(3) word_less_nat_alt unat_word_ariths unat_of_nat layout_defs)
  then have "mkfs_ialloc ty mt s = Done (of_nat ?n, u)"
    using td(1,2,3) winode_ok [OF n(2), of "s\<lparr>freeinode := freeinode s + 1\<rparr>" d]
    by (simp add: mkfs_ialloc_def Let_def d_def u_def)
  moreover have "tabled u (table_new ty mt T)"
  proof -
    have "inode_holds ?N (dinode_at ?N j) (table_new ty mt T ! j)" if j: "j < Suc ?n" for j
    proof (cases "j = ?n")
      case True
      have s0: "fslot ?N (dinode_at ?N ?n) k = 0" if "k \<le> MAXFILE" for k using P(2) [OF lessI that] z by simp
      have "fbyte ?N (dinode_at ?N ?n) p = 0" if "p < MAXFILE * BSIZE" for p
        using s0 [of "p div BSIZE"] that by (simp add: fbyte_def fdata_def layout_defs)
      then show ?thesis using True S s0 by (simp add: inode_holds_def table_new_def sized_def d_def)
    next
      case False
      then have jn: "j < ?n" using j by simp
      have "dinode_at ?N j = ?D j" using dinode_at_other [of "img s", OF lt False n(2)] jn n(2) by simp
      then have "inode_holds ?N (dinode_at ?N j) (T ! j)"
        using P(2,3) [OF j] False by (intro inode_holds_cong [OF td(7) [OF jn]]) simp_all
      then show ?thesis using jn by (simp add: table_new_def nth_append)
    qed
    moreover have "meta_ok ?N (Suc ?n)" using td(4) by (intro meta_ok_put [OF td(9) n(2) lt]) (auto simp: d_def)
    moreover have "table_blocks (table_new ty mt T) = table_blocks T"
      by (simp add: table_blocks_def table_new_def blocks_for_def BSIZE_def)
    ultimately show ?thesis
      unfolding tabled_def using td(1,2,8) fi(2) n(1) P(1) by (simp add: u_def table_new_def)
  qed
  ultimately show ?thesis by blast
qed

end
