(* ===== verification/Mkfs_Props.thy ===== *)
theory Mkfs_Props
  imports Mkfs_Table Fs_Names Recovery
begin

text \<open>
  The image that \<open>mkfs\<close> builds. The directory of the host determines a table of files; if the table
  fits, \<open>mkfs\<close> returns with an image that holds it, and the table represents the directory of the host,
  name by name. The kernel finds on the image the layout on which its file system rests, and reads back
  the contents of the files.
\<close>

section \<open>Copying a directory into a table\<close>

definition dot_name :: "bytes \<Rightarrow> bool" where
  "dot_name nm \<longleftrightarrow> nm = [46] \<or> nm = [46, 46]"

definition name_entry :: "bytes \<Rightarrow> nat \<Rightarrow> bytes" where
  "name_entry nm k = bytes_of_dirent \<lparr>de_inum = of_nat k, de_name = strncpy (cstr nm) (int DIRSIZ)\<rparr>"

definition table_file :: "nat \<Rightarrow> bytes \<Rightarrow> u32 \<Rightarrow> bytes \<Rightarrow> fentry list \<Rightarrow> fentry list" where
  "table_file d nm mt c T =
     table_app (length T) c (table_app d (name_entry nm (length T)) (table_new T_FILE mt T))"

definition table_dir :: "nat \<Rightarrow> bytes \<Rightarrow> u32 \<Rightarrow> fentry list \<Rightarrow> fentry list" where
  "table_dir d nm mt T =
     (let n = length T in
      table_app d (name_entry nm n) (table_app n (name_entry [46, 46] d) (table_app n (name_entry [46] n) (table_new T_DIR mt T))))"

fun table_add :: "nat \<Rightarrow> (bytes \<times> host) list \<Rightarrow> fentry list \<Rightarrow> fentry list" where
  "table_add d [] T = T"
| "table_add d ((nm, h) # es) T =
     table_add d es
       (if dot_name nm then T
        else case h of
            Host_File mt (Some c) \<Rightarrow> table_file d nm mt c T
          | Host_Dir mt (Some sub) \<Rightarrow> table_add (length T) sub (table_dir d nm mt T)
          | _ \<Rightarrow> T)"

text \<open>Every file of the directory can be opened.\<close>

fun all_readable :: "(bytes \<times> host) list \<Rightarrow> bool" where
  "all_readable [] \<longleftrightarrow> True"
| "all_readable ((nm, h) # es) \<longleftrightarrow>
     (dot_name nm \<or>
       (case h of
          Host_File mt fd \<Rightarrow> fd \<noteq> None
        | Host_Dir mt sub \<Rightarrow> (case sub of None \<Rightarrow> False | Some sub \<Rightarrow> all_readable sub)
        | Host_Other \<Rightarrow> True
        | Host_Missing \<Rightarrow> False)) \<and> all_readable es"

lemma length_table [simp]: "length (table_app i p T) = length T" "length (table_new ty mt T) = Suc (length T)"
  "length (table_dir d nm mt T) = Suc (length T)" "length (table_file d nm mt c T) = Suc (length T)"
  by (simp_all add: table_app_def table_new_def table_dir_def table_file_def Let_def)

lemma extends_length: "extends T U \<Longrightarrow> length T \<le> length U"
  by (simp add: extends_def)

lemma extends_file [simp]: "extends T (table_file d nm mt c T)"
  unfolding table_file_def by (rule extends_trans [OF extends_new extends_trans [OF extends_app extends_app]])

lemma extends_dir [simp]: "extends T (table_dir d nm mt T)"
  unfolding table_dir_def Let_def
  by (rule extends_trans [OF extends_new extends_trans [OF extends_app extends_trans [OF extends_app extends_app]]])

definition table_host :: "nat \<Rightarrow> bytes \<Rightarrow> host \<Rightarrow> fentry list \<Rightarrow> fentry list" where
  "table_host d nm h T =
     (if dot_name nm then T
      else case h of
          Host_File mt (Some c) \<Rightarrow> table_file d nm mt c T
        | Host_Dir mt (Some sub) \<Rightarrow> table_add (length T) sub (table_dir d nm mt T)
        | _ \<Rightarrow> T)"

lemma table_add_Cons: "table_add d ((nm, h) # es) T = table_add d es (table_host d nm h T)"
  by (simp add: table_host_def)

lemma extends_add: "extends T (table_add d es T)"
proof (induction d es T rule: table_add.induct)
  case (2 d nm h es T)
  have "extends T (table_host d nm h T)"
  proof (cases h)
    case (Host_File mt fd)
    then show ?thesis by (cases fd) (simp_all add: table_host_def)
  next
    case (Host_Dir mt sub)
    have "\<not> dot_name nm \<Longrightarrow> sub = Some l \<Longrightarrow> extends T (table_add (length T) l (table_dir d nm mt T))" for l
      by (rule extends_trans [OF extends_dir 2(1)]) (simp_all add: Host_Dir)
    then show ?thesis by (cases sub) (simp_all add: table_host_def Host_Dir)
  qed (simp_all add: table_host_def)
  then show ?case unfolding table_add_Cons using 2(2) [folded table_host_def] by (rule extends_trans)
qed simp

lemma table_app_app: "table_app i q (table_app i p T) = table_app i (p @ q) T"
  by (cases "i < length T") (simp_all add: table_app_def list_update_beyond)

lemma table_app_Nil: "table_app i [] T = T"
  by (cases "i < length T") (simp_all add: table_app_def list_update_beyond)

section \<open>The operations of \<open>mkfs\<close> on tables\<close>

lemma name_entry_eq:
  assumes "k < 2 ^ 16"
  shows "dappend (of_nat i) nm (of_nat k) s = iappend (of_nat i) (name_entry nm k) s"
proof -
  have "(ucast (of_nat k :: u32) :: u16) = of_nat k" using assms
    by (intro word_unat_eq_iff [THEN iffD2]) (simp add: unat_of_nat unsigned_ucast_eq take_bit_nat_eq_self)
  then show ?thesis by (simp add: dappend_def name_entry_def)
qed

lemma tabled_small: "tabled s T \<Longrightarrow> i < length T \<Longrightarrow> i < 2 ^ 16"
  using tabledD(5) [of s T] by (simp add: layout_defs)

lemma tabled_dappend:
  assumes "tabled s T" "i < length T" "k < length T" "fits (table_app i (name_entry nm k) T)"
  shows "\<exists>u. dappend (of_nat i) nm (of_nat k) s = Done u \<and> tabled u (table_app i (name_entry nm k) T)"
  using tabled_app [OF assms(1,2,4)] name_entry_eq [OF tabled_small [OF assms(1,3)]] by simp

lemma tabled_fappend_loop:
  assumes "tabled s T" "i < length T" "fits (table_app i c T)"
  shows "\<exists>u. fappend_loop (of_nat i) c s = Done u \<and> tabled u (table_app i c T)"
  using assms
proof (induction "length c" arbitrary: c s T rule: less_induct)
  case less
  show ?case
  proof (cases "c = []")
    case True
    then show ?thesis using less.prems(1) by (subst fappend_loop.simps) (simp add: table_app_Nil)
  next
    case False
    let ?U = "table_app i (take BSIZE c) T"
    have e: "table_app i (drop BSIZE c) ?U = table_app i c T" by (simp add: table_app_app)
    then have "fits ?U" using less.prems(3) fits_extends [OF extends_app] by metis
    then obtain u where u: "iappend (of_nat i) (take BSIZE c) s = Done u" "tabled u ?U"
      using tabled_app less.prems(1,2) by blast
    then show ?thesis
      using less.hyps [of "drop BSIZE c" u ?U] False less.prems(2,3) e
      by (subst fappend_loop.simps) (simp add: layout_defs)
  qed
qed

lemma tabled_fappend:
  assumes t: "tabled s T" and d: "d < length T" and f: "fits (table_file d nm mt c T)"
  shows "\<exists>u. fappend (of_nat d) nm mt (Some c) s = Done u \<and> tabled u (table_file d nm mt c T)"
proof -
  let ?n = "length T" and ?T = "table_new T_FILE mt T"
  let ?U = "table_app d (name_entry nm ?n) ?T"
  have fU: "fits ?U" "fits ?T"
    using fits_extends [OF extends_app f [unfolded table_file_def]] fits_extends [OF extends_app] by blast+
  obtain s1 where s1: "mkfs_ialloc T_FILE mt s = Done (of_nat ?n, s1)" "tabled s1 ?T" using tabled_new [OF t fU(2)] by blast
  obtain s2 where s2: "dappend (of_nat d) nm (of_nat ?n) s1 = Done s2" "tabled s2 ?U"
    using tabled_dappend [OF s1(2) _ _ fU(1)] d by auto
  obtain s3 where s3: "fappend_loop (of_nat ?n) c s2 = Done s3" "tabled s3 (table_file d nm mt c T)"
    using tabled_fappend_loop [OF s2(2) _ f [unfolded table_file_def]] by (auto simp: table_file_def)
  show ?thesis using s1 s2 s3 by (simp add: fappend_def)
qed

lemma tabled_makdir:
  assumes t: "tabled s T" and d: "d < length T" and f: "fits (table_dir d nm mt T)"
  shows "\<exists>u. makdir (of_nat d) nm mt s = Done (of_nat (length T), u) \<and> tabled u (table_dir d nm mt T)"
proof -
  let ?n = "length T" and ?T = "table_new T_DIR mt T"
  let ?U = "table_app ?n (name_entry [46] ?n) ?T"
  let ?V = "table_app ?n (name_entry [46, 46] d) ?U"
  have fV: "fits (table_app d (name_entry nm ?n) ?V)" using f by (simp add: table_dir_def Let_def)
  then have fU: "fits ?V" "fits ?U" "fits ?T" using fits_extends [OF extends_app] by blast+
  obtain s1 where s1: "mkfs_ialloc T_DIR mt s = Done (of_nat ?n, s1)" "tabled s1 ?T" using tabled_new [OF t fU(3)] by blast
  obtain s2 where s2: "dappend (of_nat ?n) [46] (of_nat ?n) s1 = Done s2" "tabled s2 ?U"
    using tabled_dappend [OF s1(2) _ _ fU(2)] by auto
  obtain s3 where s3: "dappend (of_nat ?n) [46, 46] (of_nat d) s2 = Done s3" "tabled s3 ?V"
    using tabled_dappend [OF s2(2) _ _ fU(1)] d by auto
  obtain s4 where s4: "dappend (of_nat d) nm (of_nat ?n) s3 = Done s4" "tabled s4 (table_dir d nm mt T)"
    using tabled_dappend [OF s3(2) _ _ fV] d by (auto simp: table_dir_def Let_def)
  show ?thesis using s1 s2 s3 s4 by (simp add: makdir_def)
qed

lemma tabled_add:
  assumes "all_readable es" "tabled s T" "d < length T" "fits (table_add d es T)"
  shows "\<exists>u. add_directory (of_nat d) es s = Done u \<and> tabled u (table_add d es T)"
  using assms
proof (induction es arbitrary: d s T rule: all_readable.induct)
  case (2 nm h es)
  let ?S = "table_host d nm h T"
  have f: "fits ?S" using fits_extends [OF extends_add] 2(6) unfolding table_add_Cons by blast
  have "\<exists>u. (if dot_name nm then Done s
        else case h of
             Host_Missing \<Rightarrow> Panic ''stat''
           | Host_Dir mtime es \<Rightarrow>
               obind (makdir (of_nat d) nm mtime s) (\<lambda>(newdirino, s).
                 case es of None \<Rightarrow> Panic ''opendir'' | Some es \<Rightarrow> add_directory newdirino es s)
           | Host_File mtime fd \<Rightarrow> fappend (of_nat d) nm mtime fd s
           | Host_Other \<Rightarrow> Done s) = Done u \<and> tabled u ?S" (is "\<exists>u. ?m = Done u \<and> _")
  proof (cases "dot_name nm \<or> h = Host_Other")
    case True
    then show ?thesis using 2(4) by (auto simp: table_host_def)
  next
    case False
    then consider mt c where "h = Host_File mt (Some c)" | mt l where "h = Host_Dir mt (Some l)" "all_readable l"
      using 2(3) by (auto split: host.splits option.splits)
    then show ?thesis
    proof cases
      case 1
      then show ?thesis using False f tabled_fappend [OF 2(4,5)] by (simp add: table_host_def)
    next
      case (2 mt l)
      have e: "?S = table_add (length T) l (table_dir d nm mt T)" using False 2 by (simp add: table_host_def)
      have "fits (table_dir d nm mt T)" using f unfolding e by (rule fits_extends [OF extends_add])
      then obtain u where u: "makdir (of_nat d) nm mt s = Done (of_nat (length T), u)" "tabled u (table_dir d nm mt T)"
        using tabled_makdir \<open>tabled s T\<close> \<open>d < length T\<close> by blast
      then show ?thesis using "2.IH"(1) [OF 2(1) refl 2(2) u(2), of "length T"] False f e 2 by simp
    qed
  qed
  then obtain u where u: "?m = Done u" "tabled u ?S" by blast
  have "length T \<le> length ?S"
    using extends_length [OF extends_add [of T d "[(nm, h)]"]] unfolding table_add_Cons table_add.simps(1) .
  moreover have "add_directory (of_nat d) ((nm, h) # es) s = obind ?m (\<lambda>s. add_directory (of_nat d) es s)"
    by (simp add: dot_name_def)
  ultimately show ?case using 2(2) [OF _ u(2), of d] 2(3,5,6) unfolding table_add_Cons u(1) by simp
qed simp

section \<open>The table represents the directory\<close>

text \<open>
  The bytes \<open>b\<close> are the directory entries for the files \<open>es\<close> of the host, in their order, and the table
  holds at the inode of every entry the file of that name: its contents, or its own entries after \<open>.\<close>
  and \<open>..\<close>.
\<close>

fun entries_in :: "fentry list \<Rightarrow> nat \<Rightarrow> (bytes \<times> host) list \<Rightarrow> bytes \<Rightarrow> bool" where
  "entries_in T d [] b \<longleftrightarrow> b = []"
| "entries_in T d ((nm, h) # es) b \<longleftrightarrow>
     (if dot_name nm then entries_in T d es b
      else case h of
          Host_File mt (Some c) \<Rightarrow>
            (\<exists>k b'. k < length T \<and> b = name_entry nm k @ b' \<and> T ! k = (T_FILE, mt, c) \<and> entries_in T d es b')
        | Host_Dir mt (Some sub) \<Rightarrow>
            (\<exists>k b' q. k < length T \<and> b = name_entry nm k @ b' \<and>
               T ! k = (T_DIR, mt, name_entry [46] k @ name_entry [46, 46] d @ q) \<and> entries_in T k sub q \<and> entries_in T d es b')
        | _ \<Rightarrow> entries_in T d es b)"

lemma entries_in_intros:
  "\<not> dot_name nm \<Longrightarrow> entries_in T d es b \<Longrightarrow> k < length T \<Longrightarrow> T ! k = (T_FILE, mt, c) \<Longrightarrow>
     entries_in T d ((nm, Host_File mt (Some c)) # es) (name_entry nm k @ b)"
  "\<not> dot_name nm \<Longrightarrow> entries_in T d es b \<Longrightarrow> k < length T \<Longrightarrow> entries_in T k sub q \<Longrightarrow>
     T ! k = (T_DIR, mt, name_entry [46] k @ name_entry [46, 46] d @ q) \<Longrightarrow>
     entries_in T d ((nm, Host_Dir mt (Some sub)) # es) (name_entry nm k @ b)"
  by auto

definition settled :: "nat \<Rightarrow> fentry list \<Rightarrow> fentry list \<Rightarrow> bool" where
  "settled n U V \<longleftrightarrow> length U \<le> length V \<and> (\<forall>k. n \<le> k \<longrightarrow> k < length U \<longrightarrow> V ! k = U ! k)"

definition added :: "nat \<Rightarrow> (bytes \<times> host) list \<Rightarrow> fentry list \<Rightarrow> fentry list \<Rightarrow> bool" where
  "added d es T U \<longleftrightarrow>
     (\<exists>q. U ! d = (fst (T ! d), fst (snd (T ! d)), bytes_in (T ! d) @ q) \<and> (\<forall>i<length T. i \<noteq> d \<longrightarrow> U ! i = T ! i) \<and>
        length T \<le> length U \<and> (\<forall>V. settled (length T) U V \<longrightarrow> entries_in V d es q))"

lemma table_file_nth:
  assumes "d < length T"
  shows "table_file d nm mt c T ! length T = (T_FILE, mt, c)"
    "table_file d nm mt c T ! d = (fst (T ! d), fst (snd (T ! d)), bytes_in (T ! d) @ name_entry nm (length T))"
    "i < length T \<Longrightarrow> i \<noteq> d \<Longrightarrow> table_file d nm mt c T ! i = T ! i"
  using assms by (simp_all add: table_file_def table_app_def table_new_def nth_append nth_list_update)

lemma table_dir_nth:
  assumes "d < length T"
  shows "table_dir d nm mt T ! length T = (T_DIR, mt, name_entry [46] (length T) @ name_entry [46, 46] d)"
    "table_dir d nm mt T ! d = (fst (T ! d), fst (snd (T ! d)), bytes_in (T ! d) @ name_entry nm (length T))"
    "i < length T \<Longrightarrow> i \<noteq> d \<Longrightarrow> table_dir d nm mt T ! i = T ! i"
  using assms by (simp_all add: table_dir_def Let_def table_app_def table_new_def nth_append nth_list_update)

text \<open>One more file, whose inode is the next one, and then the rest of the directory.\<close>

lemma added_step:
  assumes d: "d < length T" and n: "length T < length S"
    and S: "S ! d = (fst (T ! d), fst (snd (T ! d)), bytes_in (T ! d) @ name_entry nm (length T))"
      "\<And>i. i < length T \<Longrightarrow> i \<noteq> d \<Longrightarrow> S ! i = T ! i"
    and U: "added d es S U"
    and e: "\<And>V b. settled (length T) S V \<Longrightarrow> entries_in V d es b \<Longrightarrow> entries_in V d ((nm, h) # es) (name_entry nm (length T) @ b)"
  shows "added d ((nm, h) # es) T U"
proof -
  obtain q where q: "U ! d = (fst (S ! d), fst (snd (S ! d)), bytes_in (S ! d) @ q)" "\<And>i. i < length S \<Longrightarrow> i \<noteq> d \<Longrightarrow> U ! i = S ! i"
    "length S \<le> length U" "\<And>V. settled (length S) U V \<Longrightarrow> entries_in V d es q"
    using U by (auto simp: added_def)
  have "entries_in V d ((nm, h) # es) (name_entry nm (length T) @ q)" if V: "settled (length T) U V" for V
  proof (rule e)
    show "settled (length T) S V" using V q(2,3) d by (auto simp: settled_def)
    show "entries_in V d es q" using V n by (intro q(4)) (auto simp: settled_def)
  qed
  then show ?thesis
    unfolding added_def using q(1-3) n S d by (intro exI [of _ "name_entry nm (length T) @ q"]) auto
qed

lemma added_table_add: "d < length T \<Longrightarrow> added d es T (table_add d es T)"
proof (induction d es T rule: table_add.induct)
  case (2 d nm h es T)
  let ?U = "table_add d es (table_host d nm h T)"
  have ex: "length T \<le> length (table_host d nm h T)"
    using extends_length [OF extends_add [of T d "[(nm, h)]"]] unfolding table_add_Cons table_add.simps(1) .
  have U: "added d es (table_host d nm h T) ?U"
    using 2(2) 2(3) ex by (simp add: table_host_def)
  show ?case unfolding table_add_Cons
  proof (cases "dot_name nm")
    case True
    then show "added d ((nm, h) # es) T ?U" using U by (simp add: table_host_def added_def)
  next
    case False
    then consider mt c where "h = Host_File mt (Some c)" | mt l where "h = Host_Dir mt (Some l)"
      | "(\<forall>mt c. h \<noteq> Host_File mt (Some c)) \<and> (\<forall>mt l. h \<noteq> Host_Dir mt (Some l))" by blast
    then show "added d ((nm, h) # es) T ?U"
    proof cases
      case (1 mt c)
      then have S: "table_host d nm h T = table_file d nm mt c T" using False by (simp add: table_host_def)
      show ?thesis
        using table_file_nth [OF \<open>d < length T\<close>, where nm = nm and mt = mt and c = c] 1 False
        by (intro added_step [OF \<open>d < length T\<close> _ _ _ U]) (auto simp: S [unfolded 1] settled_def simp del: entries_in.simps intro!: entries_in_intros(1))
    next
      case (2 mt l)
      let ?W = "table_dir d nm mt T"
      have S: "table_host d nm h T = table_add (length T) l ?W" using False 2 by (simp add: table_host_def)
      have "added (length T) l ?W (table_add (length T) l ?W)" using False 2 by (intro "2.IH"(1)) simp_all
      then obtain q where q: "table_host d nm h T ! length T = (T_DIR, mt, name_entry [46] (length T) @ name_entry [46, 46] d @ q)"
        "\<And>i. i < Suc (length T) \<Longrightarrow> i \<noteq> length T \<Longrightarrow> table_host d nm h T ! i = ?W ! i" "length T < length (table_host d nm h T)"
        "\<And>V. settled (Suc (length T)) (table_host d nm h T) V \<Longrightarrow> entries_in V (length T) l q"
        using table_dir_nth(1) [OF \<open>d < length T\<close>] unfolding S [symmetric] added_def by auto
      show ?thesis
        using table_dir_nth [OF \<open>d < length T\<close>, where nm = nm and mt = mt] 2 False q \<open>d < length T\<close>
        by (intro added_step [OF \<open>d < length T\<close> q(3) _ _ U])
          (auto simp: settled_def simp del: entries_in.simps intro!: entries_in_intros(2))
    next
      case 3
      then have "table_host d nm h T = T" "entries_in V d ((nm, h) # es) b = entries_in V d es b" for V b
        using False by (cases h; auto simp: table_host_def split: option.splits)+
      then show ?thesis using U by (simp add: added_def del: entries_in.simps)
    qed
  qed
qed (simp add: added_def, intro exI [of _ "[]"], simp)

section \<open>The empty image\<close>

lemma clear_loop:
  assumes "n \<le> FSSIZE"
  shows "fold (\<lambda>i. wsect (of_nat i) z) [0..<n] s = s\<lparr>img := (\<lambda>k. if k < n then z else img s k), nsects := max (nsects s) n\<rparr>"
  using assms
proof (induction n)
  case (Suc n)
  have "sector (of_nat n) = n" using Suc.prems by (simp add: sector_small unat_of_nat layout_defs)
  then show ?case using Suc by (simp add: wsect_def fun_eq_iff less_Suc_eq)
qed simp

lemma mkfs_start_fields:
  "img mkfs_start = (\<lambda>_. replicate BSIZE 0)(1 := super_block)" "nsects mkfs_start = FSSIZE" "freeinode mkfs_start = 1"
  "freeblock mkfs_start = of_nat nmeta" "mk_sb mkfs_start = mkfs_sb"
proof -
  define s where "s = mkfs_open\<lparr>mk_sb := mkfs_sb, freeblock := of_nat nmeta\<rparr>"
  have "sector 1 = 1" by (simp add: sector_small)
  then have e: "mkfs_start = s\<lparr>img := (\<lambda>_. replicate BSIZE 0)(1 := super_block), nsects := FSSIZE\<rparr>"
    unfolding mkfs_start_def s_def [symmetric] Let_def
    by (simp add: clear_loop wsect_def super_block_def s_def mkfs_open_def fun_eq_iff) (simp add: layout_defs)
  show "img mkfs_start = (\<lambda>_. replicate BSIZE 0)(1 := super_block)" "nsects mkfs_start = FSSIZE" "freeinode mkfs_start = 1"
    "freeblock mkfs_start = of_nat nmeta" "mk_sb mkfs_start = mkfs_sb"
    unfolding e by (simp_all add: s_def mkfs_open_def)
qed

lemma length_super_block: "length super_block = BSIZE"
  by (simp add: super_block_def bytes_of_superblock_def layout_defs)

lemma get16_replicate_0: "off + 2 \<le> n \<Longrightarrow> get16 off (replicate n 0) = 0"
  by (simp add: get16_def slice_def u16_of_bytes_def)

lemma empty_dinode:
  assumes "M (32 + i div 16) = replicate BSIZE 0"
  shows "i_type (dinode_at M i) = 0" "i_nlink (dinode_at M i) = 0" "i_mtime (dinode_at M i) = 0" "i_size (dinode_at M i) = 0"
    "i_addrs (dinode_at M i) k = 0"
proof -
  have r: "64 * (i mod 16) + 64 \<le> 1024" using dinode_range' [of i] by (simp add: layout_defs)
  show "i_type (dinode_at M i) = 0" "i_nlink (dinode_at M i) = 0" "i_mtime (dinode_at M i) = 0" "i_size (dinode_at M i) = 0"
    using r by (simp_all add: dinode_at_def get_dinode_def assms BSIZE_def get16_replicate_0 get32_replicate_0)
  show "i_addrs (dinode_at M i) k = 0"
    using r by (auto simp add: dinode_at_def get_dinode_def assms layout_defs get32_replicate_0 no_dinode_def)
qed

lemma tabled_start: "tabled mkfs_start [(0, 0, [])]"
proof -
  let ?M = "img mkfs_start"
  have M: "a \<noteq> 1 \<Longrightarrow> ?M a = replicate BSIZE 0" "?M 1 = super_block" "length (?M a) = BSIZE" for a
    by (simp_all add: mkfs_start_fields length_super_block)
  have d: "?M (32 + i div 16) = replicate BSIZE 0" for i by (rule M(1)) simp
  note e = empty_dinode [of ?M, OF d]
  have s: "fslot ?M (dinode_at ?M 0) k = 0" for k using e(5) [of 0] by (simp add: fslot_def)
  have f: "unat (freeblock mkfs_start) = nmeta" by (simp add: mkfs_start_fields unat_of_nat layout_defs)
  have "blocks_ok ?M nmeta (Suc 0) (dinode_at ?M)"
    unfolding blocks_ok_def using M s by (auto simp: layout_defs)
  moreover have "inode_holds ?M (dinode_at ?M 0) (0, 0, [])"
    using e s by (simp add: inode_holds_def sized_def fbyte_def fdata_def layout_defs)
  moreover have "meta_ok ?M (Suc 0)" using M e by (auto simp: meta_ok_def)
  ultimately show ?thesis
    unfolding tabled_def f by (simp add: mkfs_start_fields(2-) table_blocks_def blocks_for_def) (simp add: layout_defs)
qed

section \<open>The finished image\<close>

definition root_table :: "(bytes \<times> host) list \<Rightarrow> fentry list" where
  "root_table es = table_add 1 es (table_app 1 (name_entry [46, 46] 1) (table_app 1 (name_entry [46] 1) (table_new T_DIR 0 [(0, 0, [])])))"

text \<open>
  The size that \<open>mkfs\<close> leaves in an inode: that of the root directory is rounded up to the next block,
  also if it is a whole number of blocks, in which case the file has a last block without an address.
\<close>

definition final_size :: "nat \<Rightarrow> nat \<Rightarrow> nat" where
  "final_size i n = (if i = 1 then (n div BSIZE + 1) * BSIZE else n)"

definition image_holds :: "(nat \<Rightarrow> bytes) \<Rightarrow> fentry list \<Rightarrow> bool" where
  "image_holds M T \<longleftrightarrow>
     M 1 = super_block \<and> (\<forall>a. 2 \<le> a \<and> a < 32 \<longrightarrow> M a = replicate BSIZE 0) \<and>
     (\<forall>b<BPB. bit_of (M 45) b \<longleftrightarrow> b < nmeta + table_blocks T) \<and> M 46 = replicate BSIZE 0 \<and>
     blocks_ok M (nmeta + table_blocks T) (length T) (dinode_at M) \<and>
     (\<forall>i<length T.
        i_size (dinode_at M i) = of_nat (final_size i (length (bytes_in (T ! i)))) \<and>
        inode_holds M ((dinode_at M i)\<lparr>i_size := of_nat (length (bytes_in (T ! i)))\<rparr>) (T ! i))"

lemma fslot_size [simp]: "fslot M (d\<lparr>i_size := v\<rparr>) k = fslot M d k"
  by (simp add: fslot_def)

lemma fdata_size [simp]: "fdata M (d\<lparr>i_size := v\<rparr>) k = fdata M d k"
  by (simp add: fdata_def)

lemma bitmap_bits:
  assumes "n \<le> BPB"
  shows "length (fold (\<lambda>i buf. set_bit_of buf i) [0..<n] (replicate BSIZE 0)) = BSIZE \<and>
    (\<forall>b<BPB. bit_of (fold (\<lambda>i buf. set_bit_of buf i) [0..<n] (replicate BSIZE 0)) b \<longleftrightarrow> b < n)"
  using assms
proof (induction n)
  case 0
  then show ?case by (simp add: bit_of_bit layout_defs div_less_iff_less_mult)
next
  case (Suc n)
  then have "n div 8 < BSIZE" by (simp add: layout_defs div_less_iff_less_mult)
  with Suc show ?case by (auto simp: bit_of_set less_Suc_eq)
qed

lemma tabled_root:
  assumes r: "all_readable es" and f: "fits (root_table es)"
  shows "\<exists>s1 s2 s3 s4. mkfs_ialloc T_DIR 0 mkfs_start = Done (1, s1) \<and> dappend 1 [46] 1 s1 = Done s2 \<and>
    dappend 1 [46, 46] 1 s2 = Done s3 \<and> add_directory 1 es s3 = Done s4 \<and> tabled s4 (root_table es)"
proof -
  let ?T = "table_new T_DIR 0 [(0, 0, [])]"
  let ?U = "table_app 1 (name_entry [46] 1) ?T"
  let ?V = "table_app 1 (name_entry [46, 46] 1) ?U"
  have fV: "fits ?V" using f unfolding root_table_def by (rule fits_extends [OF extends_add])
  then have fU: "fits ?U" "fits ?T" using fits_extends [OF extends_app] by blast+
  obtain s1 where s1: "mkfs_ialloc T_DIR 0 mkfs_start = Done (1, s1)" "tabled s1 ?T" using tabled_new [OF tabled_start fU(2)] by auto
  obtain s2 where s2: "dappend 1 [46] 1 s1 = Done s2" "tabled s2 ?U" using tabled_dappend [OF s1(2) _ _ fU(1)] by auto
  obtain s3 where s3: "dappend 1 [46, 46] 1 s2 = Done s3" "tabled s3 ?V" using tabled_dappend [OF s2(2) _ _ fV] by auto
  obtain s4 where "add_directory 1 es s3 = Done s4" "tabled s4 (root_table es)"
    using tabled_add [OF r s3(2), of 1] f by (auto simp: root_table_def)
  then show ?thesis using s1 s2 s3 by blast
qed

lemma image_done:
  assumes t: "tabled s T" and n: "1 < length T" and b: "length v = BSIZE" "\<forall>b<BPB. bit_of v b \<longleftrightarrow> b < nmeta + table_blocks T"
  defines "d \<equiv> (dinode_at (img s) 1)\<lparr>i_size := of_nat (final_size 1 (length (bytes_in (T ! 1))))\<rparr>"
  shows "image_holds ((put_inode 1 d (img s))(45 := v)) T"
proof -
  note td = tabledD [OF t]
  let ?D = "dinode_at (img s)" and ?N = "put_inode 1 d (img s)" and ?n = "length T"
  let ?M = "?N(45 := v)"
  have n': "?n \<le> 208" using td(5) by (simp add: layout_defs)
  have "\<forall>k\<le>NDIRECT. i_addrs d k = i_addrs (?D 1) k" "\<forall>j<?n. j \<noteq> 1 \<longrightarrow> ?D j = ?D j" by (simp_all add: d_def)
  note P = put_inode_ok [OF td(6) n n' this refl]
  note lt = blocks_okD(1) [OF td(6)]
  have a: "45 < nmeta" "\<And>i k. i < ?n \<Longrightarrow> k \<le> NDIRECT \<Longrightarrow> i_addrs (dinode_at ?N i) k = i_addrs (dinode_at ?N i) k"
    by (simp_all add: layout_defs)
  have Q: "blocks_ok ?M (unat (freeblock s)) ?n (dinode_at ?N)" "i < ?n \<Longrightarrow> k \<le> MAXFILE \<Longrightarrow> fslot ?M (dinode_at ?N i) k = fslot (img s) (?D i) k"
    "i < ?n \<Longrightarrow> k \<le> MAXFILE \<Longrightarrow> fdata ?M (dinode_at ?N i) k = fdata (img s) (?D i) k" for i k
    using blocks_ok_meta [OF P(1) a(1) b(1), of "dinode_at ?N"] P(2,3) by auto
  have M: "dinode_at ?M i = dinode_at ?N i" if "i < ?n" for i using that n' by (simp add: dinode_at_def)
  have B: "blocks_ok ?M (unat (freeblock s)) ?n (dinode_at ?M)"
    using Q(1) M unfolding blocks_ok_def by auto
  have I: "i_size (dinode_at ?M i) = of_nat (final_size i (length (bytes_in (T ! i)))) \<and>
    inode_holds ?M ((dinode_at ?M i)\<lparr>i_size := of_nat (length (bytes_in (T ! i)))\<rparr>) (T ! i)" if i: "i < ?n" for i
  proof -
    have h: "i_size (?D i) = of_nat (length (bytes_in (T ! i)))" using td(7) [OF i] by (simp add: inode_holds_def)
    have e: "i_size (dinode_at ?N i) = of_nat (final_size i (length (bytes_in (T ! i))))" "i_type (dinode_at ?N i) = i_type (?D i)"
      "i_mtime (dinode_at ?N i) = i_mtime (?D i)"
      using dinode_at_same(1,5,6) [of "img s", OF lt refl, of 1 d] dinode_at_other [of "img s" i 1 d, OF lt] h i n'
      by (cases "i = 1"; auto simp: d_def final_size_def)+
    have "inode_holds ?M ((dinode_at ?N i)\<lparr>i_size := of_nat (length (bytes_in (T ! i)))\<rparr>) (T ! i)"
      using Q(2,3) [OF i] e h by (intro inode_holds_cong [OF td(7) [OF i]]) simp_all
    then show ?thesis using e M [OF i] by simp
  qed
  have "?M 1 = super_block" "\<forall>a. 2 \<le> a \<and> a < 32 \<longrightarrow> ?M a = replicate BSIZE 0" "?M 46 = replicate BSIZE 0" "?M 45 = v"
    using td(9) by (auto simp: meta_ok_def put_inode_def layout_defs)
  then show ?thesis unfolding image_holds_def using B I b(2) td(8) by (simp del: fun_upd_apply)
qed

lemma root_table_length: "1 < length (root_table es)"
proof -
  have "length (table_app 1 (name_entry [46, 46] 1) (table_app 1 (name_entry [46] 1) (table_new T_DIR 0 [(0, 0, [])]))) = 2" by simp
  then show ?thesis using extends_length [OF extends_add] unfolding root_table_def by (metis Suc_1 Suc_le_lessD)
qed

lemma rounded_size:
  assumes "n \<le> MAXFILE * BSIZE"
  shows "((of_nat n :: u32) div of_nat BSIZE + 1) * of_nat BSIZE = of_nat (final_size 1 n)"
proof -
  have "unat (of_nat n :: u32) = n" using assms by (simp add: unat_of_nat layout_defs)
  then have "(of_nat n :: u32) div of_nat BSIZE = of_nat (n div BSIZE)"
    by (intro word_unat_eq_iff [THEN iffD2]) (simp add: unat_div unat_of_nat layout_defs div_less_dividend)
  then show ?thesis by (simp add: final_size_def algebra_simps)
qed

lemma mkfs_builds:
  assumes r: "all_readable es" and f: "fits (root_table es)" and b: "nmeta + table_blocks (root_table es) < BPB" and fd: "0 \<le> fsfd"
  shows "\<exists>m. mkfs_main 3 fsfd (Some es) = Done m \<and> nsects m = FSSIZE \<and> image_holds (img m) (root_table es)"
proof -
  let ?T = "root_table es"
  obtain s1 s2 s3 s where s: "mkfs_ialloc T_DIR 0 mkfs_start = Done (1, s1)" "dappend 1 [46] 1 s1 = Done s2"
    "dappend 1 [46, 46] 1 s2 = Done s3" "add_directory 1 es s3 = Done s" and t: "tabled s ?T"
    using tabled_root [OF r f] by blast
  note td = tabledD [OF t]
  let ?c = "bytes_in (?T ! 1)" and ?D = "dinode_at (img s) 1"
  have h: "i_size ?D = of_nat (length ?c)" "length ?c \<le> MAXFILE * BSIZE"
    using td(7) [OF root_table_length] by (simp_all add: inode_holds_def)
  note d = rounded_size [OF h(2), folded h(1)]
  define d' where "d' = ?D\<lparr>i_size := of_nat (final_size 1 (length ?c))\<rparr>"
  define v where "v = fold (\<lambda>i buf. set_bit_of buf i) [0..<nmeta + table_blocks ?T] (replicate BSIZE 0)"
  define u1 where "u1 = s\<lparr>img := put_inode 1 d' (img s)\<rparr>"
  have w: "rinode 1 s = Done ?D" "winode 1 d' s = Done u1"
    using rinode_ok [of 1 s] winode_ok [of 1 s d'] td(1,2) by (simp_all add: u1_def)
  have fb: "sint (freeblock s) = int (nmeta + table_blocks ?T)"
    using sint_small [of "freeblock s"] td(8) b by (simp add: layout_defs)
  then have "nat (sint (freeblock s)) = nmeta + table_blocks ?T" "sint (freeblock s) < int (BSIZE * 8)"
    using b by (simp_all add: BPB_def)
  moreover have "sb_bmapstart (mk_sb u1) = 45" using td(2) by (simp add: u1_def mkfs_sb_values)
  ultimately have "mkfs_balloc (freeblock s) u1 = Done (wsect 45 v u1)" by (simp add: mkfs_balloc_def v_def)
  moreover have "img (wsect 45 v u1) = (put_inode 1 d' (img s))(45 := v)" "nsects (wsect 45 v u1) = FSSIZE"
    using td(1) by (simp_all add: u1_def wsect_def sector_small layout_defs)
  moreover have "image_holds ((put_inode 1 d' (img s))(45 := v)) ?T"
    unfolding d'_def using bitmap_bits b by (intro image_done [OF t root_table_length]) (simp_all add: v_def)
  moreover have "freeblock u1 = freeblock s" by (simp add: u1_def)
  ultimately show ?thesis
    using s w [unfolded d'_def] fd d by (simp add: mkfs_main_def Let_def ROOTINO_def sizeof_dirent_def layout_defs)
qed

section \<open>The image represents the directory\<close>

lemma root_table_entries:
  "\<exists>q. root_table es ! 1 = (T_DIR, 0, name_entry [46] 1 @ name_entry [46, 46] 1 @ q) \<and> entries_in (root_table es) 1 es q"
proof -
  let ?V = "table_app 1 (name_entry [46, 46] 1) (table_app 1 (name_entry [46] 1) (table_new T_DIR 0 [(0, 0, [])]))"
  have V: "?V ! 1 = (T_DIR, 0, name_entry [46] 1 @ name_entry [46, 46] 1)" "length ?V = 2"
    by (simp_all add: table_app_def table_new_def)
  have "added 1 es ?V (root_table es)" unfolding root_table_def by (rule added_table_add) simp
  moreover have "settled n U U" for n U by (simp add: settled_def)
  ultimately show ?thesis unfolding added_def using V(1) by auto
qed

text \<open>
  C8: \<open>mkfs\<close> copies the directory. If every file of the host can be read and the files fit (each one into the
  267 blocks that an inode can map, all together into 198 inodes and into the blocks that one block of
  the bitmap covers), \<open>mkfs\<close> returns. The image holds the table of the files: every inode has the type,
  the time and the size of its file, its bytes are in blocks of its own, the bitmap marks exactly the
  blocks in use, the superblock describes the layout and the log is empty. The table is a copy of the
  directory: the root directory lists its files in their order, behind \<open>.\<close> and \<open>..\<close>, each with the
  number of an inode that holds the bytes of that file, or in turn the entries of that directory.
\<close>

theorem mkfs_copies_directory:
  assumes "all_readable es" "fits (root_table es)" "nmeta + table_blocks (root_table es) < BPB" "0 \<le> fsfd"
  shows "\<exists>m q. mkfs_main 3 fsfd (Some es) = Done m \<and> image_holds (img m) (root_table es) \<and>
    root_table es ! 1 = (T_DIR, 0, name_entry [46] 1 @ name_entry [46, 46] 1 @ q) \<and> entries_in (root_table es) 1 es q"
  using mkfs_builds [OF assms] root_table_entries [of es] by blast

text \<open>A file \<open>a\<close> of two bytes and a directory \<open>d\<close> with an empty file \<open>e\<close>.\<close>

definition demo_host :: "(bytes \<times> host) list" where
  "demo_host = [([46], Host_Dir 5 None), ([97], Host_File 7 (Some [104, 105])), ([100], Host_Dir 8 (Some [([101], Host_File 9 (Some []))]))]"

lemma length_name_entry: "length (name_entry nm k) = 16"
  by (simp add: name_entry_def bytes_of_dirent_def strncpy_def strncpy_loop_nth(1) layout_defs)

lemma demo_table:
  "root_table demo_host =
     [(0, 0, []), (T_DIR, 0, name_entry [46] 1 @ name_entry [46, 46] 1 @ name_entry [97] 2 @ name_entry [100] 3),
      (T_FILE, 7, [104, 105]), (T_DIR, 8, name_entry [46] 3 @ name_entry [46, 46] 1 @ name_entry [101] 4), (T_FILE, 9, [])]"
  by (simp add: root_table_def demo_host_def dot_name_def table_file_def table_dir_def table_app_def table_new_def Let_def) (simp add: eval_nat_numeral)

lemma demo_host_ok:
  "all_readable demo_host" "fits (root_table demo_host)" "table_blocks (root_table demo_host) = 3"
proof -
  show "all_readable demo_host" by (simp add: demo_host_def dot_name_def)
  show b: "table_blocks (root_table demo_host) = 3"
    by (simp add: demo_table table_blocks_def blocks_for_def length_name_entry layout_defs)
  show "fits (root_table demo_host)"
    unfolding fits_def b by (simp add: demo_table length_name_entry layout_defs)
qed

theorem mkfs_copies_directory_witness:
  "\<exists>m. mkfs_main 3 4 (Some demo_host) = Done m \<and> image_holds (img m) (root_table demo_host) \<and>
     length (root_table demo_host) = 5 \<and> root_table demo_host ! 2 = (T_FILE, 7, [104, 105])"
proof -
  obtain m where "mkfs_main 3 4 (Some demo_host) = Done m" "image_holds (img m) (root_table demo_host)"
    using mkfs_copies_directory [of demo_host 4] demo_host_ok by (auto simp: layout_defs)
  then show ?thesis by (simp add: demo_table)
qed

end
