(* ===== verification/Mkfs_Boot.thy ===== *)
theory Mkfs_Boot
  imports Mkfs_Props Frames Proc_Props
begin

text \<open>
  From the image to the running file system. The first process that the scheduler starts runs \<open>forkret\<close>,
  which reads the superblock and recovers the log; on an image of \<open>mkfs\<close> this establishes the invariant
  of the file system, and the kernel reads from every inode the bytes of the file of the host.
\<close>

section \<open>The superblock and the bitmap\<close>

lemma bytes_of_superblock_concat:
  "bytes_of_superblock b = concat (map bytes_of_u32 [sb_size b, sb_nblocks b, sb_ninodes b, sb_nlog b, sb_logstart b,
     sb_inodestart b, sb_bmapstart b])"
  by (simp add: bytes_of_superblock_def)

lemma superblock_of_super_block: "superblock_of super_block = mkfs_sb"
proof -
  let ?b = mkfs_sb
  let ?xs = "[sb_size ?b, sb_nblocks ?b, sb_ninodes ?b, sb_nlog ?b, sb_logstart ?b, sb_inodestart ?b, sb_bmapstart ?b]"
  have l: "length (bytes_of_superblock ?b) = 28" by (simp add: bytes_of_superblock_def)
  have "get32 (4 * i) super_block = ?xs ! i" if "i < 7" for i
  proof -
    have "slice (0 + 4 * i) 4 super_block = slice (4 * i) 4 (bytes_of_superblock ?b)"
      unfolding super_block_def using that l by (intro slice_in_patch) (simp_all add: layout_defs)
    then show ?thesis using slice_concat_u32 [of i ?xs] that
      unfolding get32_def bytes_of_superblock_concat by (simp del: concat.simps list.map)
  qed
  from this [of 0] this [of 1] this [of 2] this [of 3] this [of 4] this [of 5] this [of 6] show ?thesis
    by (simp add: superblock_of_def)
qed

text \<open>A file system on the blocks of an image: the same blocks outside the log.\<close>

definition on_image :: "(nat \<Rightarrow> bytes) \<Rightarrow> 'a fs_state_scheme \<Rightarrow> bool" where
  "on_image M s \<longleftrightarrow> sb s = mkfs_sb \<and> (\<forall>n. 32 \<le> unat n \<or> unat n < 2 \<longrightarrow> blk s n = M (unat n))"

definition mounted :: "(nat \<Rightarrow> bytes) \<Rightarrow> 'a fs_state_scheme \<Rightarrow> bool" where
  "mounted M s \<longleftrightarrow> on_image M s \<and> fs_inv s \<and> busy s = {} \<and> lh_n s = 0 \<and> log_start s = 2 \<and> log_size s = 30"

lemma on_image_block: "on_image M s \<Longrightarrow> 32 \<le> unat n \<or> unat n < 2 \<Longrightarrow> blk s n = M (unat n)"
  unfolding on_image_def by blast

lemma image_bits:
  assumes h: "image_holds M T" and b: "b < FSSIZE"
  shows "bit_of (M (45 + b div BPB)) (b mod BPB) \<longleftrightarrow> b < min BPB (nmeta + table_blocks T)"
proof (cases "b < BPB")
  case True
  then show ?thesis using h by (simp add: image_holds_def)
next
  case False
  then have "b div BPB = 1" "b mod BPB < BPB" using b by (simp_all add: layout_defs div_nat_eqI)
  moreover have "M 46 = replicate BSIZE 0" using h by (simp add: image_holds_def)
  ultimately show ?thesis using False by (simp add: bit_of_bit layout_defs div_less_iff_less_mult)
qed

lemma BBLOCK_mkfs: "b < FSSIZE \<Longrightarrow> unat (BBLOCK b mkfs_sb) = 45 + b div BPB"
proof -
  assume "b < FSSIZE"
  then have "b div BPB < 2" by (simp add: layout_defs div_less_iff_less_mult)
  then show ?thesis by (simp add: BBLOCK_def mkfs_sb_values unat_word_ariths unat_of_nat)
qed

lemma on_image_used:
  assumes "on_image M s" "image_holds M T" "b < FSSIZE"
  shows "used s b \<longleftrightarrow> b < min BPB (nmeta + table_blocks T)"
  using assms on_image_block [OF assms(1), of "BBLOCK b mkfs_sb"] BBLOCK_mkfs [OF assms(3)] image_bits [OF assms(2,3)]
  by (simp add: used_def on_image_def)

lemma on_image_layout:
  assumes o: "on_image M s" and h: "image_holds M T" and d: "disksize s = FSSIZE" and t: "txn s"
    and l: "log_start s = 2" "log_size s = 30"
  shows "fs_inv s"
proof -
  have sb: "sb s = mkfs_sb" using o by (simp add: on_image_def)
  have "blk s 1 = super_block" using on_image_block [OF o, of 1] h by (simp add: image_holds_def)
  then have "fs_layout s"
    using superblock_of_super_block d
    by (simp add: fs_layout_def datastart_def sb l mkfs_sb_values layout_defs)
  moreover have "datastart s = nmeta" by (simp add: datastart_def sb mkfs_sb_values layout_defs)
  then have "used s b" if "b < datastart s" for b
    using on_image_used [OF o h, of b] that by (simp add: layout_defs)
  ultimately show ?thesis using t by (simp add: fs_inv_def)
qed

section \<open>Mounting the image\<close>

lemma mount_log:
  fixes e :: "'a fs_state_scheme"
  assumes E: "binv e" "busy e = {}" "dirty e = {}" "disksize e = FSSIZE" "\<And>n. blk e n = M (unat n)"
    and h: "image_holds M T" and s: "sb e = mkfs_sb" "outstanding e = 0" "\<not> committing e"
  shows "\<exists>t u. initlog 1 e = Done t \<and> begin_op t = Done u \<and> mounted M u \<and> icache u = icache e \<and>
    fs_state.more t = fs_state.more e"
proof -
  let ?l = "e\<lparr>log_start := sb_logstart mkfs_sb, log_size := sint (sb_nlog mkfs_sb), log_dev := 1\<rparr>"
  note hd = h [unfolded image_holds_def]
  have hz: "head_n (blk e 2) = 0" using E(5) [of 2] hd by (simp add: head_n_def get32_replicate_0 layout_defs)
  have "log_geometry ?l" using E(4) by (simp add: log_geometry_def mkfs_sb_values layout_defs)
  moreover have "header_ok ?l (blk e (sb_logstart mkfs_sb))" using hz by (simp add: header_ok_def mkfs_sb_values)
  ultimately obtain t where t: "initlog 1 e = Done t" "linv t" "busy t = {}" "lh_n t = 0" "log_start t = 2" "log_size t = 30"
    "disksize t = FSSIZE" "outstanding t = outstanding e" "committing t = committing e"
    "\<And>n. \<not> in_log ?l n \<Longrightarrow> blk t n = replay (blk e 2) 2 (blk e) n"
    using initlog_view [OF E(1-3), of mkfs_sb ?l "blk e (sb_logstart mkfs_sb)"] E(4,5) hd superblock_of_super_block
    by (auto simp: mkfs_sb_values layout_defs)
  note ft = fs_more [OF ensuresD [OF initlog_log t(1)]]
  define u where "u = t\<lparr>outstanding := 1\<rparr>"
  have "blk t n = M (unat n)" if "32 \<le> unat n \<or> unat n < 2" for n
  proof -
    have l: "log_start ?l = 2" "log_size ?l = 30" "unat (2 :: u32) = 2" by (simp_all add: mkfs_sb_values)
    have "\<not> in_log ?l n" unfolding in_log_def l using that by linarith
    then show ?thesis using t(10) E(5) hz by (simp add: replay_empty)
  qed
  then have "on_image M u" "busy u = {}" "txn u" "disksize u = FSSIZE" "lh_n u = 0" "icache u = icache e" "log_start u = 2" "log_size u = 30"
    using t(2-7) ft(1,2) s(1) by (simp_all add: u_def on_image_def txn_def)
  moreover from this have "fs_inv u" using on_image_layout h by blast
  moreover have "begin_op t = Done u" using s(2,3) t(4,8,9) by (simp add: begin_op_def u_def layout_defs)
  ultimately show ?thesis using t(1) ft(4) by (auto simp: mounted_def)
qed

lemma first_more: "fs_state.more t = fs_state.more s \<Longrightarrow> first t = first s"
  by (cases t; cases s) simp

lemma mount:
  fixes s :: kstate
  assumes f: "first s" and h: "image_holds (memdisk s) T" "disksize s = FSSIZE"
    and s: "bufs s = bss_bufs" "\<not> committing s" "outstanding s = 0"
  shows "\<exists>t u. forkret (binit s) = Done t \<and> \<not> first t \<and> begin_op t = Done u \<and> mounted (memdisk s) u \<and> icache u = icache s"
proof -
  note hd = h(1) [unfolded image_holds_def]
  have M: "length (memdisk s k) = BSIZE" for k using hd blocks_okD(1) by blast
  define b where "b = (binit s)\<lparr>first := False\<rparr>"
  have bi: "bio.more (binit s) = bio.more s" by (simp add: binit_fields)
  have bf: "first (binit s)" using f first_more [OF log_fs_more [OF log_state_more [OF bi]]] by simp
  have B: "binv b" "busy b = {}" "dirty b = {}" "disksize b = FSSIZE" "blk b n = memdisk s (unat n)" for n
    using binit_fresh [OF s(1) M] h(2) bio_cong [of b "binit s"] by (simp_all add: b_def binit_fields)
  obtain c where c: "readsb 1 b = Done (mkfs_sb, c)" "Log.stored b [] c"
    using readsb_stored [OF B(1-3)] B(4) B(5) [of 1] hd superblock_of_super_block by (auto simp: layout_defs)
  define e where "e = c\<lparr>sb := mkfs_sb\<rparr>"
  have E: "binv e" "busy e = {}" "dirty e = {}" "disksize e = FSSIZE" "blk e n = memdisk s (unat n)" for n
    using c(2) B bio_cong [of e c] by (simp_all add: e_def Log.stored_def)
  have ec: "bio.more c = bio.more b" using c(2) by (simp add: Log.stored_def)
  note le = log_more [OF ec] and fe = fs_more [OF log_state_more [OF ec]]
  have "sb e = mkfs_sb" "outstanding e = 0" "\<not> committing e" "icache e = icache s"
    using le(3,4) s(2,3) log_more(3,4) [OF bi] fe(2) fs_more(2) [OF log_state_more [OF bi]] by (simp_all add: e_def b_def)
  then obtain t u where t: "initlog 1 e = Done t" "begin_op t = Done u" "mounted (memdisk s) u" "icache u = icache s"
    "fs_state.more t = fs_state.more e"
    using mount_log [OF E h(1)] by auto
  have "\<not> first t" using first_more [OF t(5)] first_more [OF fe(4)] by (simp add: e_def b_def)
  moreover have "forkret (binit s) = Done t"
    using bf c(1) t(1) by (simp add: forkret_def iinit_def ROOTDEV_def e_def b_def [symmetric])
  ultimately show ?thesis using t by blast
qed

section \<open>Reading the files of the image\<close>

definition typed :: "fentry list \<Rightarrow> bool" where
  "typed T \<longleftrightarrow> (\<forall>i<length T. 0 < i \<longrightarrow> fst (T ! i) = T_DIR \<or> fst (T ! i) = T_FILE)"

lemma typed_new: "typed T \<Longrightarrow> ty = T_DIR \<or> ty = T_FILE \<Longrightarrow> typed (table_new ty mt T)"
  by (auto simp: typed_def table_new_def nth_append less_Suc_eq)

lemma typed_app: "typed T \<Longrightarrow> typed (table_app i p T)"
  by (cases "i < length T") (auto simp: typed_def table_app_def nth_list_update list_update_beyond)

lemma typed_add: "typed T \<Longrightarrow> typed (table_add d es T)"
proof (induction d es T rule: table_add.induct)
  case (2 d nm h es T)
  have f: "typed (table_file d nm mt c T)" "typed (table_dir d nm mt T)" for mt c
    using "2.prems" by (simp_all add: table_file_def table_dir_def Let_def typed_app typed_new)
  have "typed (table_host d nm h T)"
    using "2.IH"(1) f "2.prems" by (auto simp: table_host_def split: host.split option.split)
  then show ?case using "2.IH"(2) unfolding table_add_Cons by (simp add: table_host_def)
qed simp

lemma typed_root: "typed (root_table es)"
  unfolding root_table_def by (intro typed_add typed_app typed_new) (simp_all add: typed_def)

text \<open>The inode in memory that was read from inode \<open>i\<close> of the image.\<close>

definition loaded :: "(nat \<Rightarrow> bytes) \<Rightarrow> nat \<Rightarrow> nat \<Rightarrow> 'a fs_state_scheme \<Rightarrow> bool" where
  "loaded M i ip s \<longleftrightarrow>
     (let x = icache s ip; d = dinode_at M i in
      i_dev x = 1 \<and> i_type x = i_type d \<and> i_size x = i_size d \<and> (\<forall>k\<le>NDIRECT. i_addrs x k = i_addrs d k))"

lemma loaded_slot:
  assumes o: "on_image M s" and l: "loaded M i ip s" and b: "blocks_ok M fb n (dinode_at M)" "i < n" and k: "k \<le> MAXFILE"
  shows "slot ip s k = fslot M (dinode_at M i) k" "k < MAXFILE \<Longrightarrow> fblock ip s k = fdata M (dinode_at M i) k"
proof -
  let ?d = "dinode_at M i"
  have a: "i_addrs (icache s ip) k = i_addrs ?d k" if "k \<le> NDIRECT" for k using l that by (simp add: loaded_def Let_def)
  have blk: "blk s x = M (unat x)" if "nmeta \<le> unat x" for x
    using on_image_block [OF o, of x] that by (simp add: layout_defs)
  have "i_addrs ?d NDIRECT \<noteq> 0 \<Longrightarrow> nmeta \<le> unat (i_addrs ?d NDIRECT)"
    using blocks_okD(4) [OF b, of MAXFILE] by (simp add: fslot_indirect)
  then show s: "slot ip s k = fslot M ?d k"
    using a blk k by (auto simp: slot_def fslot_def Let_def)
  then show "k < MAXFILE \<Longrightarrow> fblock ip s k = fdata M ?d k"
    using blocks_okD(4) [OF b, of k] blk k by (auto simp: fblock_def fdata_def)
qed

lemma final_size_bounds:
  assumes "i = 1 \<longrightarrow> n mod BSIZE \<noteq> 0" "n \<le> MAXFILE * BSIZE"
  shows "final_size i n \<le> MAXFILE * BSIZE" "n \<le> final_size i n" "k * BSIZE < final_size i n \<longleftrightarrow> k * BSIZE < n"
proof -
  define q where "q = n div BSIZE"
  define r where "r = n mod BSIZE"
  have n: "n = q * BSIZE + r" "r < BSIZE" by (simp_all add: q_def r_def layout_defs)
  have f: "final_size i n = (if i = 1 then (q + 1) * BSIZE else n)" by (simp add: final_size_def q_def)
  have a: "(q + 1) * BSIZE \<le> MAXFILE * BSIZE" if "r \<noteq> 0"
    using assms(2) n that by (auto simp: layout_defs)
  have b: "k * BSIZE < (q + 1) * BSIZE \<longleftrightarrow> k * BSIZE < n" if "r \<noteq> 0"
  proof -
    have "(q + 1) * BSIZE = q * BSIZE + BSIZE" by simp
    moreover have "k * BSIZE \<le> q * BSIZE \<or> (q + 1) * BSIZE \<le> k * BSIZE"
      using mult_le_mono1 [of k q BSIZE] mult_le_mono1 [of "q + 1" k BSIZE] by linarith
    ultimately show ?thesis using n that by linarith
  qed
  show "final_size i n \<le> MAXFILE * BSIZE" "n \<le> final_size i n" "k * BSIZE < final_size i n \<longleftrightarrow> k * BSIZE < n"
    using a b n assms unfolding f by (auto simp: r_def [symmetric])
qed

lemma loaded_file:
  assumes m: "on_image M s" "fs_inv s" and h: "image_holds M T" "nmeta + table_blocks T < BPB" and i: "i < length T"
    and l: "loaded M i ip s" and r: "i = 1 \<longrightarrow> length (bytes_in (T ! i)) mod BSIZE \<noteq> 0"
  shows "file_ok ip s" "map (content ip s) [0..<length (bytes_in (T ! i))] = bytes_in (T ! i)"
    "unat (i_size (icache s ip)) = final_size i (length (bytes_in (T ! i)))" "length (bytes_in (T ! i)) \<le> unat (i_size (icache s ip))"
proof -
  let ?d = "dinode_at M i" and ?c = "bytes_in (T ! i)" and ?fb = "nmeta + table_blocks T"
  have B: "blocks_ok M ?fb (length T) (dinode_at M)" using h(1) by (simp add: image_holds_def)
  have I: "i_size ?d = of_nat (final_size i (length ?c))" "length ?c \<le> MAXFILE * BSIZE" "sized M ?d (length ?c)"
    "\<And>p. p < MAXFILE * BSIZE \<Longrightarrow> fbyte M ?d p = (if p < length ?c then ?c ! p else 0)"
    using h(1) i by (auto simp: image_holds_def inode_holds_def sized_def fbyte_def)
  note S = loaded_slot [OF m(1) l B i]
  note fs = final_size_bounds [OF r I(2)]
  show sz: "unat (i_size (icache s ip)) = final_size i (length ?c)"
    using l I(1) fs(1) by (simp add: loaded_def Let_def unat_of_nat layout_defs)
  show "length ?c \<le> unat (i_size (icache s ip))" using sz fs(2) by simp
  have "data_ok s (slot ip s k)" if "k \<le> MAXFILE" "slot ip s k \<noteq> 0" for k
    using blocks_okD(4,5) [OF B i, of k] S(1) [OF that(1)] that h(2) m(1) on_image_used [OF m(1) h(1)]
    by (simp add: data_ok_def datastart_def on_image_def mkfs_sb_values) (simp add: layout_defs)
  then have "map_ok ip s"
    using S(1) blocks_okD(6) [OF B i _ i] l by (auto simp: map_ok_def loaded_def Let_def)
  moreover have "slot ip s k \<noteq> 0" if "k * BSIZE < length ?c" for k
  proof -
    have "k < MAXFILE" using that I(2) by (simp add: layout_defs)
    then show ?thesis using S(1) [of k] I(3) that by (simp add: sized_def)
  qed
  ultimately show "file_ok ip s" using sz fs by (simp add: file_ok_def)
  show "map (content ip s) [0..<length ?c] = ?c"
  proof (rule nth_equalityI)
    fix p assume "p < length (map (content ip s) [0..<length ?c])"
    then have p: "p < length ?c" "p < MAXFILE * BSIZE" "p div BSIZE < MAXFILE" using I(2) by (auto simp: layout_defs)
    then show "map (content ip s) [0..<length ?c] ! p = ?c ! p"
      using S(2) [of "p div BSIZE"] I(4) [OF p(2)] by (simp add: content_def fbyte_def)
  qed simp
qed

lemma mounted_reads:
  fixes u :: "'a fs_state_scheme"
  assumes m: "mounted M u" and h: "image_holds M T" "nmeta + table_blocks T < BPB" "length T < NINODES" and i: "i < length T" "0 < i" "typed T"
    and r: "i = 1 \<longrightarrow> length (bytes_in (T ! i)) mod BSIZE \<noteq> 0" and e: "\<forall>j<NINODE. i_ref (icache u j) = 0"
  shows "\<exists>ip v w x. iget ROOTDEV (of_nat i) u = Done (ip, v) \<and> ilock (Some ip) v = Done w \<and>
    readi devsw ip 0 (of_nat (length (bytes_in (T ! i)))) w = Done (int (length (bytes_in (T ! i))), bytes_in (T ! i), x)"
proof -
  let ?n = "of_nat i :: u32" and ?c = "bytes_in (T ! i)" and ?d = "dinode_at M i"
  have o: "on_image M u" "fs_inv u" "busy u = {}" "lh_n u = 0" "log_size u = 30" using m by (simp_all add: mounted_def)
  have sb: "sb u = mkfs_sb" using o(1) by (simp add: on_image_def)
  have i208: "i < 208" "?n < 200" using i(1) h(3) by (simp_all add: layout_defs word_less_nat_alt unat_of_nat)
  have "icache_ok u" "\<not> cached_at 1 ?n u j" for j using e by (auto simp: icache_ok_def cached_at_def)
  then obtain ip where ip: "iget 1 ?n u = Done (ip, upd_inode ip (\<lambda>x. x\<lparr>i_dev := 1, i_inum := ?n, i_ref := 1, i_flags := {}\<rparr>) u)"
    using iget_cases [of u 1 ?n] e by (auto simp: NINODE_def dest: spec [of _ 0])
  define v where "v = upd_inode ip (\<lambda>x. x\<lparr>i_dev := 1, i_inum := ?n, i_ref := 1, i_flags := {}\<rparr>) u"
  have V: "fs_inv v" "busy v = {}" "room v 0" "sb v = mkfs_sb" "blk v = blk u"
    using o sb by (simp_all add: v_def room_def upd_inode_def)
  have vi: "i_dev (icache v ip) = 1" "i_inum (icache v ip) = ?n" "1 \<le> i_ref (icache v ip)" "i_flags (icache v ip) = {}"
    by (simp_all add: v_def upd_inode_def)
  define y where "y = get_dinode (dinode_off ?n) (blk v (IBLOCK ?n mkfs_sb)) (icache v ip)"
  have "unat (IBLOCK ?n mkfs_sb) = 32 + i div 16" by (rule IBLOCK_mkfs [OF i208(1)])
  then have "blk v (IBLOCK ?n mkfs_sb) = M (32 + i div 16)" using on_image_block [OF o(1), of "IBLOCK ?n mkfs_sb"] V(5) by simp
  then have y: "i_type y = i_type ?d" "i_size y = i_size ?d" "i_dev y = 1" "\<forall>k\<le>NDIRECT. i_addrs y k = i_addrs ?d k"
    using vi inode_place(2) [OF i208(1)] by (simp_all add: y_def get_dinode_def dinode_at_def)
  have ty: "i_type ?d = T_DIR \<or> i_type ?d = T_FILE"
    using h(1) i by (auto simp: image_holds_def inode_holds_def typed_def)
  then obtain w where w: "ilock (Some ip) v = Done w" "icache w ip = y\<lparr>i_flags := {I_BUSY, I_VALID}\<rparr>" "blk w = blk v"
    "fs_inv w" "busy w = {}" "sb w = sb v"
    using ilock_reads [OF V(1-3) vi(1)] vi i208 V(4) y(1)
    by (auto simp: y_def mkfs_sb_values T_DIR_def T_FILE_def)
  have wo: "on_image M w" "loaded M i ip w" using w o(1) V(4,5) y by (simp_all add: on_image_def loaded_def)
  note f = loaded_file [OF wo(1) w(4) h(1,2) i(1) wo(2) r]
  have u: "unat (of_nat (length ?c) :: u32) = length ?c" "i_type (icache w ip) \<noteq> T_DEV"
    using f(1,4) ty y(1) w(2) by (auto simp: file_ok_def unat_of_nat layout_defs T_DEV_def T_DIR_def T_FILE_def)
  obtain x where "readi devsw ip 0 (of_nat (length ?c)) w = Done (int (length ?c), ?c, x)"
    using readi_content [OF w(4) f(1) w(5) u(2), of 0 "of_nat (length ?c)" devsw] f(2,4) u(1) by (auto simp: min_def)
  then show ?thesis using ip w(1) by (auto simp: ROOTDEV_def v_def)
qed

section \<open>The kernel on an image of mkfs\<close>

text \<open>
  C5: the kernel starts on what \<open>mkfs\<close> has built. When the disk holds the image and the buffer cache is
  initialised, the first process recovers the empty log and the file system invariant holds from the first
  transaction on: the bitmap marks the blocks that \<open>mkfs\<close> has used and no others. From every inode that
  \<open>mkfs\<close> has made, \<open>iget\<close>, \<open>ilock\<close> and \<open>readi\<close> read the bytes that \<open>mkfs\<close> has copied. The only inode
  excepted is that of a root directory whose entries fill whole blocks: its size is rounded up past its
  last block.
\<close>

theorem kernel_reads_image:
  fixes s :: kstate
  assumes "all_readable es" "fits (root_table es)" "nmeta + table_blocks (root_table es) < BPB" "0 \<le> fsfd"
    and "mkfs_main 3 fsfd (Some es) = Done m" "memdisk s = img m" "disksize s = FSSIZE"
    and "bufs s = bss_bufs" "first s" "\<not> committing s" "outstanding s = 0" "\<forall>j<NINODE. i_ref (icache s j) = 0"
  shows "\<exists>t u. forkret (binit s) = Done t \<and> begin_op t = Done u \<and> fs_inv u \<and>
    (\<forall>b<FSSIZE. used u b \<longleftrightarrow> b < nmeta + table_blocks (root_table es)) \<and>
    (\<forall>i. 0 < i \<and> i < length (root_table es) \<and> (i = 1 \<longrightarrow> length (bytes_in (root_table es ! 1)) mod BSIZE \<noteq> 0) \<longrightarrow>
      (\<exists>ip v w x. iget ROOTDEV (of_nat i) u = Done (ip, v) \<and> ilock (Some ip) v = Done w \<and>
        readi devsw ip 0 (of_nat (length (bytes_in (root_table es ! i)))) w =
          Done (int (length (bytes_in (root_table es ! i))), bytes_in (root_table es ! i), x)))"
proof -
  have h: "image_holds (memdisk s) (root_table es)" using mkfs_builds [OF assms(1-4)] assms(5,6) by auto
  obtain t u where t: "forkret (binit s) = Done t" "begin_op t = Done u" "mounted (memdisk s) u" "icache u = icache s"
    using mount [OF assms(9) h assms(7,8,10,11)] by blast
  have o: "on_image (memdisk s) u" "fs_inv u" using t(3) by (simp_all add: mounted_def)
  have n: "length (root_table es) < NINODES" using assms(2) by (simp add: fits_def)
  have e: "\<forall>j<NINODE. i_ref (icache u j) = 0" using assms(12) t(4) by simp
  have "\<forall>b<FSSIZE. used u b \<longleftrightarrow> b < nmeta + table_blocks (root_table es)"
    using on_image_used [OF o(1) h] assms(3) by simp
  moreover have "\<exists>ip v w x. iget ROOTDEV (of_nat i) u = Done (ip, v) \<and> ilock (Some ip) v = Done w \<and>
        readi devsw ip 0 (of_nat (length (bytes_in (root_table es ! i)))) w =
          Done (int (length (bytes_in (root_table es ! i))), bytes_in (root_table es ! i), x)"
    if "0 < i \<and> i < length (root_table es) \<and> (i = 1 \<longrightarrow> length (bytes_in (root_table es ! 1)) mod BSIZE \<noteq> 0)" for i
    using that by (intro mounted_reads [OF t(3) h assms(3) n _ _ typed_root _ e]) auto
  ultimately show ?thesis using t(1,2) o(2) by blast
qed

theorem kernel_reads_image_witness:
  "\<exists>m t u. mkfs_main 3 4 (Some demo_host) = Done m \<and>
     forkret (binit (demo_kernel\<lparr>memdisk := img m, disksize := FSSIZE, bufs := bss_bufs, first := True, committing := False,
       outstanding := 0, icache := (\<lambda>_. demo_none)\<rparr>)) = Done t \<and> begin_op t = Done u \<and> \<not> used u 50 \<and>
     (\<exists>ip v w x. iget ROOTDEV 2 u = Done (ip, v) \<and> ilock (Some ip) v = Done w \<and> readi (\<lambda>_. \<lparr>dev_read = None, dev_write = None, dev_ioctl = None\<rparr>) ip 0 2 w = Done (2, [104, 105], x))"
proof -
  note d = demo_host_ok
  have b: "nmeta + table_blocks (root_table demo_host) < BPB" using d(3) by (simp add: layout_defs)
  obtain m where m: "mkfs_main 3 4 (Some demo_host) = Done m" using mkfs_builds [OF d(1,2) b, of 4] by auto
  let ?s = "demo_kernel\<lparr>memdisk := img m, disksize := FSSIZE, bufs := bss_bufs, first := True, committing := False,
       outstanding := 0, icache := (\<lambda>_. demo_none)\<rparr>"
  obtain t u where u: "forkret (binit ?s) = Done t" "begin_op t = Done u" "\<not> used u 50"
    "\<exists>ip v w x. iget ROOTDEV (of_nat 2) u = Done (ip, v) \<and> ilock (Some ip) v = Done w \<and>
        readi (\<lambda>_. \<lparr>dev_read = None, dev_write = None, dev_ioctl = None\<rparr>) ip 0 (of_nat (length (bytes_in (root_table demo_host ! 2)))) w =
          Done (int (length (bytes_in (root_table demo_host ! 2))), bytes_in (root_table demo_host ! 2), x)"
    using kernel_reads_image [OF d(1,2) b _ m, of ?s "\<lambda>_. \<lparr>dev_read = None, dev_write = None, dev_ioctl = None\<rparr>"] d(3) by (auto simp: demo_none_def demo_table layout_defs)
  then show ?thesis using m by (auto simp: demo_table)
qed

end
