(* ===== verification/Irq.thy ===== *)
theory Irq
  imports Trap
begin

text \<open>
  The interrupt controllers: the two 8259A controllers of \<open>kern/picirq.c\<close>, the interval timer of
  \<open>kern/timer.c\<close>, the I/O APIC of \<open>kern/ioapic.c\<close> and the local APIC of \<open>kern/lapic.c\<close>, without its clock.
  The bytes written to ports and the words written to the local APIC are kept in order; what is read
  from the local APIC is an argument. The I/O APIC is the file of its registers. Messages to the console
  are left out.
\<close>

section \<open>State\<close>

record irq_state =
  irqmask :: u16
  outs :: "(u16 \<times> u8) list"
  ioregs :: "nat \<Rightarrow> u32"
  lapic_on :: bool
  lapic_writes :: "(nat \<times> u32) list"
  wrv :: "u16 \<times> u16"

definition outb :: "u16 \<Rightarrow> u8 \<Rightarrow> irq_state \<Rightarrow> irq_state" where
  "outb p v s = s\<lparr>outs := outs s @ [(p, v)]\<rparr>"

section \<open>The 8259A controllers\<close>

definition IO_PIC1 :: u16 where "IO_PIC1 = 0x20"
definition IO_PIC2 :: u16 where "IO_PIC2 = 0xA0"
definition IRQ_SLAVE :: nat where "IRQ_SLAVE = 2"

definition irqmask0 :: u16 where
  "irqmask0 = 0xFFFF AND NOT (push_bit IRQ_SLAVE 1)"

definition picsetmask :: "u16 \<Rightarrow> irq_state \<Rightarrow> irq_state" where
  "picsetmask v s =
     (let s = s\<lparr>irqmask := v\<rparr>;
          s = outb (IO_PIC1 + 1) (ucast v) s
      in outb (IO_PIC2 + 1) (ucast (drop_bit 8 v)) s)"

definition picenable :: "nat \<Rightarrow> irq_state \<Rightarrow> irq_state" where
  "picenable irq s = picsetmask (irqmask s AND NOT (push_bit irq 1)) s"

definition picinit :: "irq_state \<Rightarrow> irq_state" where
  "picinit s =
     (let s = outb (IO_PIC1 + 1) 0xFF s;
          s = outb (IO_PIC2 + 1) 0xFF s;
          s = outb IO_PIC1 0x11 s;
          s = outb (IO_PIC1 + 1) (of_nat T_IRQ0) s;
          s = outb (IO_PIC1 + 1) (push_bit IRQ_SLAVE 1) s;
          s = outb (IO_PIC1 + 1) 0x3 s;
          s = outb IO_PIC2 0x11 s;
          s = outb (IO_PIC2 + 1) (of_nat (T_IRQ0 + 8)) s;
          s = outb (IO_PIC2 + 1) (of_nat IRQ_SLAVE) s;
          s = outb (IO_PIC2 + 1) 0x3 s;
          s = outb IO_PIC1 0x68 s;
          s = outb IO_PIC1 0x0a s;
          s = outb IO_PIC2 0x68 s;
          s = outb IO_PIC2 0x0a s
      in if irqmask s \<noteq> 0xFFFF then picsetmask (irqmask s) s else s)"

section \<open>The interval timer\<close>

definition IO_TIMER1 :: u16 where "IO_TIMER1 = 0x40"
definition TIMER_FREQ :: int where "TIMER_FREQ = 1193182"
definition TIMER_DIV :: "int \<Rightarrow> int" where "TIMER_DIV x = (TIMER_FREQ + x div 2) div x"
definition TIMER_MODE :: u16 where "TIMER_MODE = IO_TIMER1 + 3"
definition TIMER_SEL0 :: u8 where "TIMER_SEL0 = 0"
definition TIMER_RATEGEN :: u8 where "TIMER_RATEGEN = 4"
definition TIMER_16BIT :: u8 where "TIMER_16BIT = 0x30"

definition timerinit :: "irq_state \<Rightarrow> irq_state" where
  "timerinit s =
     (let s = outb TIMER_MODE (TIMER_SEL0 OR TIMER_RATEGEN OR TIMER_16BIT) s;
          s = outb IO_TIMER1 (of_int (TIMER_DIV 100 mod 256)) s;
          s = outb IO_TIMER1 (of_int (TIMER_DIV 100 div 256)) s
      in picenable IRQ_TIMER s)"

section \<open>The I/O APIC\<close>

definition REG_VER :: nat where "REG_VER = 1"
definition REG_TABLE :: nat where "REG_TABLE = 0x10"
definition INT_DISABLED :: u32 where "INT_DISABLED = 0x10000"

definition ioapicread :: "nat \<Rightarrow> irq_state \<Rightarrow> u32" where
  "ioapicread reg s = ioregs s reg"

definition ioapicwrite :: "nat \<Rightarrow> u32 \<Rightarrow> irq_state \<Rightarrow> irq_state" where
  "ioapicwrite reg v s = s\<lparr>ioregs := (ioregs s)(reg := v)\<rparr>"

definition ioapicinit_entry :: "nat \<Rightarrow> irq_state \<Rightarrow> irq_state" where
  "ioapicinit_entry i s =
     ioapicwrite (REG_TABLE + 2 * i + 1) 0 (ioapicwrite (REG_TABLE + 2 * i) (INT_DISABLED OR of_nat (T_IRQ0 + i)) s)"

definition ioapicinit :: "bool \<Rightarrow> irq_state \<Rightarrow> irq_state" where
  "ioapicinit ismp s =
     (if \<not> ismp then s
      else
        let maxintr = unat (drop_bit 16 (ioapicread REG_VER s) AND 0xFF)
        in fold ioapicinit_entry [0..<maxintr + 1] s)"

definition ioapicenable :: "bool \<Rightarrow> nat \<Rightarrow> u32 \<Rightarrow> irq_state \<Rightarrow> irq_state" where
  "ioapicenable ismp irq n s =
     (if \<not> ismp then s
      else ioapicwrite (REG_TABLE + 2 * irq + 1) (push_bit 24 n) (ioapicwrite (REG_TABLE + 2 * irq) (of_nat (T_IRQ0 + irq)) s))"

section \<open>The local APIC\<close>

text \<open>Its registers, with their indices in an array of words, and the bits of their contents.\<close>

datatype lapic_reg = TPR | EOI | SVR | ESR | ICRLO | ICRHI | TIMER | PCINT | LINT0 | LINT1 | ERROR | TICR | TDCR

primrec lapic_index :: "lapic_reg \<Rightarrow> nat" where
  "lapic_index TPR = 0x80 div 4"
| "lapic_index EOI = 0xB0 div 4"
| "lapic_index SVR = 0xF0 div 4"
| "lapic_index ESR = 0x280 div 4"
| "lapic_index ICRLO = 0x300 div 4"
| "lapic_index ICRHI = 0x310 div 4"
| "lapic_index TIMER = 0x320 div 4"
| "lapic_index PCINT = 0x340 div 4"
| "lapic_index LINT0 = 0x350 div 4"
| "lapic_index LINT1 = 0x360 div 4"
| "lapic_index ERROR = 0x370 div 4"
| "lapic_index TICR = 0x380 div 4"
| "lapic_index TDCR = 0x3E0 div 4"

datatype lapic_flag = ENABLE | INIT | STARTUP | DELIVS | ASSERT | LEVEL | BCAST | X1 | PERIODIC | MASKED

primrec lapic_bits :: "lapic_flag \<Rightarrow> u32" where
  "lapic_bits ENABLE = 0x100"
| "lapic_bits INIT = 0x500"
| "lapic_bits STARTUP = 0x600"
| "lapic_bits DELIVS = 0x1000"
| "lapic_bits ASSERT = 0x4000"
| "lapic_bits LEVEL = 0x8000"
| "lapic_bits BCAST = 0x80000"
| "lapic_bits X1 = 0xB"
| "lapic_bits PERIODIC = 0x20000"
| "lapic_bits MASKED = 0x10000"

definition IRQ_ERROR :: nat where "IRQ_ERROR = 19"

definition lapicw :: "lapic_reg \<Rightarrow> u32 \<Rightarrow> irq_state \<Rightarrow> irq_state" where
  "lapicw r v s = s\<lparr>lapic_writes := lapic_writes s @ [(lapic_index r, v)]\<rparr>"

text \<open>The loop that waits for the delivery of a command: \<open>icr i\<close> is what the \<open>i\<close>-th reading gives.\<close>

partial_function (option) lapic_wait :: "(nat \<Rightarrow> u32) \<Rightarrow> nat \<Rightarrow> nat option" where
  "lapic_wait icr i = (if icr i AND lapic_bits DELIVS \<noteq> 0 then lapic_wait icr (i + 1) else Some i)"

definition lapicinit :: "u32 \<Rightarrow> (nat \<Rightarrow> u32) \<Rightarrow> irq_state \<Rightarrow> irq_state outcome" where
  "lapicinit ver icr s =
     (if \<not> lapic_on s then Done s
      else
        let s = lapicw SVR (lapic_bits ENABLE OR of_nat (T_IRQ0 + IRQ_SPURIOUS)) s;
            s = lapicw TDCR (lapic_bits X1) s;
            s = lapicw TIMER (lapic_bits PERIODIC OR of_nat (T_IRQ0 + IRQ_TIMER)) s;
            s = lapicw TICR 10000000 s;
            s = lapicw LINT0 (lapic_bits MASKED) s;
            s = lapicw LINT1 (lapic_bits MASKED) s;
            s = (if (drop_bit 16 ver AND 0xFF) \<ge> 4 then lapicw PCINT (lapic_bits MASKED) s else s);
            s = lapicw ERROR (of_nat (T_IRQ0 + IRQ_ERROR)) s;
            s = lapicw ESR 0 s;
            s = lapicw ESR 0 s;
            s = lapicw EOI 0 s;
            s = lapicw ICRHI 0 s;
            s = lapicw ICRLO (lapic_bits BCAST OR lapic_bits INIT OR lapic_bits LEVEL) s
        in case lapic_wait icr 0 of None \<Rightarrow> Diverge | Some _ \<Rightarrow> Done (lapicw TPR 0 s))"

definition cpunum :: "u32 \<Rightarrow> irq_state \<Rightarrow> u32" where
  "cpunum lid s = (if lapic_on s then drop_bit 24 lid else 0)"

definition lapiceoi :: "irq_state \<Rightarrow> irq_state" where
  "lapiceoi s = (if lapic_on s then lapicw EOI 0 s else s)"

text \<open>\<open>lapicstartap\<close>: the warm reset vector is a pair of 16-bit words in low memory; \<open>microdelay\<close> does nothing.\<close>

definition lapicstartap :: "u8 \<Rightarrow> u32 \<Rightarrow> irq_state \<Rightarrow> irq_state" where
  "lapicstartap apicid addr s =
     (let s = outb 0x70 0xF s;
          s = outb 0x71 0x0A s;
          s = s\<lparr>wrv := (0, ucast (drop_bit 4 addr))\<rparr>;
          s = lapicw ICRHI (push_bit 24 (ucast apicid)) s;
          s = lapicw ICRLO (lapic_bits INIT OR lapic_bits LEVEL OR lapic_bits ASSERT) s;
          s = lapicw ICRLO (lapic_bits INIT OR lapic_bits LEVEL) s;
          startup = (\<lambda>s. lapicw ICRLO (lapic_bits STARTUP OR drop_bit 12 addr) (lapicw ICRHI (push_bit 24 (ucast apicid)) s))
      in startup (startup s))"

section \<open>Which interrupts are enabled\<close>

lemma io_fields [simp]:
  "irqmask (outb p v s) = irqmask s" "ioregs (outb p v s) = ioregs s" "irqmask (ioapicwrite r x s) = irqmask s"
  "outs (ioapicwrite r x s) = outs s"
  by (simp_all add: outb_def ioapicwrite_def)

lemma picsetmask_fields [simp]:
  "irqmask (picsetmask m s) = m" "ioregs (picsetmask m s) = ioregs s" "ioregs (picenable irq s) = ioregs s"
  "irqmask (picenable irq s) = irqmask s AND NOT (push_bit irq 1)"
  by (simp_all add: picsetmask_def picenable_def)

lemma irq_fields [simp]:
  "irqmask (ioapicenable b irq n s) = irqmask s" "outs (ioapicenable b irq n s) = outs s"
  "irqmask (ioapicinit_entry i s) = irqmask s" "irqmask (picinit s) = irqmask s" "ioregs (picinit s) = ioregs s"
  by (simp_all add: ioapicenable_def ioapicinit_entry_def picinit_def Let_def)

definition enable_irqs :: "(nat \<times> u32) list \<Rightarrow> irq_state \<Rightarrow> irq_state" where
  "enable_irqs xs s = fold (\<lambda>(irq, n) s. ioapicenable True irq n (picenable irq s)) xs s"

text \<open>The masks of the two controllers are the two bytes of \<open>irqmask\<close>.\<close>

definition masks_set :: "irq_state \<Rightarrow> bool" where
  "masks_set s \<longleftrightarrow> (\<exists>os. outs s = os @ [(0x21, ucast (irqmask s)), (0xA1, ucast (drop_bit 8 (irqmask s)))])"

lemma picsetmask_masks: "masks_set (picsetmask m s)"
  by (simp add: masks_set_def picsetmask_def outb_def Let_def IO_PIC1_def IO_PIC2_def)

lemma ioapicinit_regs:
  "ioregs (fold ioapicinit_entry [0..<n] s) r =
     (if REG_TABLE \<le> r \<and> r < REG_TABLE + 2 * n
      then if even (r - REG_TABLE) then INT_DISABLED OR of_nat (T_IRQ0 + (r - REG_TABLE) div 2) else 0
      else ioregs s r)"
  by (induction n) (auto simp: ioapicinit_entry_def ioapicwrite_def elim!: evenE oddE)

lemma ioapicinit_mask: "irqmask (ioapicinit b s) = irqmask s"
proof -
  have "irqmask (fold ioapicinit_entry xs s) = irqmask s" for xs by (induction xs arbitrary: s) simp_all
  then show ?thesis by (simp add: ioapicinit_def Let_def)
qed

lemma enable_irqs_snoc: "enable_irqs (xs @ [(irq, n)]) s = ioapicenable True irq n (picenable irq (enable_irqs xs s))"
  by (simp add: enable_irqs_def)

lemma enable_irqs_mask:
  "bit (irqmask (enable_irqs xs s)) i \<longleftrightarrow> bit (irqmask s) i \<and> i \<notin> fst ` set xs"
proof (induction xs rule: rev_induct)
  case (snoc x xs)
  then show ?case by (cases x) (auto simp: enable_irqs_snoc bit_simps dest: bit_imp_le_length)
qed (simp add: enable_irqs_def)

lemma enable_irqs_regs:
  "ioregs (enable_irqs xs s) (REG_TABLE + 2 * i) = (if i \<in> fst ` set xs then of_nat (T_IRQ0 + i) else ioregs s (REG_TABLE + 2 * i))"
  "ioregs (enable_irqs xs s) (REG_TABLE + 2 * i + 1) =
     (case map_of (rev xs) i of None \<Rightarrow> ioregs s (REG_TABLE + 2 * i + 1) | Some n \<Rightarrow> push_bit 24 n)"
proof (induction xs rule: rev_induct)
  case (snoc x xs)
  obtain irq n where x: "x = (irq, n)" by (cases x)
  have o: "REG_TABLE + 2 * i \<noteq> REG_TABLE + 2 * irq + 1" "REG_TABLE + 2 * i + 1 \<noteq> REG_TABLE + 2 * irq" by presburger+
  { case 1
    show ?case using snoc.IH(1) o by (auto simp: x enable_irqs_snoc ioapicenable_def ioapicwrite_def) }
  { case 2
    show ?case using snoc.IH(2) o by (auto simp: x enable_irqs_snoc ioapicenable_def ioapicwrite_def) }
qed (simp_all add: enable_irqs_def)

lemma enable_irqs_masks: "masks_set s \<Longrightarrow> masks_set (enable_irqs xs s)"
proof (induction xs rule: rev_induct)
  case (snoc x xs)
  show ?case
    using picsetmask_masks [of "irqmask (enable_irqs xs s) AND NOT (push_bit (fst x) 1)" "enable_irqs xs s"]
    by (cases x) (simp add: enable_irqs_snoc masks_set_def picenable_def)
qed (simp add: enable_irqs_def)

lemma picinit_masks: "irqmask s \<noteq> 0xFFFF \<Longrightarrow> masks_set (picinit s)"
  by (simp add: picinit_def Let_def picsetmask_masks)

lemma bit_irqmask0: "i < 16 \<Longrightarrow> bit irqmask0 i \<longleftrightarrow> i \<noteq> IRQ_SLAVE"
proof -
  have m: "(0xFFFF :: u16) = - 1" by simp
  assume "i < 16"
  then show ?thesis unfolding irqmask0_def m by (auto simp: bit_simps)
qed

lemma ioapicinit_entries:
  assumes "i \<le> unat (drop_bit 16 (ioregs s REG_VER) AND 0xFF)"
  shows "ioregs (ioapicinit True s) (REG_TABLE + 2 * i) = INT_DISABLED OR of_nat (T_IRQ0 + i)"
    and "ioregs (ioapicinit True s) (REG_TABLE + 2 * i + 1) = 0"
  using assms by (auto simp: ioapicinit_def ioapicread_def Let_def ioapicinit_regs simp del: upt_Suc)

lemma ioapicinit_outs: "outs (ioapicinit b s) = outs s"
proof -
  have "outs (fold ioapicinit_entry xs s) = outs s" for xs
    by (induction xs arbitrary: s) (simp_all add: ioapicinit_entry_def)
  then show ?thesis by (simp add: ioapicinit_def Let_def del: upt_Suc)
qed

text \<open>C36: the interrupts that are enabled. From the initial mask, once \<open>picinit\<close> and \<open>ioapicinit\<close> have run
  on a multiprocessor, drivers enable interrupts with \<open>picenable\<close> and \<open>ioapicenable\<close>, in any order and
  any number of times. Of the sixteen lines of the 8259A controllers exactly the enabled ones and the
  line of the slave are then unmasked, and the last two bytes sent are the two masks. Each
  entry of the I/O APIC has the vector of its line, is disabled exactly if it was not enabled, and is
  routed to the processor named by the last call that enabled it.\<close>

theorem interrupts_routed:
  assumes m: "irqmask s = irqmask0" and i: "i \<le> unat (drop_bit 16 (ioregs s REG_VER) AND 0xFF)"
    and t: "t = enable_irqs xs (ioapicinit True (picinit s))"
  shows "(i < 16 \<longrightarrow> (bit (irqmask t) i \<longleftrightarrow> i \<noteq> IRQ_SLAVE \<and> i \<notin> fst ` set xs)) \<and> masks_set t \<and>
    ioregs t (REG_TABLE + 2 * i) = (if i \<in> fst ` set xs then 0 else INT_DISABLED) OR of_nat (T_IRQ0 + i) \<and>
    ioregs t (REG_TABLE + 2 * i + 1) = (case map_of (rev xs) i of None \<Rightarrow> 0 | Some n \<Rightarrow> push_bit 24 n)"
proof (intro conjI)
  have i': "i \<le> unat (drop_bit 16 (ioregs (picinit s) REG_VER) AND 0xFF)" using i by simp
  show "i < 16 \<longrightarrow> (bit (irqmask t) i \<longleftrightarrow> i \<noteq> IRQ_SLAVE \<and> i \<notin> fst ` set xs)"
    by (simp add: t enable_irqs_mask ioapicinit_mask m bit_irqmask0)
  have "irqmask s \<noteq> 0xFFFF" by (simp add: m irqmask0_def IRQ_SLAVE_def)
  then have "masks_set (ioapicinit True (picinit s))"
    using picinit_masks [of s] by (simp add: masks_set_def ioapicinit_outs ioapicinit_mask)
  then show "masks_set t" unfolding t by (rule enable_irqs_masks)
  show "ioregs t (REG_TABLE + 2 * i) = (if i \<in> fst ` set xs then 0 else INT_DISABLED) OR of_nat (T_IRQ0 + i)"
    unfolding t enable_irqs_regs ioapicinit_entries(1) [OF i'] by simp
  show "ioregs t (REG_TABLE + 2 * i + 1) = (case map_of (rev xs) i of None \<Rightarrow> 0 | Some n \<Rightarrow> push_bit 24 n)"
    unfolding t enable_irqs_regs ioapicinit_entries(2) [OF i'] ..
qed

definition demo_irq :: irq_state where
  "demo_irq = \<lparr>irqmask = irqmask0, outs = [], ioregs = (\<lambda>r. if r = REG_VER then 0x170011 else 0), lapic_on = True,
     lapic_writes = [], wrv = (0, 0)\<rparr>"

theorem interrupts_routed_witness:
  "let t = enable_irqs [(IRQ_KBD, 0), (IRQ_IDE, 0), (IRQ_IDE, 1)] (ioapicinit True (picinit demo_irq))
   in \<not> bit (irqmask t) IRQ_IDE \<and> masks_set t \<and> ioregs t (REG_TABLE + 2 * IRQ_IDE) = of_nat (T_IRQ0 + IRQ_IDE) \<and>
      ioregs t (REG_TABLE + 2 * IRQ_IDE + 1) = 0x1000000"
  using interrupts_routed [of demo_irq IRQ_IDE _ "[(IRQ_KBD, 0), (IRQ_IDE, 0), (IRQ_IDE, 1)]", OF _ _ refl]
  by (simp add: Let_def demo_irq_def IRQ_IDE_def IRQ_KBD_def REG_VER_def)

end
