(* ===== verification/Mp.thy ===== *)
theory Mp
  imports Kstring Layout
begin

text \<open>
  The multiprocessor tables of the firmware, as \<open>kern/mp.c\<close> reads them: the search for the floating
  pointer structure, the configuration table and the count of the processors. Memory is flat; the
  structures of \<open>include/xv6/mp.h\<close> are read at their offsets. Pointers are addresses, with 0 for null.
  Messages to the console are left out.
\<close>

section \<open>State\<close>

record mp_state =
  mpcpus :: "nat \<Rightarrow> u8"
  bcpu :: nat
  ismp :: bool
  ncpu :: nat
  ioapicid :: u8
  lapic :: u32
  imcr :: "(u16 \<times> u8) list"

definition sizeof_mp :: u32 where "sizeof_mp = 16"
definition sizeof_mpconf :: u32 where "sizeof_mpconf = 44"
definition sizeof_mpproc :: u32 where "sizeof_mpproc = 20"
definition sizeof_mpioapic :: u32 where "sizeof_mpioapic = 8"
definition MPPROC :: u8 where "MPPROC = 0"
definition MPBUS :: u8 where "MPBUS = 1"
definition MPIOAPIC :: u8 where "MPIOAPIC = 2"
definition MPIOINTR :: u8 where "MPIOINTR = 3"
definition MPLINTR :: u8 where "MPLINTR = 4"
definition MPBOOT :: u8 where "MPBOOT = 2"

definition load16 :: "mem \<Rightarrow> u32 \<Rightarrow> u16" where
  "load16 m a = u16_of_bytes [m a, m (a + 1)]"

section \<open>Operations\<close>

definition mpbcpu :: "mp_state \<Rightarrow> nat" where
  "mpbcpu s = bcpu s"

primrec sum_loop :: "mem \<Rightarrow> u32 \<Rightarrow> nat \<Rightarrow> int \<Rightarrow> int" where
  "sum_loop m a 0 s = s"
| "sum_loop m a (Suc k) s = sum_loop m (a + 1) k (s + uint (m a))"

definition sum_bytes :: "mem \<Rightarrow> u32 \<Rightarrow> nat \<Rightarrow> u8" where
  "sum_bytes m addr len = of_int (sum_loop m addr len 0)"

partial_function (option) mpsearch1_loop :: "mem \<Rightarrow> u32 \<Rightarrow> u32 \<Rightarrow> u32 option" where
  "mpsearch1_loop m p e =
     (if p < e
      then
        if memcmp (\<lambda>i. m (p + of_nat i)) (\<lambda>i. [95, 77, 80, 95] ! i) 4 = 0 \<and> sum_bytes m p (unat sizeof_mp) = 0
        then Some p
        else mpsearch1_loop m (p + sizeof_mp) e
      else Some 0)"

definition mpsearch1 :: "mem \<Rightarrow> u32 \<Rightarrow> u32 \<Rightarrow> u32 outcome" where
  "mpsearch1 m a len =
     (let addr = p2v a; e = addr + len in
      case mpsearch1_loop m addr e of None \<Rightarrow> Diverge | Some p \<Rightarrow> Done p)"

definition mpsearch :: "mem \<Rightarrow> u32 outcome" where
  "mpsearch m =
     (let bda = p2v 0x400;
          p = push_bit 4 (push_bit 8 (ucast (m (bda + 0x0F))) OR ucast (m (bda + 0x0E))) :: u32
      in
      obind
        (if p \<noteq> 0 then mpsearch1 m p 1024
         else
           let p = (push_bit 8 (ucast (m (bda + 0x14))) OR ucast (m (bda + 0x13))) * 1024
           in mpsearch1 m (p - 1024) 1024)
        (\<lambda>mp. if mp \<noteq> 0 then Done mp else mpsearch1 m 0xF0000 0x10000))"

text \<open>\<open>mpconfig\<close> returns the configuration table and, through its argument, the floating pointer structure.\<close>

definition mpconfig :: "mem \<Rightarrow> (u32 \<times> u32) option outcome" where
  "mpconfig m =
     obind (mpsearch m) (\<lambda>mp.
       if mp = 0 \<or> load32 m (mp + 4) = 0 then Done None
       else
         let conf = p2v (load32 m (mp + 4)) in
         if memcmp (\<lambda>i. m (conf + of_nat i)) (\<lambda>i. [80, 67, 77, 80] ! i) 4 \<noteq> 0 then Done None
         else if m (conf + 6) \<noteq> 1 \<and> m (conf + 6) \<noteq> 4 then Done None
         else if sum_bytes m conf (unat (load16 m (conf + 4))) \<noteq> 0 then Done None
         else Done (Some (mp, conf)))"

text \<open>The loop over the entries of the table. An entry of an unknown type is never passed.\<close>

partial_function (option) mpinit_loop :: "mem \<Rightarrow> u32 \<Rightarrow> u32 \<Rightarrow> mp_state \<Rightarrow> mp_state option" where
  "mpinit_loop m p e s =
     (if p < e
      then
        if m p = MPPROC
        then
          let s = (if ncpu s \<noteq> unat (m (p + 1)) then s\<lparr>ismp := False\<rparr> else s);
              s = (if m (p + 3) AND MPBOOT \<noteq> 0 then s\<lparr>bcpu := ncpu s\<rparr> else s);
              s = s\<lparr>mpcpus := (mpcpus s)(ncpu s := of_nat (ncpu s))\<rparr>;
              s = s\<lparr>ncpu := ncpu s + 1\<rparr>
          in mpinit_loop m (p + sizeof_mpproc) e s
        else if m p = MPIOAPIC
        then mpinit_loop m (p + sizeof_mpioapic) e (s\<lparr>ioapicid := m (p + 1)\<rparr>)
        else if m p = MPBUS \<or> m p = MPIOINTR \<or> m p = MPLINTR then mpinit_loop m (p + 8) e s
        else mpinit_loop m p e (s\<lparr>ismp := False\<rparr>)
      else Some s)"

definition mpinit :: "mem \<Rightarrow> u8 \<Rightarrow> mp_state \<Rightarrow> mp_state outcome" where
  "mpinit m inb23 s =
     (let s = s\<lparr>bcpu := 0\<rparr> in
      obind (mpconfig m) (\<lambda>r.
        case r of
          None \<Rightarrow> Done s
        | Some (mp, conf) \<Rightarrow>
            let s = s\<lparr>ismp := True, lapic := load32 m (conf + 36)\<rparr> in
            (case mpinit_loop m (conf + sizeof_mpconf) (conf + ucast (load16 m (conf + 4))) s of
               None \<Rightarrow> Diverge
             | Some s \<Rightarrow>
                 if \<not> ismp s then Done (s\<lparr>ncpu := 1, lapic := 0, ioapicid := 0\<rparr>)
                 else if m (mp + 12) \<noteq> 0
                 then Done (s\<lparr>imcr := imcr s @ [(0x22, 0x70), (0x23, inb23 OR 1)]\<rparr>)
                 else Done s)))"

section \<open>The search ends\<close>

lemma mpsearch1_loop_returns: "unat p + n + 16 < 2 ^ 32 \<Longrightarrow> unat e \<le> unat p + n \<Longrightarrow> \<exists>q. mpsearch1_loop m p e = Some q"
proof (induction n arbitrary: p rule: less_induct)
  case (less n)
  show ?case
  proof (cases "p < e \<and> 16 < n")
    case True
    have "unat (p + sizeof_mp) = unat p + 16"
      using less.prems unat_add_of_nat [of p 16] by (simp add: sizeof_mp_def)
    then have "\<exists>q. mpsearch1_loop m (p + sizeof_mp) e = Some q"
      using True less.prems by (intro less.IH [of "n - 16"]) auto
    then show ?thesis by (subst mpsearch1_loop.simps) auto
  next
    case False
    have "unat (p + sizeof_mp) = unat p + 16"
      using less.prems unat_add_of_nat [of p 16] by (simp add: sizeof_mp_def)
    then have "p < e \<Longrightarrow> \<not> p + sizeof_mp < e" using False less.prems by (simp add: word_less_nat_alt)
    then show ?thesis
      by (subst mpsearch1_loop.simps, subst mpsearch1_loop.simps) auto
  qed
qed

lemma mpsearch1_returns: "unat (p2v a) + unat len + 16 < 2 ^ 32 \<Longrightarrow> \<exists>q. mpsearch1 m a len = Done q"
proof -
  assume l: "unat (p2v a) + unat len + 16 < 2 ^ 32"
  then have "unat (p2v a + len) = unat (p2v a) + unat len" by (simp add: unat_word_ariths)
  then show ?thesis using mpsearch1_loop_returns [OF l, of "p2v a + len" m] by (auto simp: mpsearch1_def Let_def)
qed

lemma unat_two_bytes: "unat (push_bit 8 (ucast (a :: u8)) OR ucast (b :: u8) :: u32) < 2 ^ 16"
proof -
  define w where "w = (push_bit 8 (ucast a) OR ucast b :: u32)"
  have "take_bit 16 w = w"
    unfolding w_def by (rule bit_word_eqI) (auto simp: bit_simps dest: bit_imp_le_length)
  then have "take_bit 16 (unat w) = unat w" unfolding unsigned_take_bit_eq [symmetric] by simp
  then show ?thesis unfolding w_def [symmetric] using take_bit_nat_less_exp [of 16 "unat w"] by linarith
qed

lemma mpsearch_returns: "\<exists>mp. mpsearch m = Done mp"
proof -
  let ?b = "p2v 0x400"
  define x where "x = (push_bit 8 (ucast (m (?b + 0x0F))) OR ucast (m (?b + 0x0E)) :: u32)"
  define y where "y = (push_bit 8 (ucast (m (?b + 0x14))) OR ucast (m (?b + 0x13)) :: u32)"
  have xy: "unat x < 2 ^ 16" "unat y < 2 ^ 16" by (simp_all only: x_def y_def unat_two_bytes)
  have ux: "unat (push_bit 4 x) = 16 * unat x" "unat (y * 1024) = 1024 * unat y"
    using xy by (simp_all add: push_bit_eq_mult unat_word_ariths mult.commute)
  have "\<exists>q. mpsearch1 m (push_bit 4 x) 1024 = Done q"
    using ux(1) xy by (intro mpsearch1_returns) (simp add: p2v_def KERNBASE_def unat_word_ariths)
  moreover have "\<exists>q. mpsearch1 m (y * 1024 - 1024) 1024 = Done q"
  proof (cases "y = 0")
    case False
    then have "0 < unat y" by (simp add: unat_gt_0)
    then have "unat (y * 1024 - 1024) = 1024 * unat y - 1024"
      using ux(2) by (subst unat_sub) (simp_all add: word_le_nat_alt)
    then show ?thesis using xy by (intro mpsearch1_returns) (simp add: p2v_def KERNBASE_def unat_word_ariths)
  qed (auto intro!: mpsearch1_returns simp: p2v_def KERNBASE_def)
  moreover have "\<exists>q. mpsearch1 m 0xF0000 0x10000 = Done q" by (rule mpsearch1_returns) (simp add: p2v_def KERNBASE_def)
  ultimately show ?thesis
    unfolding mpsearch_def Let_def x_def [symmetric] y_def [symmetric] by (auto simp: obind_Done_iff)
qed

section \<open>The table of entries\<close>

datatype mpentry = Cpu u8 u8 | Ioapic u8 | Misc u8

primrec entry_size :: "mpentry \<Rightarrow> nat" where
  "entry_size (Cpu i f) = 20"
| "entry_size (Ioapic n) = 8"
| "entry_size (Misc t) = 8"

primrec entry_at :: "mem \<Rightarrow> u32 \<Rightarrow> mpentry \<Rightarrow> bool" where
  "entry_at m p (Cpu i f) \<longleftrightarrow> m p = MPPROC \<and> m (p + 1) = i \<and> m (p + 3) = f"
| "entry_at m p (Ioapic n) \<longleftrightarrow> m p = MPIOAPIC \<and> m (p + 1) = n"
| "entry_at m p (Misc t) \<longleftrightarrow> m p = t \<and> (t = MPBUS \<or> t = MPIOINTR \<or> t = MPLINTR)"

primrec entries_at :: "mem \<Rightarrow> u32 \<Rightarrow> mpentry list \<Rightarrow> bool" where
  "entries_at m p [] \<longleftrightarrow> True"
| "entries_at m p (x # xs) \<longleftrightarrow> entry_at m p x \<and> entries_at m (p + of_nat (entry_size x)) xs"

definition table_size :: "mpentry list \<Rightarrow> nat" where
  "table_size xs = sum_list (map entry_size xs)"

text \<open>What one entry does to the state.\<close>

primrec take_entry :: "mpentry \<Rightarrow> mp_state \<Rightarrow> mp_state" where
  "take_entry (Cpu i f) s = s\<lparr>ismp := ismp s \<and> ncpu s = unat i, bcpu := (if f AND MPBOOT \<noteq> 0 then ncpu s else bcpu s),
     mpcpus := (mpcpus s)(ncpu s := of_nat (ncpu s)), ncpu := ncpu s + 1\<rparr>"
| "take_entry (Ioapic n) s = s\<lparr>ioapicid := n\<rparr>"
| "take_entry (Misc t) s = s"

lemma mpinit_loop_entries:
  "entries_at m p xs \<Longrightarrow> unat p + table_size xs < 2 ^ 32 \<Longrightarrow>
   mpinit_loop m p (p + of_nat (table_size xs)) s = Some (fold take_entry xs s)"
proof (induction xs arbitrary: p s)
  case Nil
  then show ?case by (subst mpinit_loop.simps) (simp add: table_size_def)
next
  case (Cons x xs)
  let ?q = "p + of_nat (entry_size x)" and ?e = "p + of_nat (table_size (x # xs))"
  have ts: "table_size (x # xs) = entry_size x + table_size xs" by (simp add: table_size_def)
  have z: "0 < entry_size x" by (cases x) simp_all
  have u: "unat ?q = unat p + entry_size x" "unat ?e = unat p + table_size (x # xs)"
    using Cons.prems(2) ts by (intro unat_add_of_nat; simp)+
  have e: "?e = ?q + of_nat (table_size xs)" by (simp add: ts add.assoc)
  have pe: "p < ?e" using u(2) ts z by (simp add: word_less_nat_alt)
  have IH: "mpinit_loop m ?q ?e t = Some (fold take_entry xs t)" for t
    unfolding e using Cons.prems u(1) ts by (intro Cons.IH) simp_all
  have "mpinit_loop m p ?e s = mpinit_loop m ?q ?e (take_entry x s)"
    using Cons.prems(1) pe
    by (subst mpinit_loop.simps, cases x)
      (auto simp: Let_def sizeof_mpproc_def sizeof_mpioapic_def MPPROC_def MPIOAPIC_def MPBUS_def MPIOINTR_def MPLINTR_def)
  then show ?case using IH by simp
qed

primrec apic_ids :: "mpentry list \<Rightarrow> nat list" where
  "apic_ids [] = []"
| "apic_ids (x # xs) = (case x of Cpu i f \<Rightarrow> [unat i] | _ \<Rightarrow> []) @ apic_ids xs"

text \<open>The last processor with the bootstrap flag, when the next processor is number \<open>k\<close>.\<close>

primrec boot_cpu :: "nat \<Rightarrow> nat \<Rightarrow> mpentry list \<Rightarrow> nat" where
  "boot_cpu k b [] = b"
| "boot_cpu k b (x # xs) =
     (case x of Cpu i f \<Rightarrow> boot_cpu (Suc k) (if f AND MPBOOT \<noteq> 0 then k else b) xs | _ \<Rightarrow> boot_cpu k b xs)"

lemma fold_take_entry:
  "let t = fold take_entry xs s; n = length (apic_ids xs) in
   ncpu t = ncpu s + n \<and> (ismp t \<longleftrightarrow> ismp s \<and> apic_ids xs = [ncpu s..<ncpu s + n]) \<and>
   (\<forall>i. mpcpus t i = (if ncpu s \<le> i \<and> i < ncpu s + n then of_nat i else mpcpus s i)) \<and>
   bcpu t = boot_cpu (ncpu s) (bcpu s) xs \<and> lapic t = lapic s \<and> imcr t = imcr s"
proof (induction xs arbitrary: s)
  case (Cons x xs)
  have "[a..<a + Suc k] = a # [Suc a..<Suc a + k]" for a k by (simp add: upt_conv_Cons del: upt_Suc)
  then show ?case using Cons [of "take_entry x s"] by (cases x) (auto simp: Let_def simp del: upt_Suc)
qed (auto simp: Let_def)

section \<open>Properties\<close>

text \<open>An entry of an unknown type, wherever it is in the table, makes the loop run for ever.\<close>

lemma mpinit_loop_unknown:
  assumes u: "p < e" "m p \<notin> {MPPROC, MPBUS, MPIOAPIC, MPIOINTR, MPLINTR}"
  shows "mpinit_loop m p e s = None"
proof (rule ccontr)
  assume "mpinit_loop m p e s \<noteq> None"
  then obtain y where "mpinit_loop m p e s = Some y" by auto
  then have "\<not> (p < e \<and> m p \<notin> {MPPROC, MPBUS, MPIOAPIC, MPIOINTR, MPLINTR})"
    by (rule mpinit_loop.raw_induct [where P = "\<lambda>m p e s y. \<not> (p < e \<and> m p \<notin> {MPPROC, MPBUS, MPIOAPIC, MPIOINTR, MPLINTR})", rotated])
      (fastforce split: if_splits)
  then show False using u by blast
qed

lemma sum_loop_list:
  "(\<And>i. i < length xs \<Longrightarrow> m (a + of_nat i) = xs ! i) \<Longrightarrow> sum_loop m a (length xs) s = s + sum_list (map uint xs)"
proof (induction xs arbitrary: a s)
  case (Cons x xs)
  have "m (a + 1 + of_nat i) = xs ! i" if "i < length xs" for i
    using Cons.prems [of "Suc i"] that by (simp add: add.assoc)
  moreover have "m a = x" using Cons.prems [of 0] by simp
  ultimately show ?case using Cons.IH [of "a + 1" "s + uint x"] by simp
qed simp


text \<open>A machine with two processors and one I/O APIC; the tables are in the extended BIOS data area.\<close>

definition demo_float :: bytes where
  "demo_float = [95, 77, 80, 95, 0, 16, 0, 0, 1, 4, 144, 0, 0, 0, 0, 0]"

definition demo_conf :: bytes where
  "demo_conf = [80, 67, 77, 80, 92, 0, 4, 141, 0, 0, 0, 0, 0, 0, 0, 0, 0, 0, 0, 0, 0, 0, 0, 0, 0, 0, 0, 0, 0, 0, 0, 0, 0, 0, 4, 0, 0, 0, 224, 254, 0, 0, 0, 0,
     0, 0, 20, 3, 0, 0, 0, 0, 0, 0, 0, 0, 0, 0, 0, 0, 0, 0, 0, 0,
     0, 1, 20, 1, 0, 0, 0, 0, 0, 0, 0, 0, 0, 0, 0, 0, 0, 0, 0, 0, 2, 2, 17, 1, 0, 0, 192, 254]"

definition with_bytes :: "u32 \<Rightarrow> bytes \<Rightarrow> mem \<Rightarrow> mem" where
  "with_bytes a xs m = (\<lambda>b. if unat (b - a) < length xs then xs ! unat (b - a) else m b)"

definition demo_firmware :: mem where
  "demo_firmware = with_bytes 0x8009FC00 demo_float (with_bytes 0x80001000 demo_conf (with_bytes 0x8000040E [0xC0, 0x9F] (\<lambda>_. 0)))"

definition demo_mp :: mp_state where
  "demo_mp = \<lparr>mpcpus = (\<lambda>_. 0), bcpu = 0, ismp = False, ncpu = 0, ioapicid = 0, lapic = 0, imcr = []\<rparr>"

lemma with_bytes_at: "i < length xs \<Longrightarrow> length xs < 2 ^ 32 \<Longrightarrow> with_bytes a xs m (a + of_nat i) = xs ! i"
  by (simp add: with_bytes_def unat_of_nat)

lemma demo_bytes:
  "i < 16 \<Longrightarrow> demo_firmware (0x8009FC00 + of_nat i) = demo_float ! i"
  "i < 92 \<Longrightarrow> demo_firmware (0x80001000 + of_nat i) = demo_conf ! i"
  "demo_firmware 0x8000040E = 0xC0" "demo_firmware 0x8000040F = 0x9F"
proof -
  have l: "length demo_float = 16" "length demo_conf = 92" by (simp_all add: demo_float_def demo_conf_def)
  show "i < 16 \<Longrightarrow> demo_firmware (0x8009FC00 + of_nat i) = demo_float ! i"
    unfolding demo_firmware_def by (rule with_bytes_at) (simp_all add: l)
  have "\<not> unat (0x80001000 + of_nat i - 0x8009FC00 :: u32) < 16" if "i < 92"
  proof -
    have e: "(0x80001000 + of_nat i - 0x8009FC00 :: u32) = 0xFFF61400 + of_nat i" by simp
    have "unat (0xFFF61400 + of_nat i :: u32) = 0xFFF61400 + i" using that unat_add_of_nat [of "0xFFF61400" i] by simp
    then show ?thesis unfolding e by linarith
  qed
  then show "i < 92 \<Longrightarrow> demo_firmware (0x80001000 + of_nat i) = demo_conf ! i"
    unfolding demo_firmware_def by (subst with_bytes_def) (simp add: l with_bytes_at)
  show "demo_firmware 0x8000040E = 0xC0" "demo_firmware 0x8000040F = 0x9F"
    by (simp_all add: demo_firmware_def with_bytes_def l)
qed

lemma memcmp_4: "memcmp f g 4 = 0 \<longleftrightarrow> f 0 = g 0 \<and> f 1 = g 1 \<and> f 2 = g 2 \<and> f 3 = g 3"
proof -
  have "(4 :: nat) = Suc (Suc (Suc (Suc 0)))" "(2 :: nat) = Suc (Suc 0)" "(3 :: nat) = Suc (Suc (Suc 0))" by simp_all
  then show ?thesis by (simp only: memcmp.simps) (auto simp: word_uint_eq_iff)
qed

lemma demo_sums: "sum_bytes demo_firmware 0x8009FC00 16 = 0" "sum_bytes demo_firmware 0x80001000 92 = 0"
proof -
  have l: "length demo_float = 16" "length demo_conf = 92" by (simp_all add: demo_float_def demo_conf_def)
  have "sum_loop demo_firmware 0x8009FC00 16 0 = sum_list (map uint demo_float)"
    using sum_loop_list [of demo_float demo_firmware "0x8009FC00" 0] demo_bytes(1) by (simp add: l)
  then show "sum_bytes demo_firmware 0x8009FC00 16 = 0" by (simp add: sum_bytes_def demo_float_def)
  have "sum_loop demo_firmware 0x80001000 92 0 = sum_list (map uint demo_conf)"
    using sum_loop_list [of demo_conf demo_firmware "0x80001000" 0] demo_bytes(2) by (simp add: l)
  then show "sum_bytes demo_firmware 0x80001000 92 = 0" by (simp add: sum_bytes_def demo_conf_def)
qed

lemmas demo_values =
  demo_bytes(1) [of 0] demo_bytes(1) [of 1] demo_bytes(1) [of 2] demo_bytes(1) [of 3] demo_bytes(1) [of 4] demo_bytes(1) [of 5] demo_bytes(1) [of 6] demo_bytes(1) [of 7] demo_bytes(1) [of 12]
  demo_bytes(2) [of 0] demo_bytes(2) [of 1] demo_bytes(2) [of 2] demo_bytes(2) [of 3] demo_bytes(2) [of 4] demo_bytes(2) [of 5] demo_bytes(2) [of 6] demo_bytes(2) [of 36] demo_bytes(2) [of 37] demo_bytes(2) [of 38] demo_bytes(2) [of 39] demo_bytes(2) [of 44] demo_bytes(2) [of 45] demo_bytes(2) [of 47] demo_bytes(2) [of 64] demo_bytes(2) [of 65] demo_bytes(2) [of 67] demo_bytes(2) [of 84] demo_bytes(2) [of 85]


end
