(* ===== verification/Boot.thy ===== *)
theory Boot
  imports Exec Mp
begin

text \<open>
  \<open>boot/bootmain.c\<close>: the boot loader reads the kernel, an ELF file that starts at sector 1 of the
  disk, into physical memory. The state has the memory, the commands written to the ports of the disk
  and the number of times its status was read. The disk is a parameter: \<open>status n\<close> is what the \<open>n\<close>-th
  reading of the status port gives, and \<open>drive cs\<close> the bytes of the sector it delivers after the commands
  \<open>cs\<close>. Loops that need not end are partial functions, with the value \<open>None\<close> when they do not.
\<close>

section \<open>State\<close>

record boot =
  bmem :: mem
  bcmds :: "(u16 \<times> u8) list"
  bpolls :: nat

definition SECTSIZE :: u32 where "SECTSIZE = 512"

definition boot_out :: "u16 \<Rightarrow> u8 \<Rightarrow> boot \<Rightarrow> boot" where
  "boot_out p v s = s\<lparr>bcmds := bcmds s @ [(p, v)]\<rparr>"

text \<open>\<open>insl\<close> stores the bytes that the port delivers.\<close>

primrec insl :: "u32 \<Rightarrow> bytes \<Rightarrow> mem \<Rightarrow> mem" where
  "insl d [] m = m"
| "insl d (b # bs) m = insl (d + 1) bs (m(d := b))"

section \<open>Operations\<close>

partial_function (option) waitdisk_loop :: "(nat \<Rightarrow> u8) \<Rightarrow> nat \<Rightarrow> nat option" where
  "waitdisk_loop status n = (if status n AND 0xC0 \<noteq> 0x40 then waitdisk_loop status (n + 1) else Some (n + 1))"

definition waitdisk :: "(nat \<Rightarrow> u8) \<Rightarrow> boot \<Rightarrow> boot option" where
  "waitdisk status s = map_option (\<lambda>n. s\<lparr>bpolls := n\<rparr>) (waitdisk_loop status (bpolls s))"

definition readsect :: "(nat \<Rightarrow> u8) \<Rightarrow> ((u16 \<times> u8) list \<Rightarrow> bytes) \<Rightarrow> u32 \<Rightarrow> u32 \<Rightarrow> boot \<Rightarrow> boot option" where
  "readsect status drive dst offset s =
     Option.bind (waitdisk status s) (\<lambda>s.
       let s = boot_out 0x1F2 1 s;
           s = boot_out 0x1F3 (ucast offset) s;
           s = boot_out 0x1F4 (ucast (drop_bit 8 offset)) s;
           s = boot_out 0x1F5 (ucast (drop_bit 16 offset)) s;
           s = boot_out 0x1F6 (ucast (drop_bit 24 offset OR 0xE0)) s;
           s = boot_out 0x1F7 0x20 s
       in map_option (\<lambda>s. s\<lparr>bmem := insl dst (take (unat SECTSIZE) (drive (bcmds s))) (bmem s)\<rparr>) (waitdisk status s))"

partial_function (option) readseg_loop ::
  "(nat \<Rightarrow> u8) \<Rightarrow> ((u16 \<times> u8) list \<Rightarrow> bytes) \<Rightarrow> u32 \<Rightarrow> u32 \<Rightarrow> u32 \<Rightarrow> boot \<Rightarrow> boot option" where
  "readseg_loop status drive pa epa offset s =
     (if pa < epa
      then Option.bind (readsect status drive pa offset s) (\<lambda>s. readseg_loop status drive (pa + SECTSIZE) epa (offset + 1) s)
      else Some s)"

definition readseg :: "(nat \<Rightarrow> u8) \<Rightarrow> ((u16 \<times> u8) list \<Rightarrow> bytes) \<Rightarrow> u32 \<Rightarrow> u32 \<Rightarrow> u32 \<Rightarrow> boot \<Rightarrow> boot option" where
  "readseg status drive pa count offset s =
     (let epa = pa + count;
          pa = pa - offset mod SECTSIZE;
          offset = offset div SECTSIZE + 1
      in readseg_loop status drive pa epa offset s)"

definition boot_elf :: u32 where "boot_elf = 0x10000"

record bootph =
  bp_off :: u32
  bp_paddr :: u32
  bp_filesz :: u32
  bp_memsz :: u32

definition bootph_at :: "mem \<Rightarrow> u32 \<Rightarrow> bootph" where
  "bootph_at m a = \<lparr>bp_off = load32 m (a + 4), bp_paddr = load32 m (a + 12), bp_filesz = load32 m (a + 16),
     bp_memsz = load32 m (a + 20)\<rparr>"

definition load_segment :: "(nat \<Rightarrow> u8) \<Rightarrow> ((u16 \<times> u8) list \<Rightarrow> bytes) \<Rightarrow> u32 \<Rightarrow> boot \<Rightarrow> boot option" where
  "load_segment status drive ph s =
     (let pa = bp_paddr (bootph_at (bmem s) ph) in
      map_option (\<lambda>s.
          let h = bootph_at (bmem s) ph in
          if bp_memsz h > bp_filesz h
          then s\<lparr>bmem := stosb (pa + bp_filesz h) 0 (unat (bp_memsz h - bp_filesz h)) (bmem s)\<rparr>
          else s)
        (readseg status drive pa (bp_filesz (bootph_at (bmem s) ph)) (bp_off (bootph_at (bmem s) ph)) s))"

partial_function (option) bootmain_loop ::
  "(nat \<Rightarrow> u8) \<Rightarrow> ((u16 \<times> u8) list \<Rightarrow> bytes) \<Rightarrow> u32 \<Rightarrow> u32 \<Rightarrow> boot \<Rightarrow> boot option" where
  "bootmain_loop status drive ph eph s =
     (if ph < eph
      then Option.bind (load_segment status drive ph s) (\<lambda>s.
             bootmain_loop status drive (ph + of_nat sizeof_proghdr) eph s)
      else Some s)"

text \<open>The result has the address that is called, or \<open>None\<close> if \<open>bootmain\<close> returns to \<open>bootasm.S\<close>.\<close>

definition bootmain :: "(nat \<Rightarrow> u8) \<Rightarrow> ((u16 \<times> u8) list \<Rightarrow> bytes) \<Rightarrow> boot \<Rightarrow> (u32 option \<times> boot) option" where
  "bootmain status drive s =
     Option.bind (readseg status drive boot_elf 4096 0 s) (\<lambda>s.
       if load32 (bmem s) boot_elf \<noteq> ELF_MAGIC then Some (None, s)
       else
         let ph = boot_elf + load32 (bmem s) (boot_elf + 28);
             eph = ph + ucast (load16 (bmem s) (boot_elf + 44)) * of_nat sizeof_proghdr
         in map_option (\<lambda>s. (Some (load32 (bmem s) (boot_elf + 24)), s)) (bootmain_loop status drive ph eph s))"

section \<open>Reading sectors\<close>

text \<open>The drive answers a command with the sector of the 28-bit number in its registers.\<close>

definition lba_drive :: "((u16 \<times> u8) list \<Rightarrow> bytes) \<Rightarrow> (nat \<Rightarrow> bytes) \<Rightarrow> bool" where
  "lba_drive drive sector \<longleftrightarrow>
     (\<forall>cs a b c d. unat d div 16 = 14 \<longrightarrow>
        drive (cs @ [(0x1F2, 1), (0x1F3, a), (0x1F4, b), (0x1F5, c), (0x1F6, d), (0x1F7, 0x20)]) =
          sector (unat a + 256 * unat b + 65536 * unat c + 16777216 * (unat d mod 16)))"

definition gets_ready :: "(nat \<Rightarrow> u8) \<Rightarrow> bool" where
  "gets_ready status \<longleftrightarrow> (\<forall>n. \<exists>m\<ge>n. status m AND 0xC0 = 0x40)"

text \<open>The file with the bytes \<open>f\<close> starts at sector 1.\<close>

definition holds_file :: "(nat \<Rightarrow> bytes) \<Rightarrow> (nat \<Rightarrow> u8) \<Rightarrow> bool" where
  "holds_file sector f \<longleftrightarrow> (\<forall>n. sector (n + 1) = map f [512 * n..<512 * n + 512])"

lemma waitdisk_loop_returns: "status m AND 0xC0 = 0x40 \<Longrightarrow> n \<le> m \<Longrightarrow> \<exists>k. waitdisk_loop status n = Some k"
proof (induction "m - n" arbitrary: n)
  case 0
  then show ?case by (simp add: waitdisk_loop.simps)
next
  case (Suc d)
  show ?case
  proof (cases "status n AND 0xC0 = 0x40")
    case False
    then have "n < m" using Suc by (metis le_neq_implies_less)
    then show ?thesis using Suc False by (simp add: waitdisk_loop.simps [of _ n])
  qed (simp add: waitdisk_loop.simps)
qed

lemma waitdisk_ready: "gets_ready status \<Longrightarrow> \<exists>k. waitdisk status s = Some (s\<lparr>bpolls := k\<rparr>)"
  using waitdisk_loop_returns [of status _ "bpolls s"] unfolding gets_ready_def waitdisk_def
  by (metis option.simps(9))

lemma insl_mem: "length bs \<le> 2 ^ 32 \<Longrightarrow> insl d bs m a = (if unat (a - d) < length bs then bs ! unat (a - d) else m a)"
proof (induction bs arbitrary: d m)
  case (Cons b bs)
  show ?case
  proof (cases "a = d")
    case True
    have "unat (d - (d + 1) :: u32) = 2 ^ 32 - 1" by (simp add: unsigned_minus_1_eq_mask mask_eq_exp_minus_1)
    then show ?thesis using Cons by (simp add: True)
  next
    case False
    then have "unat (a - d) = Suc (unat (a - (d + 1)))"
      using unat_pred [of "a - d"] unat_gt_0 [of "a - d"] by (simp add: diff_diff_eq [symmetric])
    then show ?thesis using Cons False by simp
  qed
qed simp

lemma three_bytes: "x mod 256 + 256 * (x div 256 mod 256) + 65536 * (x div 65536) = (x :: nat)"
proof -
  have d: "x div 65536 = x div 256 div 256" by (simp add: div_mult2_eq [symmetric])
  show ?thesis unfolding d using mod_mult_div_eq [of x 256] mod_mult_div_eq [of "x div 256" 256] by linarith
qed

lemma readsect_reads:
  assumes r: "gets_ready status" and d: "lba_drive drive sector" and l: "length (sector (unat off)) = 512"
    and o: "unat off < 2 ^ 24"
  shows "\<exists>s'. readsect status drive dst off s = Some s' \<and> bmem s' = insl dst (sector (unat off)) (bmem s)"
proof -
  obtain k where k: "waitdisk status s = Some (s\<lparr>bpolls := k\<rparr>)" using waitdisk_ready [OF r] by blast
  let ?cs = "[(0x1F2, 1), (0x1F3, ucast off), (0x1F4, ucast (drop_bit 8 off)), (0x1F5, ucast (drop_bit 16 off)), (0x1F6, 0xE0), (0x1F7, 0x20)]"
  let ?s = "s\<lparr>bpolls := k, bcmds := bcmds s @ ?cs\<rparr>"
  obtain j where j: "waitdisk status ?s = Some (?s\<lparr>bpolls := j\<rparr>)" using waitdisk_ready [OF r] by blast
  have z: "drop_bit 24 off = 0" using o by (simp add: drop_bit_eq_div word_unat_eq_iff unat_div)
  have n: "unat (ucast off :: u8) + 256 * unat (ucast (drop_bit 8 off) :: u8) + 65536 * unat (ucast (drop_bit 16 off) :: u8) = unat off"
    using three_bytes [of "unat off"] o by (simp add: unsigned_ucast_eq unat_drop_bit_eq drop_bit_eq_div take_bit_eq_mod unat_div)
  have "drive (bcmds ?s) = sector (unat off)"
    using d n unfolding lba_drive_def by (auto simp: Let_def)
  then show ?thesis using k j l by (simp add: readsect_def boot_out_def Let_def z SECTSIZE_def)
qed

text \<open>The memory after the sectors of the part of the file from \<open>o\<close> on were read to \<open>p\<close>, \<open>n\<close> bytes in all.\<close>

definition with_file :: "nat \<Rightarrow> (nat \<Rightarrow> u8) \<Rightarrow> nat \<Rightarrow> nat \<Rightarrow> mem \<Rightarrow> mem" where
  "with_file p f off n m = (\<lambda>a. if p \<le> unat a \<and> unat a < p + n then f (off + unat a - p) else m a)"

lemma insl_with_file:
  assumes "unat p + 512 \<le> 2 ^ 32"
  shows "insl p (map f [off..<off + 512]) m = with_file (unat p) f off 512 m"
proof
  fix a :: u32
  have "unat (a - p) = (if p \<le> a then unat a - unat p else 2 ^ 32 + unat a - unat p)"
    by (auto simp: unat_sub_wrap unat_sub not_le)
  then show "insl p (map f [off..<off + 512]) m a = with_file (unat p) f off 512 m a"
    using assms unsigned_less [of a] by (auto simp: insl_mem with_file_def word_le_nat_alt)
qed

lemma readseg_loop_reads:
  assumes r: "gets_ready status" and d: "lba_drive drive sector" and h: "holds_file sector f"
  shows "unat pa < unat epa \<Longrightarrow> unat epa + 511 < 2 ^ 32 \<Longrightarrow> unat epa \<le> unat pa + 512 * n \<Longrightarrow> unat pa + 512 * n < unat epa + 512 \<Longrightarrow>
    unat off + n \<le> 2 ^ 24 \<Longrightarrow> 0 < unat off \<Longrightarrow>
    \<exists>s'. readseg_loop status drive pa epa off s = Some s' \<and>
      bmem s' = with_file (unat pa) f (512 * (unat off - 1)) (512 * n) (bmem s)"
proof (induction n arbitrary: pa off s)
  case (Suc n)
  have l: "length (sector (unat off)) = 512" "sector (unat off) = map f [512 * (unat off - 1)..<512 * (unat off - 1) + 512]"
    using h Suc.prems(6) unfolding holds_file_def by (metis Suc_eq_plus1 Suc_pred' length_map length_upt diff_add_inverse)+
  have p: "unat (pa + SECTSIZE) = unat pa + 512" "unat (off + 1) = unat off + 1"
    using Suc.prems by (simp_all add: SECTSIZE_def unat_word_ariths)
  obtain s1 where s1: "readsect status drive pa off s = Some s1" "bmem s1 = with_file (unat pa) f (512 * (unat off - 1)) 512 (bmem s)"
    using readsect_reads [OF r d l(1), of pa s] Suc.prems insl_with_file [of pa] by (auto simp: l(2))
  show ?case
  proof (cases "unat (pa + SECTSIZE) < unat epa")
    case True
    obtain s2 where "readseg_loop status drive (pa + SECTSIZE) epa (off + 1) s1 = Some s2"
      "bmem s2 = with_file (unat pa + 512) f (512 * unat off) (512 * n) (bmem s1)"
      using Suc.IH [of "pa + SECTSIZE" "off + 1" s1] True Suc.prems by (auto simp: p)
    then show ?thesis using Suc.prems s1
      by (auto simp: readseg_loop.simps [of _ _ pa] word_less_nat_alt with_file_def fun_eq_iff intro!: arg_cong [of _ _ f])
  next
    case False
    then have "n = 0" using Suc.prems p by simp
    moreover have "readseg_loop status drive (pa + SECTSIZE) epa (off + 1) s1 = Some s1"
      using False by (simp add: readseg_loop.simps word_less_nat_alt)
    ultimately show ?thesis using Suc.prems s1 by (simp add: readseg_loop.simps [of _ _ pa] word_less_nat_alt)
  qed
qed simp

definition sectors_for :: "nat \<Rightarrow> nat \<Rightarrow> nat" where
  "sectors_for off count = (off mod 512 + count + 511) div 512"

lemma sectors_for_bounds:
  "off mod 512 + count \<le> 512 * sectors_for off count" "512 * sectors_for off count \<le> off mod 512 + count + 511"
  "off mod 512 + count = 0 \<Longrightarrow> sectors_for off count = 0"
  using mult_div_mod_eq [of 512 "off mod 512 + count + 511"] mod_less_divisor [of 512 "off mod 512 + count + 511"]
  by (simp_all add: sectors_for_def)

lemma with_file_none [simp]: "with_file p f off 0 m = m"
  by (auto simp: with_file_def fun_eq_iff)

lemma readseg_reads:
  assumes r: "gets_ready status" and d: "lba_drive drive sector" and h: "holds_file sector f"
    and b: "unat off mod 512 \<le> unat pa" "unat pa + unat count + 511 < 2 ^ 32"
  shows "\<exists>s'. readseg status drive pa count off s = Some s' \<and>
    bmem s' = with_file (unat pa - unat off mod 512) f (unat off - unat off mod 512) (512 * sectors_for (unat off) (unat count)) (bmem s)"
proof -
  let ?l = "unat off mod 512" and ?n = "sectors_for (unat off) (unat count)"
  have e: "unat (pa + count) = unat pa + unat count" using b by (simp add: unat_word_ariths)
  have l: "unat (off mod SECTSIZE) = ?l" by (simp add: SECTSIZE_def unat_mod)
  have p: "unat (pa - off mod SECTSIZE) = unat pa - ?l" using b by (simp add: unat_sub word_le_nat_alt l)
  have q: "unat off div 512 < 2 ^ 23" using unsigned_less [of off, where 'a = nat] by (simp add: less_mult_imp_div_less)
  then have o: "unat (off div SECTSIZE + 1) = unat off div 512 + 1"
    by (simp add: SECTSIZE_def unat_word_ariths unat_div)
  have o': "512 * (unat (off div SECTSIZE + 1) - 1) = unat off - ?l" unfolding o by (simp add: minus_mod_eq_mult_div)
  note n = sectors_for_bounds [where off = "unat off" and count = "unat count"]
  show ?thesis
  proof (cases "?l + unat count = 0")
    case True
    then show ?thesis using n(3) p e
      by (simp add: readseg_def Let_def readseg_loop.simps word_less_nat_alt)
  next
    case False
    have "?n \<le> 2 ^ 23" using n(2) b by simp
    then have "unat off div 512 + 1 + ?n \<le> 2 ^ 24" "0 < unat off div 512 + 1" using q by simp_all
    moreover have "unat pa - ?l < unat pa + unat count" "unat pa + unat count \<le> unat pa - ?l + 512 * ?n"
      "unat pa - ?l + 512 * ?n < unat pa + unat count + 512"
      using False b n by linarith+
    ultimately have "\<exists>s'. readseg_loop status drive (pa - off mod SECTSIZE) (pa + count) (off div SECTSIZE + 1) s = Some s' \<and>
        bmem s' = with_file (unat pa - ?l) f (512 * (unat (off div SECTSIZE + 1) - 1)) (512 * ?n) (bmem s)"
      using readseg_loop_reads [OF r d h, of "pa - off mod SECTSIZE" "pa + count" ?n "off div SECTSIZE + 1" s] b
      unfolding p e o by metis
    then show ?thesis unfolding o' by (simp add: readseg_def Let_def)
  qed
qed

section \<open>Loading the segments\<close>

text \<open>What a segment looks like in memory, and the first and last address that loading it writes.\<close>

definition seg_byte :: "(nat \<Rightarrow> u8) \<Rightarrow> bootph \<Rightarrow> nat \<Rightarrow> u8" where
  "seg_byte f h k = (if k < unat (bp_filesz h) then f (unat (bp_off h) + k) else 0)"

definition seg_first :: "bootph \<Rightarrow> nat" where
  "seg_first h = unat (bp_paddr h) - unat (bp_off h) mod 512"

definition seg_end :: "bootph \<Rightarrow> nat" where
  "seg_end h = unat (bp_paddr h) + unat (bp_memsz h)"

definition seg_loaded :: "(nat \<Rightarrow> u8) \<Rightarrow> bootph \<Rightarrow> mem \<Rightarrow> bool" where
  "seg_loaded f h m \<longleftrightarrow> (\<forall>k<unat (bp_memsz h). m (bp_paddr h + of_nat k) = seg_byte f h k)"

text \<open>A segment that nothing is read for, or one that lies above the page of the headers.\<close>

definition seg_still :: "bootph \<Rightarrow> bool" where
  "seg_still h \<longleftrightarrow> bp_memsz h = 0 \<and> bp_filesz h = 0 \<and> unat (bp_off h) mod 512 = 0"

definition seg_ok :: "bootph \<Rightarrow> bool" where
  "seg_ok h \<longleftrightarrow>
     seg_still h \<or>
     bp_filesz h \<le> bp_memsz h \<and> 0x11000 + unat (bp_off h) mod 512 \<le> unat (bp_paddr h) \<and> seg_end h + 511 < 2 ^ 32"

text \<open>The page of the headers is in memory.\<close>

definition header_in :: "(nat \<Rightarrow> u8) \<Rightarrow> mem \<Rightarrow> bool" where
  "header_in f m \<longleftrightarrow> (\<forall>k<4096. m (boot_elf + of_nat k) = f k)"

definition header_mem :: "(nat \<Rightarrow> u8) \<Rightarrow> mem" where
  "header_mem f = (\<lambda>a. f (unat (a - boot_elf)))"

lemma unat_elf: "k < 4096 \<Longrightarrow> unat (boot_elf + of_nat k) = 0x10000 + k"
  by (simp add: boot_elf_def unat_word_ariths unat_of_nat)

lemma header_in_mem: "header_in f m \<Longrightarrow> k < 4096 \<Longrightarrow> m (boot_elf + of_nat k) = header_mem f (boot_elf + of_nat k)"
  by (simp add: header_in_def header_mem_def unat_of_nat)

lemma header_load32:
  assumes h: "header_in f m" and k: "k + 3 < 4096"
  shows "load32 m (boot_elf + of_nat k) = load32 (header_mem f) (boot_elf + of_nat k)"
proof (rule load32_cong)
  show "m (boot_elf + of_nat k) = header_mem f (boot_elf + of_nat k)" using header_in_mem [OF h, of k] k by simp
  show "m (boot_elf + of_nat k + 1) = header_mem f (boot_elf + of_nat k + 1)" using header_in_mem [OF h, of "k + 1"] k by (simp add: ac_simps)
  show "m (boot_elf + of_nat k + 2) = header_mem f (boot_elf + of_nat k + 2)" using header_in_mem [OF h, of "k + 2"] k by (simp add: ac_simps)
  show "m (boot_elf + of_nat k + 3) = header_mem f (boot_elf + of_nat k + 3)" using header_in_mem [OF h, of "k + 3"] k by (simp add: ac_simps)
qed

lemma header_ph:
  assumes h: "header_in f m" and k: "k + 32 \<le> 4096"
  shows "bootph_at m (boot_elf + of_nat k) = bootph_at (header_mem f) (boot_elf + of_nat k)"
  using header_load32 [OF h, of "k + 4"] header_load32 [OF h, of "k + 12"] header_load32 [OF h, of "k + 16"]
    header_load32 [OF h, of "k + 20"] k
  by (simp add: bootph_at_def ac_simps)

lemma header_in_frame: "header_in f m \<Longrightarrow> \<forall>a. unat a < 0x11000 \<longrightarrow> m' a = m a \<Longrightarrow> header_in f m'"
  by (simp add: header_in_def unat_elf)

lemma readseg_nothing:
  assumes "unat off mod 512 = 0"
  shows "readseg status drive pa 0 off s = Some s"
proof -
  have "off mod SECTSIZE = 0" using assms by (simp add: SECTSIZE_def unat_mod word_unat_eq_iff)
  then show ?thesis by (simp add: readseg_def Let_def readseg_loop.simps)
qed

lemma seg_loaded_fill:
  assumes "bp_filesz h \<le> bp_memsz h" "unat (bp_off h) mod 512 \<le> unat (bp_paddr h)" "seg_end h + 511 < 2 ^ 32"
    and m: "m = with_file (seg_first h) f (unat (bp_off h) - unat (bp_off h) mod 512) (512 * sectors_for (unat (bp_off h)) (unat (bp_filesz h))) m0"
    and m': "m' = stosb (bp_paddr h + bp_filesz h) 0 (unat (bp_memsz h - bp_filesz h)) m"
  shows "seg_loaded f h m' \<and> (\<forall>a. unat a < seg_first h \<longrightarrow> m' a = m0 a)"
proof -
  let ?p = "unat (bp_paddr h)" and ?z = "unat (bp_filesz h)" and ?l = "unat (bp_off h) mod 512"
  have z: "?z \<le> unat (bp_memsz h)" "?p + unat (bp_memsz h) + 511 < 2 ^ 32" using assms by (simp_all add: word_le_nat_alt seg_end_def)
  have e: "unat (bp_paddr h + bp_filesz h) = ?p + ?z" "unat (bp_memsz h - bp_filesz h) = unat (bp_memsz h) - ?z"
    using z assms(1) by (simp_all add: unat_word_ariths unat_sub)
  have w: "unat (a - (bp_paddr h + bp_filesz h)) < unat (bp_memsz h) - ?z \<longleftrightarrow> ?p + ?z \<le> unat a \<and> unat a < seg_end h" for a
  proof (cases "bp_paddr h + bp_filesz h \<le> a")
    case True
    then show ?thesis using z by (auto simp: unat_sub e seg_end_def word_le_nat_alt)
  next
    case False
    then show ?thesis using z unat_sub_wrap [of a "bp_paddr h + bp_filesz h"] by (auto simp: not_le e seg_end_def word_less_nat_alt)
  qed
  have m'': "m' a = (if ?p + ?z \<le> unat a \<and> unat a < seg_end h then 0 else m a)" for a
    unfolding m' using stosb_mem [of "unat (bp_memsz h) - ?z" "bp_paddr h + bp_filesz h" 0 m a] z by (simp add: e w)
  have "m' (bp_paddr h + of_nat k) = seg_byte f h k" if "k < unat (bp_memsz h)" for k
  proof -
    have k: "unat (bp_paddr h + of_nat k) = ?p + k" using that z by (simp add: unat_word_ariths unat_of_nat)
    show ?thesis using that assms(2) sectors_for_bounds(1) [of "unat (bp_off h)" ?z]
      by (auto simp: m'' k seg_byte_def seg_end_def m with_file_def seg_first_def intro!: arg_cong [of _ _ f])
  qed
  moreover have "m' a = m0 a" if "unat a < seg_first h" for a
    using that by (auto simp: m'' m with_file_def seg_first_def)
  ultimately show ?thesis by (simp add: seg_loaded_def)
qed

lemma load_segment_loads:
  assumes r: "gets_ready status" and d: "lba_drive drive sector" and f: "holds_file sector f"
    and i: "header_in f (bmem s)" "k + 32 \<le> 4096" and h: "h = bootph_at (header_mem f) (boot_elf + of_nat k)" and ok: "seg_ok h"
  shows "\<exists>s'. load_segment status drive (boot_elf + of_nat k) s = Some s' \<and> seg_loaded f h (bmem s') \<and>
    (\<forall>a. seg_still h \<or> unat a < seg_first h \<longrightarrow> bmem s' a = bmem s a)"
proof (cases "seg_still h")
  case True
  have "readseg status drive (bp_paddr h) (bp_filesz h) (bp_off h) s = Some s"
    using True readseg_nothing by (simp add: seg_still_def)
  then show ?thesis using True header_ph [OF i]
    by (simp add: load_segment_def h [symmetric] seg_still_def seg_loaded_def Let_def)
next
  case False
  then have b: "bp_filesz h \<le> bp_memsz h" "0x11000 + unat (bp_off h) mod 512 \<le> unat (bp_paddr h)" "seg_end h + 511 < 2 ^ 32"
    using ok by (auto simp: seg_ok_def)
  then have z: "unat (bp_off h) mod 512 \<le> unat (bp_paddr h)" "unat (bp_paddr h) + unat (bp_filesz h) + 511 < 2 ^ 32"
    by (auto simp: seg_end_def word_le_nat_alt)
  obtain s1 where s1: "readseg status drive (bp_paddr h) (bp_filesz h) (bp_off h) s = Some s1"
    "bmem s1 = with_file (seg_first h) f (unat (bp_off h) - unat (bp_off h) mod 512) (512 * sectors_for (unat (bp_off h)) (unat (bp_filesz h))) (bmem s)"
    using readseg_reads [OF r d f z, of s] by (auto simp: seg_first_def)
  have "header_in f (bmem s1)"
    by (rule header_in_frame [OF i(1)]) (use b in \<open>auto simp: s1(2) with_file_def seg_first_def\<close>)
  then have e: "bootph_at (bmem s1) (boot_elf + of_nat k) = h" "bootph_at (bmem s) (boot_elf + of_nat k) = h"
    using header_ph i h by simp_all
  have g: "stosb p 0 (unat (bp_memsz h - bp_filesz h)) m = m" if "\<not> bp_filesz h < bp_memsz h" for p m
    using that b(1) by simp
  show ?thesis using seg_loaded_fill [OF b(1) z(1) b(3) s1(2) refl] False s1(1)
    by (auto simp: load_segment_def e Let_def g)
qed

text \<open>The program headers of the file, and the order in which a loader can read their segments.\<close>

definition file_phoff :: "(nat \<Rightarrow> u8) \<Rightarrow> nat" where
  "file_phoff f = unat (load32 (header_mem f) (boot_elf + 28))"

definition file_phnum :: "(nat \<Rightarrow> u8) \<Rightarrow> nat" where
  "file_phnum f = unat (load16 (header_mem f) (boot_elf + 44))"

definition file_ph :: "(nat \<Rightarrow> u8) \<Rightarrow> nat \<Rightarrow> bootph" where
  "file_ph f i = bootph_at (header_mem f) (boot_elf + of_nat (file_phoff f + 32 * i))"

definition increasing_segs :: "(nat \<Rightarrow> bootph) \<Rightarrow> nat \<Rightarrow> bool" where
  "increasing_segs seg n \<longleftrightarrow>
     (\<forall>j<n. seg_ok (seg j) \<and> (seg_still (seg j) \<or> (\<forall>i<j. seg_end (seg i) \<le> seg_first (seg j))))"

lemma seg_loaded_frame:
  assumes l: "seg_loaded f h m" and m: "\<forall>a. unat a < e \<longrightarrow> m' a = m a" and e: "seg_end h \<le> e" "seg_ok h"
  shows "seg_loaded f h m'"
  unfolding seg_loaded_def
proof (intro allI impI)
  fix k
  assume k: "k < unat (bp_memsz h)"
  then have "\<not> seg_still h" by (auto simp: seg_still_def)
  then have "unat (bp_paddr h + of_nat k) = unat (bp_paddr h) + k"
    using e k by (simp add: seg_ok_def seg_end_def unat_word_ariths unat_of_nat)
  then show "m' (bp_paddr h + of_nat k) = seg_byte f h k" using l m e k by (simp add: seg_loaded_def seg_end_def)
qed

lemma bootmain_loop_loads:
  assumes r: "gets_ready status" and d: "lba_drive drive sector" and f: "holds_file sector f"
    and n: "file_phoff f + 32 * n \<le> 4096" and o: "increasing_segs (file_ph f) n"
  shows "header_in f (bmem s) \<Longrightarrow> i \<le> n \<Longrightarrow> \<forall>j<i. seg_loaded f (file_ph f j) (bmem s) \<Longrightarrow>
    \<exists>s'. bootmain_loop status drive (boot_elf + of_nat (file_phoff f + 32 * i)) (boot_elf + of_nat (file_phoff f + 32 * n)) s = Some s' \<and>
      header_in f (bmem s') \<and> (\<forall>j<n. seg_loaded f (file_ph f j) (bmem s')) \<and> (\<forall>a. unat a < 0x11000 \<longrightarrow> bmem s' a = bmem s a)"
proof (induction "n - i" arbitrary: i s)
  case 0
  then show ?case by (auto simp: bootmain_loop.simps)
next
  case (Suc k)
  let ?a = "\<lambda>i. boot_elf + of_nat (file_phoff f + 32 * i)" and ?h = "file_ph f i"
  have i: "i < n" "file_phoff f + 32 * i + 32 \<le> 4096" using Suc.hyps(2) n by simp_all
  have u: "unat (?a i) = 0x10000 + (file_phoff f + 32 * i)" if "i \<le> n" for i
    using that n by (simp add: boot_elf_def unat_word_ariths unat_of_nat)
  have lt: "?a i < ?a n" using i u [of i] u [of n] by (simp add: word_less_nat_alt)
  have a: "?a i + of_nat sizeof_proghdr = ?a (i + 1)" by (simp add: sizeof_proghdr_def algebra_simps)
  have ok: "seg_ok ?h" "seg_still ?h \<or> (\<forall>j<i. seg_end (file_ph f j) \<le> seg_first ?h)" "\<forall>j<i. seg_ok (file_ph f j)"
    using o i unfolding increasing_segs_def by auto
  obtain s1 where s1: "load_segment status drive (?a i) s = Some s1" "seg_loaded f ?h (bmem s1)"
    "\<forall>a. seg_still ?h \<or> unat a < seg_first ?h \<longrightarrow> bmem s1 a = bmem s a"
    using load_segment_loads [OF r d f Suc.prems(1) i(2) _ ok(1)] by (auto simp: file_ph_def)
  have m: "\<forall>a. unat a < 0x11000 \<longrightarrow> bmem s1 a = bmem s a" using s1(3) ok(1) by (auto simp: seg_ok_def seg_first_def)
  have "seg_loaded f (file_ph f j) (bmem s1)" if "j < i" for j
    using seg_loaded_frame [of f "file_ph f j" "bmem s" "seg_first ?h" "bmem s1"] s1(3) ok that Suc.prems(3)
    by (cases "seg_still ?h") (auto simp: seg_loaded_def)
  then have "\<forall>j<i + 1. seg_loaded f (file_ph f j) (bmem s1)" using s1(2) by (auto simp: less_Suc_eq)
  moreover have "bootmain_loop status drive (?a i) (?a n) s = bootmain_loop status drive (?a (i + 1)) (?a n) s1"
    by (subst bootmain_loop.simps) (simp only: lt s1(1) a if_True bind.bind_lunit)
  moreover have "k = n - (i + 1)" "i + 1 \<le> n" using Suc.hyps(2) by simp_all
  ultimately obtain s2 where "bootmain_loop status drive (?a i) (?a n) s = Some s2" "header_in f (bmem s2)"
    "\<forall>j<n. seg_loaded f (file_ph f j) (bmem s2)" "\<forall>a. unat a < 0x11000 \<longrightarrow> bmem s2 a = bmem s1 a"
    using Suc.hyps(1) [of "i + 1" s1] header_in_frame [OF Suc.prems(1) m] by metis
  then show ?case using m by auto
qed

text \<open>C4: the boot loader loads the kernel. The disk holds an ELF file from sector 1 on and is ready again
  and again; the program headers lie in the first page of the file, each segment lies above the page
  that holds the headers, and its first sector does not begin below the end of the segments before it.
  Then \<open>bootmain\<close> ends and calls the entry point of the file; each segment is in memory with the bytes of
  the file followed by zeroes up to its size in memory, although reading whole sectors writes around each
  segment; and memory below the headers, where the loader itself is, has not changed.\<close>

theorem bootmain_loads_kernel:
  assumes r: "gets_ready status" and d: "lba_drive drive sector" and f: "holds_file sector f"
    and magic: "load32 (header_mem f) boot_elf = ELF_MAGIC"
    and n: "file_phoff f + 32 * file_phnum f \<le> 4096" and o: "increasing_segs (file_ph f) (file_phnum f)"
  shows "\<exists>s'. bootmain status drive s = Some (Some (load32 (header_mem f) (boot_elf + 24)), s') \<and>
    (\<forall>i<file_phnum f. \<forall>k<unat (bp_memsz (file_ph f i)).
       bmem s' (bp_paddr (file_ph f i) + of_nat k) =
         (if k < unat (bp_filesz (file_ph f i)) then f (unat (bp_off (file_ph f i)) + k) else 0)) \<and>
    (\<forall>a. unat a < 0x10000 \<longrightarrow> bmem s' a = bmem s a)"
proof -
  obtain s1 where s1: "readseg status drive boot_elf 4096 0 s = Some s1" "bmem s1 = with_file 0x10000 f 0 4096 (bmem s)"
    using readseg_reads [OF r d f, of 0 boot_elf 4096 s] by (auto simp: boot_elf_def sectors_for_def)
  have h: "header_in f (bmem s1)" by (simp add: header_in_def unat_elf s1(2) with_file_def)
  have l: "load32 (bmem s1) boot_elf = ELF_MAGIC" "load32 (bmem s1) (boot_elf + 28) = load32 (header_mem f) (boot_elf + 28)"
    "load16 (bmem s1) (boot_elf + 44) = load16 (header_mem f) (boot_elf + 44)"
    using header_load32 [OF h, of 0] header_load32 [OF h, of 28] header_in_mem [OF h, of 44] header_in_mem [OF h, of 45] magic
    by (simp_all add: load16_def ac_simps)
  have p: "boot_elf + load32 (header_mem f) (boot_elf + 28) = boot_elf + of_nat (file_phoff f + 32 * 0)"
    by (simp add: file_phoff_def)
  have q: "boot_elf + load32 (header_mem f) (boot_elf + 28) + ucast (load16 (header_mem f) (boot_elf + 44)) * of_nat sizeof_proghdr =
      boot_elf + of_nat (file_phoff f + 32 * file_phnum f)"
    by (simp add: file_phoff_def file_phnum_def sizeof_proghdr_def)
  obtain s2 where s2: "bootmain_loop status drive (boot_elf + of_nat (file_phoff f + 32 * 0)) (boot_elf + of_nat (file_phoff f + 32 * file_phnum f)) s1 = Some s2"
    "header_in f (bmem s2)" "\<forall>j<file_phnum f. seg_loaded f (file_ph f j) (bmem s2)" "\<forall>a. unat a < 0x11000 \<longrightarrow> bmem s2 a = bmem s1 a"
    using bootmain_loop_loads [OF r d f n o h, of 0] by auto
  have "load32 (bmem s2) (boot_elf + 24) = load32 (header_mem f) (boot_elf + 24)" using header_load32 [OF s2(2), of 24] by simp
  moreover have "bmem s2 a = bmem s a" if "unat a < 0x10000" for a using that s2(4) by (simp add: s1(2) with_file_def)
  ultimately show ?thesis using s1(1) l s2 unfolding seg_loaded_def seg_byte_def
    by (simp add: bootmain_def Let_def q) (simp add: p)
qed

text \<open>A file with two segments. The second lies in the sector that holds the end of the first.\<close>

definition demo_header :: bytes where
  "demo_header = [127,69,76,70,0,0,0,0,0,0,0,0,0,0,0,0,
    0,0,0,0,0,0,0,0,12,0,16,0,52,0,0,0,0,0,0,0,0,0,0,0,0,
    0,0,0,2,0,0,0,0,0,0,0,1,0,0,0,88,2,0,0,0,0,0,0,88,0,16,0,3,0,0,0,6,0,0,0,0,0,0,0,0,0,0,0,1,0,0,0,0,4,0,0,0,0,0,0,96,0,16,0,4,0,0,0,8,0,0,0,0,0,0,0,0,0,0,0]"

definition demo_file :: "nat \<Rightarrow> u8" where
  "demo_file n = (if n < 116 then demo_header ! n else of_nat (n mod 251))"

definition demo_sector :: "nat \<Rightarrow> bytes" where
  "demo_sector n = map demo_file [512 * (n - 1)..<512 * (n - 1) + 512]"

definition demo_drive :: "(u16 \<times> u8) list \<Rightarrow> bytes" where
  "demo_drive cs =
     (case drop (length cs - 6) cs of
        [_, (_, a), (_, b), (_, c), (_, d), _] \<Rightarrow> demo_sector (unat a + 256 * unat b + 65536 * unat c + 16777216 * (unat d mod 16))
      | _ \<Rightarrow> [])"

definition demo_boot :: boot where
  "demo_boot = \<lparr>bmem = (\<lambda>_. 0xAA), bcmds = [], bpolls = 0\<rparr>"

lemma demo_drive_ok: "lba_drive demo_drive demo_sector"
  by (simp add: lba_drive_def demo_drive_def)

lemma demo_sector_ok: "holds_file demo_sector demo_file"
  by (simp add: holds_file_def demo_sector_def)

lemmas demo_read = load32_def load16_def header_mem_def boot_elf_def demo_file_def demo_header_def u32_of_bytes_def u16_of_bytes_def

lemma demo_headers:
  "load32 (header_mem demo_file) boot_elf = ELF_MAGIC" "load32 (header_mem demo_file) (boot_elf + 24) = 0x10000C"
  "file_phoff demo_file = 52" "file_phnum demo_file = 2"
  by (simp_all add: demo_read file_phoff_def file_phnum_def ELF_MAGIC_def)

lemma demo_segs:
  "file_ph demo_file 0 = \<lparr>bp_off = 600, bp_paddr = 0x100058, bp_filesz = 3, bp_memsz = 6\<rparr>"
  "file_ph demo_file 1 = \<lparr>bp_off = 1024, bp_paddr = 0x100060, bp_filesz = 4, bp_memsz = 8\<rparr>"
  by (simp_all add: file_ph_def demo_headers bootph_at_def demo_read)

lemma demo_increasing: "increasing_segs (file_ph demo_file) (file_phnum demo_file)"
proof -
  have "seg_ok (file_ph demo_file 0)" "seg_ok (file_ph demo_file 1)" "seg_end (file_ph demo_file 0) \<le> seg_first (file_ph demo_file 1)"
    by (simp_all add: demo_segs seg_ok_def seg_end_def seg_first_def word_le_nat_alt del: One_nat_def)
  then show ?thesis by (auto simp: increasing_segs_def demo_headers less_Suc_eq numeral_2_eq_2)
qed

theorem bootmain_loads_kernel_witness:
  "\<exists>s'. bootmain (\<lambda>_. 0x40) demo_drive demo_boot = Some (Some 0x10000C, s') \<and>
     bmem s' 0x10005A = 100 \<and> bmem s' 0x10005B = 0 \<and> bmem s' 0x100060 = 20 \<and> bmem s' 0x7C00 = 0xAA"
proof -
  obtain s' where s': "bootmain (\<lambda>_. 0x40) demo_drive demo_boot = Some (Some 0x10000C, s')"
    "\<forall>i<2. \<forall>k<unat (bp_memsz (file_ph demo_file i)). bmem s' (bp_paddr (file_ph demo_file i) + of_nat k) =
       (if k < unat (bp_filesz (file_ph demo_file i)) then demo_file (unat (bp_off (file_ph demo_file i)) + k) else 0)"
    "\<forall>a. unat a < 0x10000 \<longrightarrow> bmem s' a = bmem demo_boot a"
    using bootmain_loads_kernel [where status = "\<lambda>_. 0x40" and s = demo_boot, OF _ demo_drive_ok demo_sector_ok demo_headers(1) _ demo_increasing]
    by (auto simp: gets_ready_def demo_headers)
  have "bmem s' 0x10005A = demo_file 602" using spec [OF spec [OF s'(2), of 0, simplified], of 2] by (simp add: demo_segs)
  moreover have "bmem s' 0x10005B = 0" using spec [OF spec [OF s'(2), of 0, simplified], of 3] by (simp add: demo_segs)
  moreover have "bmem s' 0x100060 = demo_file 1024"
    using spec [OF spec [OF s'(2), of 1, simplified], of 0] by (simp add: demo_segs [simplified])
  moreover have "bmem s' 0x7C00 = 0xAA" using s'(3) by (simp add: demo_boot_def)
  ultimately show ?thesis using s'(1) by (simp add: demo_file_def)
qed

end
