(* ===== verification/Stdlib.thy ===== *)
theory Stdlib
  imports Xv6_Prelude "HOL-Library.Multiset"
begin

text \<open>
  Routines of the C library (\<open>lib/stdlib\<close>): conversion of strings to integers, binary search and heap sort.
  A C string is the list of its bytes before the terminating NUL, and \<open>chr s i\<close> reads it; characters have the
  classes of the default locale. The arrays that are searched and sorted are lists of their
  elements; the comparison function of the caller is an argument.
\<close>

section \<open>Characters\<close>

definition chr :: "bytes \<Rightarrow> nat \<Rightarrow> u8" where
  "chr s i = (if i < length s then s ! i else 0)"

definition isspace :: "u8 \<Rightarrow> bool" where "isspace c \<longleftrightarrow> c = 32 \<or> 9 \<le> c \<and> c \<le> 13"
definition isdigit :: "u8 \<Rightarrow> bool" where "isdigit c \<longleftrightarrow> 48 \<le> c \<and> c \<le> 57"
definition isupper :: "u8 \<Rightarrow> bool" where "isupper c \<longleftrightarrow> 65 \<le> c \<and> c \<le> 90"
definition islower :: "u8 \<Rightarrow> bool" where "islower c \<longleftrightarrow> 97 \<le> c \<and> c \<le> 122"
definition isalpha :: "u8 \<Rightarrow> bool" where "isalpha c \<longleftrightarrow> isupper c \<or> islower c"

lemma chr_nonzero: "chr s i \<noteq> 0 \<Longrightarrow> i < length s"
  by (auto simp: chr_def split: if_splits)

section \<open>Strings to integers\<close>

definition LONG_MAX :: u32 where "LONG_MAX = 0x7FFFFFFF"
definition LONG_MIN :: u32 where "LONG_MIN = 0x80000000"
definition ULONG_MAX :: u32 where "ULONG_MAX = 0xFFFFFFFF"

datatype errno = ERANGE

text \<open>The position of the first character that is not white space.\<close>

function skip_space :: "bytes \<Rightarrow> nat \<Rightarrow> nat" where
  "skip_space s i = (if isspace (chr s i) then skip_space s (i + 1) else i)"
  by auto
termination
  by (relation "measure (\<lambda>(s, i). length s - i)") (auto simp: chr_def isspace_def split: if_splits)

text \<open>Sign and prefix: whether a minus sign was found, the base, and the position of the first digit.\<close>

definition strto_prefix :: "bytes \<Rightarrow> int \<Rightarrow> bool \<times> int \<times> nat" where
  "strto_prefix s base =
     (let i = skip_space s 0;
          (neg, i) = (if chr s i = 45 then (True, i + 1) else if chr s i = 43 then (False, i + 1) else (False, i));
          (base, i) =
            (if (base = 0 \<or> base = 16) \<and> chr s i = 48 \<and> (chr s (i + 1) = 120 \<or> chr s (i + 1) = 88)
             then (16, i + 2) else (base, i));
          base = (if base = 0 then if chr s i = 48 then 8 else 10 else base)
      in (neg, base, i))"

definition digit_value :: "u8 \<Rightarrow> int option" where
  "digit_value c =
     (if isdigit c then Some (uint c - 48)
      else if isalpha c then Some (uint c - (if isupper c then 55 else 87))
      else None)"

text \<open>The loop over the digits, shared by \<open>strtol\<close> and \<open>strtoul\<close>: the value, \<open>any\<close> and the position behind.\<close>

function strto_loop :: "bytes \<Rightarrow> int \<Rightarrow> u32 \<Rightarrow> int \<Rightarrow> nat \<Rightarrow> u32 \<Rightarrow> int \<Rightarrow> u32 \<times> int \<times> nat" where
  "strto_loop s base cutoff cutlim i acc any =
     (case digit_value (chr s i) of
        None \<Rightarrow> (acc, any, i)
      | Some c \<Rightarrow>
          if c \<ge> base then (acc, any, i)
          else if any < 0 \<or> acc > cutoff \<or> acc = cutoff \<and> c > cutlim
          then strto_loop s base cutoff cutlim (i + 1) acc (- 1)
          else strto_loop s base cutoff cutlim (i + 1) (acc * of_int base + of_int c) 1)"
  by pat_completeness auto
termination
  by (relation "measure (\<lambda>(s, _, _, _, i, _, _). length s - i)")
    (auto simp: digit_value_def isdigit_def isalpha_def isupper_def islower_def chr_def split: if_splits)

declare skip_space.simps [simp del] strto_loop.simps [simp del]

text \<open>The results are the value, the position stored through \<open>endptr\<close> and the error number that is set.\<close>

definition strtol :: "bytes \<Rightarrow> int \<Rightarrow> u32 \<times> nat \<times> errno option" where
  "strtol s base0 =
     (let (neg, base, i) = strto_prefix s base0;
          cutoff = (if neg then - LONG_MIN else LONG_MAX);
          cutlim = uint (cutoff mod of_int base);
          cutoff = cutoff div of_int base;
          (acc, any, i) = strto_loop s base cutoff cutlim i 0 0;
          (acc, err) =
            (if any < 0 then (if neg then LONG_MIN else LONG_MAX, Some ERANGE)
             else if neg then (- acc, None) else (acc, None))
      in (acc, if any \<noteq> 0 then i else 0, err))"

definition strtoul :: "bytes \<Rightarrow> int \<Rightarrow> u32 \<times> nat \<times> errno option" where
  "strtoul s base0 =
     (let (neg, base, i) = strto_prefix s base0;
          cutoff = ULONG_MAX div of_int base;
          cutlim = uint (ULONG_MAX mod of_int base);
          (acc, any, i) = strto_loop s base cutoff cutlim i 0 0;
          (acc, err) = (if any < 0 then (ULONG_MAX, Some ERANGE) else if neg then (- acc, None) else (acc, None))
      in (acc, if any \<noteq> 0 then i else 0, err))"

section \<open>Binary search\<close>

text \<open>\<open>lim\<close> is the number of elements left, \<open>base\<close> the index of the first of them.\<close>

function bsearch_loop :: "('k \<Rightarrow> 'a \<Rightarrow> int) \<Rightarrow> 'k \<Rightarrow> 'a list \<Rightarrow> nat \<Rightarrow> nat \<Rightarrow> nat option" where
  "bsearch_loop compar key xs base lim =
     (if lim \<noteq> 0
      then
        let p = base + lim div 2; cmp = compar key (xs ! p) in
        if cmp = 0 then Some p
        else if cmp > 0 then bsearch_loop compar key xs (p + 1) ((lim - 1) div 2)
        else bsearch_loop compar key xs base (lim div 2)
      else None)"
  by auto
termination by (relation "measure (\<lambda>(_, _, _, _, lim). lim)") auto

declare bsearch_loop.simps [simp del]

definition bsearch :: "('k \<Rightarrow> 'a \<Rightarrow> int) \<Rightarrow> 'k \<Rightarrow> 'a list \<Rightarrow> nat option" where
  "bsearch compar key xs = bsearch_loop compar key xs 0 (length xs)"

section \<open>Heap sort\<close>

definition SWAP :: "nat \<Rightarrow> nat \<Rightarrow> 'a list \<Rightarrow> 'a list" where
  "SWAP i j xs = xs[i := xs ! j, j := xs ! i]"

text \<open>The macro \<open>HEAP\<close>. The code numbers the items from 1, the list from 0: item \<open>i\<close> is at \<open>k = i - 1\<close>, and its
  children \<open>2 * i\<close> and \<open>2 * i + 1\<close> at \<open>2 * k + 1\<close> and \<open>2 * k + 2\<close>.\<close>

function HEAP :: "('a \<Rightarrow> 'a \<Rightarrow> int) \<Rightarrow> nat \<Rightarrow> nat \<Rightarrow> 'a list \<Rightarrow> 'a list" where
  "HEAP compar nmemb k xs =
     (let j = 2 * k + 1 in
      if j < nmemb
      then
        let j = (if j + 1 < nmemb \<and> compar (xs ! j) (xs ! (j + 1)) < 0 then j + 1 else j) in
        if compar (xs ! j) (xs ! k) \<le> 0 then xs else HEAP compar nmemb j (SWAP k j xs)
      else xs)"
  by auto
termination by (relation "measure (\<lambda>(_, n, k, _). n - k)") (auto split: if_splits)

declare HEAP.simps [simp del]

fun heapsort_loop :: "('a \<Rightarrow> 'a \<Rightarrow> int) \<Rightarrow> nat \<Rightarrow> 'a list \<Rightarrow> 'a list" where
  "heapsort_loop compar (Suc (Suc n)) xs = heapsort_loop compar (Suc n) (HEAP compar (Suc n) 0 (SWAP 0 (Suc n) xs))"
| "heapsort_loop compar _ xs = xs"

definition heapsort :: "('a \<Rightarrow> 'a \<Rightarrow> int) \<Rightarrow> nat \<Rightarrow> 'a list \<Rightarrow> int \<times> 'a list" where
  "heapsort compar sz xs =
     (let nmemb = length xs in
      if nmemb \<le> 1 then (0, xs)
      else if sz = 0 then (- 1, xs)
      else
        let xs = fold (\<lambda>l xs. HEAP compar nmemb (l - 1) xs) (rev [1..<nmemb div 2 + 1]) xs
        in (0, heapsort_loop compar nmemb xs))"

section \<open>The value of a numeral\<close>

text \<open>The values of the digits from a position on, and the number they denote.\<close>

function digits_at :: "bytes \<Rightarrow> int \<Rightarrow> nat \<Rightarrow> int list" where
  "digits_at s b i = (case digit_value (chr s i) of None \<Rightarrow> [] | Some c \<Rightarrow> if c < b then c # digits_at s b (i + 1) else [])"
  by auto
termination
  by (relation "measure (\<lambda>(s, _, i). length s - i)")
    (auto simp: digit_value_def isdigit_def isalpha_def isupper_def islower_def chr_def split: if_splits)

declare digits_at.simps [simp del]

definition horner :: "int \<Rightarrow> int \<Rightarrow> int list \<Rightarrow> int" where
  "horner b a ds = foldl (\<lambda>a d. a * b + d) a ds"

lemma horner_simps [simp]: "horner b a [] = a" "horner b a (d # ds) = horner b (a * b + d) ds"
  by (simp_all add: horner_def)

lemma digit_value_nonneg: "digit_value c = Some d \<Longrightarrow> 0 \<le> d"
  by (auto simp: digit_value_def isdigit_def isalpha_def isupper_def islower_def word_le_def split: if_splits)

lemma digits_at_nonneg: "\<forall>d\<in>set (digits_at s b i). 0 \<le> d"
proof (induction s b i rule: digits_at.induct)
  case (1 s b i)
  show ?case
  proof (cases "digit_value (chr s i)")
    case (Some c)
    then show ?thesis using 1 digit_value_nonneg [OF Some] by (auto simp: digits_at.simps [of _ _ i])
  qed (simp add: digits_at.simps)
qed

lemma horner_ge: "1 \<le> b \<Longrightarrow> 0 \<le> a \<Longrightarrow> \<forall>d\<in>set ds. 0 \<le> d \<Longrightarrow> a \<le> horner b a ds"
proof (induction ds arbitrary: a)
  case (Cons d ds)
  have "a \<le> a * b" using Cons.prems mult_left_mono [of 1 b a] by simp
  then show ?case using Cons.IH [of "a * b + d"] Cons.prems by simp
qed simp

text \<open>The test for overflow.\<close>

lemma cutoff_test:
  fixes a b c M :: int
  assumes "0 < b" "0 \<le> c" "c < b"
  shows "M div b < a \<or> a = M div b \<and> M mod b < c \<longleftrightarrow> M < a * b + c"
proof -
  have M: "M = b * (M div b) + M mod b" "0 \<le> M mod b" "M mod b < b" using assms by simp_all
  consider "M div b + 1 \<le> a" | "a = M div b" | "a + 1 \<le> M div b" by linarith
  then show ?thesis
  proof cases
    case 1
    then have "b * (M div b + 1) \<le> b * a" using assms(1) by (simp only: mult_le_cancel_left_pos)
    then have "M < a * b + c" using M assms(2) unfolding distrib_left mult_1_right mult.commute [of a] by linarith
    then show ?thesis using 1 by linarith
  next
    case 3
    then have "b * (a + 1) \<le> b * (M div b)" using assms(1) by (simp only: mult_le_cancel_left_pos)
    then have "\<not> M < a * b + c" using M assms(3) unfolding distrib_left mult_1_right mult.commute [of a] by linarith
    then show ?thesis using 3 by linarith
  next
    case 2
    then have "a * b = b * (M div b)" by simp
    then show ?thesis using M(1) 2 by linarith
  qed
qed

lemma digits_at_Nil: "digits_at s b i = [] \<Longrightarrow> strto_loop s b co cl i acc any = (acc, any, i)"
  by (subst strto_loop.simps) (auto simp: digits_at.simps [of s b i] split: option.splits if_splits)

lemma digits_at_Cons:
  assumes "digits_at s b i = c # ds"
  shows "digit_value (chr s i) = Some c" "c < b" "digits_at s b (i + 1) = ds"
    "strto_loop s b co cl i acc any =
       (if any < 0 \<or> acc > co \<or> acc = co \<and> c > cl then strto_loop s b co cl (i + 1) acc (- 1)
        else strto_loop s b co cl (i + 1) (acc * of_int b + of_int c) 1)"
proof -
  show d: "digit_value (chr s i) = Some c" "c < b" "digits_at s b (i + 1) = ds"
    using assms by (auto simp: digits_at.simps [of s b i] split: option.splits if_splits)
  show "strto_loop s b co cl i acc any =
       (if any < 0 \<or> acc > co \<or> acc = co \<and> c > cl then strto_loop s b co cl (i + 1) acc (- 1)
        else strto_loop s b co cl (i + 1) (acc * of_int b + of_int c) 1)"
    by (subst strto_loop.simps) (use d in simp)
qed

lemma strto_loop_over:
  "any < 0 \<Longrightarrow> \<exists>acc'. strto_loop s b co cl i acc any = (acc', if digits_at s b i = [] then any else - 1, i + length (digits_at s b i))"
proof (induction "digits_at s b i" arbitrary: i any)
  case Nil
  then show ?case using digits_at_Nil [OF Nil.hyps [symmetric]] by simp
next
  case (Cons c ds)
  note c = digits_at_Cons [OF Cons.hyps(2) [symmetric]]
  show ?case using Cons.hyps(1) [OF c(3) [symmetric], of "- 1"] Cons.prems unfolding c(4) c(3) Cons.hyps(2) [symmetric] by auto
qed

lemma strto_loop_value:
  assumes M: "0 \<le> M" "M < 2 ^ 32" "co = of_int (M div b)" "cl = M mod b" and b: "1 \<le> b" "b < 2 ^ 31"
  shows "0 \<le> any \<Longrightarrow> 0 \<le> a \<Longrightarrow> a \<le> M \<Longrightarrow>
    \<exists>acc. strto_loop s b co cl i (of_int a) any =
        (acc, if digits_at s b i = [] then any else if horner b a (digits_at s b i) \<le> M then 1 else - 1, i + length (digits_at s b i)) \<and>
      (horner b a (digits_at s b i) \<le> M \<longrightarrow> acc = of_int (horner b a (digits_at s b i)))"
proof (induction "digits_at s b i" arbitrary: i a any)
  case Nil
  then show ?case using digits_at_Nil [OF Nil.hyps [symmetric]] by simp
next
  case (Cons c ds)
  note d = digits_at_Cons [OF Cons.hyps(2) [symmetric]]
  have c: "0 \<le> c" "\<forall>d\<in>set ds. 0 \<le> d" using digit_value_nonneg [OF d(1)] digits_at_nonneg [of s b "i + 1"] d(3) by auto
  have "M div b \<le> M" "0 \<le> M div b" using M(1) b(1) zdiv_mono2 [of M 1 b] by (simp_all add: pos_imp_zdiv_nonneg_iff)
  then have u: "uint (of_int a :: u32) = a" "uint co = M div b"
    using Cons.prems M by (simp_all add: uint_word_of_int take_bit_eq_mod)
  have t: "of_int a > co \<or> of_int a = co \<and> c > cl \<longleftrightarrow> M < a * b + c"
    using cutoff_test [of b c M a] b c d(2) u M(4) by (simp add: word_less_def word_uint_eq_iff)
  show ?case
  proof (cases "M < a * b + c")
    case True
    then have "M < horner b (a * b + c) ds" using horner_ge [OF b(1), of "a * b + c" ds] c Cons.prems b(1) by simp
    moreover obtain acc where "strto_loop s b co cl (i + 1) (of_int a) (- 1) = (acc, - 1, i + 1 + length ds)"
      using strto_loop_over [of "- 1" s b co cl "i + 1" "of_int a"] d(3) by auto
    ultimately show ?thesis using True t unfolding d(4) Cons.hyps(2) [symmetric] by simp
  next
    case False
    have "0 \<le> a * b + c" using c Cons.prems b(1) by simp
    then show ?thesis using Cons.hyps(1) [OF d(3) [symmetric], of 1 "a * b + c"] False t Cons.prems
      unfolding d(3,4) Cons.hyps(2) [symmetric] by (auto split: if_splits)
  qed
qed

text \<open>C38: \<open>strtol\<close> computes the number that is written. Let the base, given or taken from the prefix, be at least 1
  and below \<open>2 ^ 31\<close>; then the result is the number that the digits after the prefix denote, with its sign, cut
  off at the ends of the range of a long integer; the error is reported exactly when it was cut off; and the end
  pointer is behind the last digit, or at the start of the string if there is none.\<close>

theorem strtol_value:
  assumes p: "strto_prefix s base0 = (neg, b, i)" and b: "1 \<le> b" "b < 2 ^ 31"
    and v: "v = (if neg then - horner b 0 (digits_at s b i) else horner b 0 (digits_at s b i))"
  shows "\<exists>r. strtol s base0 =
      (r, if digits_at s b i = [] then 0 else i + length (digits_at s b i), if - (2 ^ 31) \<le> v \<and> v < 2 ^ 31 then None else Some ERANGE) \<and>
    sint r = max (- (2 ^ 31)) (min (2 ^ 31 - 1) v)"
proof -
  let ?ds = "digits_at s b i" and ?M = "if neg then 2 ^ 31 else 2 ^ 31 - 1 :: int" and ?h = "horner b 0 (digits_at s b i)"
  have h: "0 \<le> ?h" using horner_ge [OF b(1) _ digits_at_nonneg] by simp
  have m: "(if neg then - LONG_MIN else LONG_MAX) = of_int ?M" by (simp add: LONG_MIN_def LONG_MAX_def)
  have ub: "uint (of_int b :: u32) = b" "uint (of_int ?M :: u32) = ?M" using b by (simp_all add: uint_word_of_int take_bit_eq_mod)
  have q: "(of_int ?M :: u32) div of_int b = of_int (?M div b)" "uint ((of_int ?M :: u32) mod of_int b) = ?M mod b"
    using ub by (simp_all only: word_div_def uint_mod)
  have L: "\<exists>acc. strto_loop s b (of_int (?M div b)) (?M mod b) i (of_int 0) 0 =
        (acc, if ?ds = [] then 0 else if ?h \<le> ?M then 1 else - 1, i + length ?ds) \<and> (?h \<le> ?M \<longrightarrow> acc = of_int ?h)"
    by (rule strto_loop_value [OF _ _ refl refl b]) simp_all
  then obtain acc where a: "strto_loop s b (of_int (?M div b)) (?M mod b) i 0 0 =
        (acc, if ?ds = [] then 0 else if ?h \<le> ?M then 1 else - 1, i + length ?ds)" "?h \<le> ?M \<longrightarrow> acc = of_int ?h"
    by (auto simp only: of_int_0)
  have e: "?ds = [] \<Longrightarrow> ?h = 0" by simp
  have sm: "sint (of_int x :: u32) = x" if "- (2 ^ 31) \<le> x" "x < 2 ^ 31" for x
    using that by (intro sint_word_of_int_eq) simp_all
  have "strtol s base0 = (if ?ds \<noteq> [] \<and> \<not> ?h \<le> ?M then if neg then LONG_MIN else LONG_MAX else of_int v,
      if ?ds = [] then 0 else i + length ?ds, if ?ds \<noteq> [] \<and> \<not> ?h \<le> ?M then Some ERANGE else None)"
    unfolding strtol_def p Let_def split m q a(1) using a(2) e by (auto simp: v)
  then show ?thesis using h e sm [of v] sm [of "- (2 ^ 31)"] by (auto simp: v LONG_MIN_def LONG_MAX_def split: if_splits)
qed

lemma strtoul_value:
  assumes p: "strto_prefix s base0 = (neg, b, i)" and b: "1 \<le> b" "b < 2 ^ 31" and h: "h = horner b 0 (digits_at s b i)"
  shows "strtoul s base0 =
    (if h < 2 ^ 32 then if neg then of_int (- h) else of_int h else ULONG_MAX,
     if digits_at s b i = [] then 0 else i + length (digits_at s b i), if h < 2 ^ 32 then None else Some ERANGE)"
proof -
  let ?ds = "digits_at s b i" and ?M = "2 ^ 32 - 1 :: int"
  have m: "ULONG_MAX = of_int ?M" by (simp add: ULONG_MAX_def)
  have ub: "uint (of_int b :: u32) = b" "uint (of_int ?M :: u32) = ?M" using b by (simp_all add: uint_word_of_int take_bit_eq_mod)
  have q: "(of_int ?M :: u32) div of_int b = of_int (?M div b)" "uint ((of_int ?M :: u32) mod of_int b) = ?M mod b"
    using ub by (simp_all only: word_div_def uint_mod)
  have "\<exists>acc. strto_loop s b (of_int (?M div b)) (?M mod b) i (of_int 0) 0 =
        (acc, if ?ds = [] then 0 else if h \<le> ?M then 1 else - 1, i + length ?ds) \<and> (h \<le> ?M \<longrightarrow> acc = of_int h)"
    unfolding h by (rule strto_loop_value [OF _ _ refl refl b]) simp_all
  then obtain acc where a: "strto_loop s b (of_int (?M div b)) (?M mod b) i 0 0 =
        (acc, if ?ds = [] then 0 else if h \<le> ?M then 1 else - 1, i + length ?ds)" "h \<le> ?M \<longrightarrow> acc = of_int h"
    by (auto simp only: of_int_0)
  have e: "?ds = [] \<Longrightarrow> h = 0" by (simp add: h)
  show ?thesis unfolding strtoul_def p Let_def split m q a(1) using a(2) e by auto
qed

text \<open>The string \<open>" -0x80000001;"\<close>.\<close>

definition demo_numeral :: bytes where
  "demo_numeral = [32, 45, 48, 120, 56, 48, 48, 48, 48, 48, 48, 49, 59]"

lemma demo_numeral_prefix: "strto_prefix demo_numeral 0 = (True, 16, 4)"
  by code_simp

lemma demo_numeral_digits: "digits_at demo_numeral 16 4 = [8, 0, 0, 0, 0, 0, 0, 1]"
  by code_simp

theorem strtol_value_witness:
  "\<exists>r. strtol demo_numeral 0 = (r, 12, Some ERANGE) \<and> sint r = - (2 ^ 31)"
  using strtol_value [OF demo_numeral_prefix _ _ refl] by (simp add: demo_numeral_digits)

section \<open>Searching\<close>

text \<open>The array is sorted as the key sees it: first the elements below the key, then those equal to it, then those
  above it.\<close>

definition sorted_for :: "('k \<Rightarrow> 'a \<Rightarrow> int) \<Rightarrow> 'k \<Rightarrow> 'a list \<Rightarrow> bool" where
  "sorted_for compar key xs \<longleftrightarrow>
     (\<forall>j<length xs. \<forall>i<j. (compar key (xs ! j) > 0 \<longrightarrow> compar key (xs ! i) > 0) \<and> (compar key (xs ! i) < 0 \<longrightarrow> compar key (xs ! j) < 0))"

definition found_in :: "('k \<Rightarrow> 'a \<Rightarrow> int) \<Rightarrow> 'k \<Rightarrow> 'a list \<Rightarrow> nat \<Rightarrow> nat \<Rightarrow> nat option \<Rightarrow> bool" where
  "found_in compar key xs a b r \<longleftrightarrow>
     (case r of
        Some p \<Rightarrow> a \<le> p \<and> p < b \<and> compar key (xs ! p) = 0
      | None \<Rightarrow> \<forall>i. a \<le> i \<and> i < b \<longrightarrow> compar key (xs ! i) \<noteq> 0)"

lemma found_in_widen:
  assumes "found_in compar key xs a b r" "a' \<le> a" "b \<le> b'" "\<forall>i. a' \<le> i \<and> i < a \<or> b \<le> i \<and> i < b' \<longrightarrow> compar key (xs ! i) \<noteq> 0"
  shows "found_in compar key xs a' b' r"
  using assms unfolding found_in_def by (cases r) (simp_all, meson not_le)

lemma bsearch_loop_finds:
  assumes s: "sorted_for compar key xs"
  shows "base + lim \<le> length xs \<Longrightarrow> found_in compar key xs base (base + lim) (bsearch_loop compar key xs base lim)"
proof (induction lim arbitrary: base rule: less_induct)
  case (less lim)
  let ?p = "base + lim div 2" and ?l = "bsearch_loop compar key xs"
  let ?c = "compar key (xs ! ?p)"
  consider "lim = 0" | "0 < lim" "?c = 0" | "0 < lim" "?c > 0" | "0 < lim" "?c < 0" by linarith
  then show ?case
  proof cases
    case 3
    have l: "?p < length xs" "(lim - 1) div 2 < lim" "?p + 1 + (lim - 1) div 2 = base + lim" using 3(1) less.prems by presburger+
    have f: "compar key (xs ! i) \<noteq> 0" if "i < ?p + 1" for i
      using s l(1) that 3(2) unfolding sorted_for_def by (metis less_Suc_eq Suc_eq_plus1 order_less_irrefl)
    have "found_in compar key xs (?p + 1) (base + lim) (?l (?p + 1) ((lim - 1) div 2))"
      using less.IH [OF l(2), of "?p + 1"] less.prems unfolding l(3) by blast
    then have "found_in compar key xs base (base + lim) (?l (?p + 1) ((lim - 1) div 2))"
      by (rule found_in_widen) (use f in auto)
    then show ?thesis using 3 by (subst bsearch_loop.simps) (simp add: Let_def)
  next
    case 4
    have f: "compar key (xs ! i) \<noteq> 0" if "?p \<le> i" "i < base + lim" for i
      using s that 4(2) less.prems unfolding sorted_for_def by (metis le_neq_implies_less less_le_trans order_less_irrefl)
    have "found_in compar key xs base ?p (?l base (lim div 2))" using less.IH [of "lim div 2" base] less.prems 4(1) by simp
    then have "found_in compar key xs base (base + lim) (?l base (lim div 2))"
      by (rule found_in_widen) (use f in auto)
    then show ?thesis using 4 by (subst bsearch_loop.simps) (simp add: Let_def)
  qed (subst bsearch_loop.simps, simp add: found_in_def Let_def)+
qed

text \<open>C39: \<open>bsearch\<close> finds. In an array that is sorted as the key sees it, it returns the position of an element that
  compares equal to the key if there is one, and nothing if there is none.\<close>

theorem bsearch_finds:
  assumes "sorted_for compar key xs"
  shows "case bsearch compar key xs of
    Some p \<Rightarrow> p < length xs \<and> compar key (xs ! p) = 0
  | None \<Rightarrow> \<forall>x\<in>set xs. compar key x \<noteq> 0"
  using bsearch_loop_finds [OF assms, of 0 "length xs"]
  by (auto simp: bsearch_def found_in_def in_set_conv_nth split: option.splits)

theorem bsearch_finds_witness:
  "sorted_for (\<lambda>k x. k - x) 5 [1, 3, 5, 9 :: int] \<and> bsearch (\<lambda>k x. k - x) 5 [1, 3, 5, 9 :: int] \<noteq> None"
proof -
  have s: "sorted_for (\<lambda>k x. k - x) 5 [1, 3, 5, 9 :: int]"
    by (auto simp: sorted_for_def less_Suc_eq numeral_eq_Suc)
  show ?thesis using bsearch_finds [OF s] s by (auto split: option.splits)
qed

section \<open>Sorting\<close>

text \<open>A comparison function that orders: it is antisymmetric in its sign, and transitive.\<close>

definition compares :: "('a \<Rightarrow> 'a \<Rightarrow> int) \<Rightarrow> bool" where
  "compares compar \<longleftrightarrow>
     (\<forall>x y. compar x y < 0 \<longleftrightarrow> compar y x > 0) \<and> (\<forall>x y z. compar x y \<le> 0 \<longrightarrow> compar y z \<le> 0 \<longrightarrow> compar x z \<le> 0)"

lemma compares_total: "compares compar \<Longrightarrow> \<not> compar x y \<le> 0 \<Longrightarrow> compar y x \<le> 0"
  unfolding compares_def by (meson not_le order.strict_implies_order)

lemma compares_trans: "compares compar \<Longrightarrow> compar x y \<le> 0 \<Longrightarrow> compar y z \<le> 0 \<Longrightarrow> compar x z \<le> 0"
  unfolding compares_def by blast

text \<open>Every element from \<open>l\<close> on is at least as large as its children among the first \<open>n\<close> elements; the children of \<open>k\<close>
  need only be bounded by the parent of \<open>k\<close>.\<close>

definition parent :: "nat \<Rightarrow> nat" where
  "parent c = (c - 1) div 2"

definition heap :: "('a \<Rightarrow> 'a \<Rightarrow> int) \<Rightarrow> nat \<Rightarrow> nat \<Rightarrow> 'a list \<Rightarrow> bool" where
  "heap compar l n xs \<longleftrightarrow> (\<forall>c<n. 0 < c \<longrightarrow> l \<le> parent c \<longrightarrow> compar (xs ! c) (xs ! parent c) \<le> 0)"

definition heap_but :: "('a \<Rightarrow> 'a \<Rightarrow> int) \<Rightarrow> nat \<Rightarrow> nat \<Rightarrow> nat \<Rightarrow> 'a list \<Rightarrow> bool" where
  "heap_but compar l n k xs \<longleftrightarrow>
     (\<forall>c<n. 0 < c \<longrightarrow> l \<le> parent c \<longrightarrow>
        (if parent c = k then 0 < k \<longrightarrow> l \<le> parent k \<longrightarrow> compar (xs ! c) (xs ! parent k) \<le> 0
         else compar (xs ! c) (xs ! parent c) \<le> 0))"

lemma parent_iff: "0 < c \<Longrightarrow> parent c = k \<longleftrightarrow> c = 2 * k + 1 \<or> c = 2 * k + 2"
  unfolding parent_def by presburger

lemma SWAP_nth:
  "i < length xs \<Longrightarrow> j < length xs \<Longrightarrow> SWAP i j xs ! m = (if m = i then xs ! j else if m = j then xs ! i else xs ! m)"
  by (auto simp: SWAP_def nth_list_update)

lemma SWAP_mset [simp]: "i < length xs \<Longrightarrow> j < length xs \<Longrightarrow> mset (SWAP i j xs) = mset xs"
  using mset_swap [of j xs i] by (simp add: SWAP_def list_update_swap)

lemma SWAP_length [simp]: "length (SWAP i j xs) = length xs"
  by (simp add: SWAP_def)

lemma heap_but_swap:
  assumes o: "compares compar" and h: "heap_but compar l n k xs" and n: "n \<le> length xs" and k: "l \<le> k"
    and j: "j < n" "0 < j" "parent j = k"
    and max: "\<And>c. c < n \<Longrightarrow> 0 < c \<Longrightarrow> parent c = k \<Longrightarrow> compar (xs ! c) (xs ! j) \<le> 0" and g: "\<not> compar (xs ! j) (xs ! k) \<le> 0"
  shows "heap_but compar l n j (SWAP k j xs)"
  unfolding heap_but_def
proof (intro allI impI)
  fix c
  assume c: "c < n" "0 < c" "l \<le> parent c"
  have kj: "k < j" "k < n" using j by (auto simp: parent_def)
  have nt: "SWAP k j xs ! m = (if m = k then xs ! j else if m = j then xs ! k else xs ! m)" for m
    using kj j n by (simp add: SWAP_nth)
  have pc: "parent c < c" using c by (auto simp: parent_def)
  note H = h [unfolded heap_but_def, rule_format, OF c]
  show "if parent c = j then 0 < j \<longrightarrow> l \<le> parent j \<longrightarrow> compar (SWAP k j xs ! c) (SWAP k j xs ! parent j) \<le> 0
        else compar (SWAP k j xs ! c) (SWAP k j xs ! parent c) \<le> 0"
  proof (cases "parent c = j")
    case True
    then show ?thesis using H kj pc j by (auto simp: nt split: if_splits)
  next
    case False
    show ?thesis
    proof (cases "parent c = k")
      case True
      then show ?thesis using max [OF c(1,2)] compares_total [OF o g] kj pc by (auto simp: nt)
    next
      case np: False
      then show ?thesis using False H kj pc h [unfolded heap_but_def, rule_format, OF j(1,2)] j k c by (auto simp: nt split: if_splits)
    qed
  qed
qed

lemma heap_but_done:
  assumes "heap_but compar l n k xs" "\<forall>c<n. 0 < c \<longrightarrow> parent c = k \<longrightarrow> compar (xs ! c) (xs ! k) \<le> 0"
  shows "heap compar l n xs"
  using assms unfolding heap_def heap_but_def by metis

text \<open>Sifting down restores the heap and only exchanges elements below \<open>n\<close>.\<close>

lemma HEAP_heap:
  assumes o: "compares compar"
  shows "heap_but compar l n k xs \<Longrightarrow> n \<le> length xs \<Longrightarrow> l \<le> k \<Longrightarrow>
    heap compar l n (HEAP compar n k xs) \<and> mset (HEAP compar n k xs) = mset xs \<and> drop n (HEAP compar n k xs) = drop n xs"
proof (induction "n - k" arbitrary: k xs rule: less_induct)
  case less
  let ?j0 = "2 * k + 1"
  define j where "j = (if ?j0 + 1 < n \<and> compar (xs ! ?j0) (xs ! (?j0 + 1)) < 0 then ?j0 + 1 else ?j0)"
  have H: "HEAP compar n k xs =
      (if ?j0 < n then if compar (xs ! j) (xs ! k) \<le> 0 then xs else HEAP compar n j (SWAP k j xs) else xs)"
    by (subst HEAP.simps) (simp add: Let_def j_def)
  show ?case
  proof (cases "?j0 < n")
    case False
    have "heap compar l n xs" by (rule heap_but_done [OF less.prems(1)]) (use False in \<open>auto simp: parent_iff\<close>)
    then show ?thesis using False H by simp
  next
    case True
    have j: "j < n" "0 < j" "parent j = k" "k < j" using True by (auto simp: j_def parent_iff)
    have max: "compar (xs ! c) (xs ! j) \<le> 0" if "c < n" "0 < c" "parent c = k" for c
      using that compares_total [OF o, of "xs ! (2 * k + 2)" "xs ! ?j0"] compares_total [OF o, of "xs ! c" "xs ! c"] o
      by (auto simp: j_def parent_iff compares_def)
    show ?thesis
    proof (cases "compar (xs ! j) (xs ! k) \<le> 0")
      case le: True
      have "heap compar l n xs" by (rule heap_but_done [OF less.prems(1)]) (use max compares_trans [OF o _ le] in blast)
      then show ?thesis using H True le by simp
    next
      case False
      have s: "heap_but compar l n j (SWAP k j xs)"
        by (rule heap_but_swap [OF o less.prems j(1-3) max False])
      have "drop n (SWAP k j xs) = drop n xs" using j by (simp add: SWAP_def)
      moreover have "mset (SWAP k j xs) = mset xs" using j less.prems(2) by simp
      ultimately show ?thesis using less.hyps [OF _ s] j less.prems H True False by auto
    qed
  qed
qed

lemma heap_top: "compares compar \<Longrightarrow> heap compar 0 n xs \<Longrightarrow> i < n \<Longrightarrow> compar (xs ! i) (xs ! 0) \<le> 0"
proof (induction i rule: less_induct)
  case (less i)
  show ?case
  proof (cases "i = 0")
    case True
    then show ?thesis using compares_total [OF less.prems(1), of "xs ! 0" "xs ! 0"] by blast
  next
    case False
    then have "parent i < i" by (auto simp: parent_def)
    then show ?thesis using less False by (auto simp: heap_def intro: compares_trans)
  qed
qed

lemma build_heap:
  assumes o: "compares compar"
  shows "m \<le> n div 2 \<Longrightarrow> heap compar m n xs \<Longrightarrow> n \<le> length xs \<Longrightarrow>
    heap compar 0 n (fold (\<lambda>l xs. HEAP compar n (l - 1) xs) (rev [1..<m + 1]) xs) \<and>
    mset (fold (\<lambda>l xs. HEAP compar n (l - 1) xs) (rev [1..<m + 1]) xs) = mset xs"
proof (induction m arbitrary: xs)
  case (Suc m)
  have "heap_but compar m n m xs"
    using Suc.prems(2) unfolding heap_def heap_but_def by (auto simp: parent_def)
  note h = HEAP_heap [OF o this Suc.prems(3) order_refl]
  have "length (HEAP compar n m xs) = length xs" using h mset_eq_length by blast
  then show ?case using Suc.IH [of "HEAP compar n m xs"] h Suc.prems by simp
qed simp

text \<open>The loop of \<open>heapsort\<close>: the first \<open>n\<close> elements are a heap, the others are sorted and at least as large.\<close>

definition split_sorted :: "('a \<Rightarrow> 'a \<Rightarrow> int) \<Rightarrow> nat \<Rightarrow> 'a list \<Rightarrow> bool" where
  "split_sorted compar n xs \<longleftrightarrow>
     sorted_wrt (\<lambda>x y. compar x y \<le> 0) (drop n xs) \<and> (\<forall>x\<in>set (take n xs). \<forall>y\<in>set (drop n xs). compar x y \<le> 0)"

lemma split_sorted_step:
  assumes o: "compares compar" and h: "heap compar 0 (Suc n) xs" and s: "split_sorted compar (Suc n) xs" and l: "Suc n \<le> length xs"
    and zs: "mset zs = mset (SWAP 0 n xs)" "drop n zs = drop n (SWAP 0 n xs)"
  shows "split_sorted compar n zs"
proof -
  let ?ys = "SWAP 0 n xs"
  have nt: "?ys ! m = (if m = 0 then xs ! n else if m = n then xs ! 0 else xs ! m)" for m
    by (rule SWAP_nth) (use l in auto)
  have d: "drop n ?ys = xs ! 0 # drop (Suc n) xs"
    using l by (simp add: Cons_nth_drop_Suc [symmetric] nt) (simp add: SWAP_def)
  have "mset (take n zs) = mset (take n ?ys)"
    using zs by (metis add_right_cancel append_take_drop_id mset_append)
  then have t: "set (take n zs) = set (take n ?ys)" by (metis set_mset_mset)
  have top: "compar x (xs ! 0) \<le> 0" if "x \<in> set (take (Suc n) xs)" for x
    using that heap_top [OF o h] l by (auto simp: in_set_conv_nth)
  have sub: "set (take n ?ys) \<subseteq> set (take (Suc n) xs)"
  proof
    fix x
    assume "x \<in> set (take n ?ys)"
    then obtain i where i: "i < n" "x = ?ys ! i" using l by (auto simp: in_set_conv_nth)
    then have "x = take (Suc n) xs ! (if i = 0 then n else i)" by (simp add: nt)
    then show "x \<in> set (take (Suc n) xs)" using i l by (metis (full_types) length_take less_SucI lessI min_absorb2 nth_mem)
  qed
  have "xs ! 0 \<in> set (take (Suc n) xs)" using l by (metis length_take min_absorb2 nth_mem nth_take zero_less_Suc)
  then show ?thesis using s top sub unfolding split_sorted_def zs(2) d t by auto
qed

lemma split_sorted_none: "split_sorted compar 0 xs \<Longrightarrow> sorted_wrt (\<lambda>x y. compar x y \<le> 0) xs"
  by (simp add: split_sorted_def)

lemma split_sorted_one: "split_sorted compar (Suc 0) xs \<Longrightarrow> sorted_wrt (\<lambda>x y. compar x y \<le> 0) xs"
  by (cases xs) (auto simp: split_sorted_def)

lemma heapsort_loop_sorts:
  "compares compar \<Longrightarrow> heap compar 0 n xs \<Longrightarrow> split_sorted compar n xs \<Longrightarrow> n \<le> length xs \<Longrightarrow>
    sorted_wrt (\<lambda>x y. compar x y \<le> 0) (heapsort_loop compar n xs) \<and> mset (heapsort_loop compar n xs) = mset xs"
proof (induction compar n xs rule: heapsort_loop.induct)
  case (1 compar n xs)
  let ?ys = "SWAP 0 (Suc n) xs"
  have nt: "?ys ! m = (if m = 0 then xs ! Suc n else if m = Suc n then xs ! 0 else xs ! m)" for m
    by (rule SWAP_nth) (use 1 in auto)
  have "heap_but compar 0 (Suc n) 0 ?ys"
    using 1(3) unfolding heap_def heap_but_def by (auto simp: nt parent_def)
  then have h: "heap compar 0 (Suc n) (HEAP compar (Suc n) 0 ?ys)" "mset (HEAP compar (Suc n) 0 ?ys) = mset ?ys"
    "drop (Suc n) (HEAP compar (Suc n) 0 ?ys) = drop (Suc n) ?ys"
    using HEAP_heap [OF 1(2), of 0 "Suc n" 0 ?ys] 1(5) by simp_all
  have "split_sorted compar (Suc n) (HEAP compar (Suc n) 0 ?ys)" by (rule split_sorted_step [OF 1(2-5) h(2,3)])
  moreover have "length (HEAP compar (Suc n) 0 ?ys) = length xs" using mset_eq_length [OF h(2)] by simp
  moreover have "mset ?ys = mset xs" by (rule SWAP_mset) (use 1(5) in auto)
  ultimately show ?case using 1(1) [OF 1(2) h(1)] h(2) 1(5) by simp
qed (simp_all add: split_sorted_one split_sorted_none)

text \<open>C37: \<open>heapsort\<close> sorts. For elements of at least one byte and a comparison function that orders them, it returns 0
  and leaves the elements of the array in an order in which none is larger than a later one.\<close>

theorem heapsort_sorts:
  assumes o: "compares compar" and z: "0 < sz"
  shows "\<exists>ys. heapsort compar sz xs = (0, ys) \<and> sorted_wrt (\<lambda>x y. compar x y \<le> 0) ys \<and> mset ys = mset xs"
proof (cases "length xs \<le> 1")
  case True
  then have "sorted_wrt (\<lambda>x y. compar x y \<le> 0) xs" by (cases xs) auto
  then show ?thesis using True by (simp add: heapsort_def)
next
  case False
  let ?n = "length xs"
  define ys where "ys = fold (\<lambda>l xs. HEAP compar ?n (l - 1) xs) (rev [1..<?n div 2 + 1]) xs"
  have "heap compar (?n div 2) ?n xs" by (auto simp: heap_def parent_def)
  then have h: "heap compar 0 ?n ys" "mset ys = mset xs" using build_heap [OF o order_refl, of ?n xs] unfolding ys_def by blast+
  have "split_sorted compar ?n ys" "?n \<le> length ys" using mset_eq_length [OF h(2)] by (simp_all add: split_sorted_def)
  then show ?thesis using heapsort_loop_sorts [OF o h(1)] h(2) False z by (simp add: heapsort_def Let_def ys_def)
qed

theorem heapsort_sorts_witness:
  "compares (\<lambda>x y. x - y) \<and> (\<exists>ys. heapsort (\<lambda>x y. x - y) 4 [3, 1, 2, 5 :: int] = (0, ys) \<and> sorted ys)"
proof -
  have o: "compares (\<lambda>x y :: int. x - y)" by (auto simp: compares_def)
  show ?thesis using heapsort_sorts [OF o, of 4 "[3, 1, 2, 5]"] o by auto
qed

end
