(* ===== verification/Spec2Isabelle.thy ===== *)
theory Spec2Isabelle
  imports Recovery Trap Fs_Names Vm_Props Proc_Inv Clock Ide Mkfs_Boot Irq Boot Stdlib
begin

text \<open>
  \<^bold>\<open>The xv6 kernel with a FreeBSD flavoured user land.\<close>

  The program is a small Unix for 32-bit PCs: a boot loader (\<open>boot/\<close>), a kernel (\<open>kern/\<close>, with its headers
  in \<open>include/xv6/\<close>), a tool that builds the file system image (\<open>tools/mkfs.c\<close>), and a user land of
  commands and a C library (\<open>cmd/\<close>, \<open>lib/\<close>). The development models the kernel, the boot loader, the
  image tool and a few routines of the library. Paths below are relative to \<open>src/\<close>.

  \<^bold>\<open>How code is modelled.\<close> A C function is a function of the state it works on. Its result is an
  \<open>outcome\<close> (theory \<open>Xv6_Prelude\<close>): it returns (\<open>Done\<close>), panics with a message (\<open>Panic\<close>), has to wait on a channel
  (\<open>Sleep\<close>) or runs forever (\<open>Diverge\<close>); outcomes are composed with \<open>obind\<close>. \<open>returns m P\<close> says that \<open>m\<close> returns and
  what it returns satisfies \<open>P\<close>; \<open>ensures m P\<close> only speaks of the case that it returns and is used for
  invariants. The states are records that extend each other in the order of the layers of the code:
  \<open>bio\<close> (buffer cache and disk), \<open>log_state\<close>, \<open>fs_state\<close>, \<open>kstate\<close> (whole kernel). Integers have the width
  they have in C; pointers into tables of the kernel are indices, with \<open>None\<close> for null, and pointers into
  pages are addresses in a memory of bytes. Disk blocks, directory entries, inodes and page tables are
  bytes, encoded as the code encodes them. A function that runs with a lock held is atomic; where the
  interleaving is the point (spin locks, pipes, processes, disk requests, a crash between two disk
  writes) it is a step relation or a sequence of writes. Devices are arguments: what a port
  delivers is a function of the number of the access, what is sent to it is kept in the state.

  \<^bold>\<open>Theories, from the bottom up.\<close>

  \<^item> \<open>Xv6_Prelude\<close>: C types, parameters (\<open>param.h\<close>), outcomes, byte arrays and encodings. \<open>Linked_Ring\<close>: circular
    doubly linked lists. \<open>Ring_Queue\<close>: circular buffers with free-running counters, with the locale
    \<open>bounded_queue\<close>, which \<open>Pipe\<close> and \<open>Console\<close> interpret.

  \<^item> \<open>Kstring\<close> (\<open>kern/string.c\<close>), \<open>Layout\<close> (\<open>mmu.h\<close>, \<open>memlayout.h\<close>), \<open>Spinlock\<close> (\<open>kern/spinlock.c\<close>), \<open>Kalloc\<close>
    (\<open>kern/kalloc.c\<close>, with the locale \<open>allocator\<close> interpreted on \<open>kalloc\<close> and \<open>kfree\<close>): copying with overlap, mutual
    exclusion for every interleaving of the CPUs, matched nesting of disabled interrupts, no page handed
    out twice.

  \<^item> \<open>Boot\<close> (\<open>boot/bootmain.c\<close>), \<open>Mp\<close> (\<open>kern/mp.c\<close>), \<open>Irq\<close> (\<open>kern/picirq.c\<close>, \<open>timer.c\<close>, \<open>ioapic.c\<close>, \<open>lapic.c\<close>), \<open>Clock\<close>
    (the clock in \<open>lapic.c\<close>), \<open>Kbd\<close> (\<open>kern/kbd.c\<close>), \<open>Console\<close> (\<open>kern/console.c\<close>, \<open>kern/uart.c\<close>), \<open>Ide\<close> (\<open>kern/ide.c\<close>): the
    kernel is loaded as its headers say; processors are counted; exactly the interrupts asked for are
    enabled; reading the clock ends, and its conversion is one day ahead; line editing; requests to the
    disk are served in order.

  \<^item> \<open>Bio\<close> (\<open>kern/bio.c\<close>, \<open>kern/memide.c\<close>), \<open>Log\<close> and \<open>Recovery\<close> (\<open>kern/log.c\<close>), \<open>Txn\<close> (what code in a transaction
    may rely on): the cache is coherent and recycles in order of use; a commit is durable, and atomic
    for a crash after any of its disk writes.

  \<^item> \<open>Fs_Block\<close>, \<open>Fs_Inode\<close>, \<open>Fs_Dir\<close>: the definitions of \<open>kern/fs.c\<close>. \<open>Fs_File\<close>, \<open>Fs_Data\<close>, \<open>Fs_Spec\<close>, \<open>Fs_Demo\<close>,
    \<open>Fs_Props\<close>, \<open>Fs_Names\<close>: the invariant of the file system, blocks belong to one file only, the contents of
    a file as a sequence of bytes, what reading, writing, allocating, looking up and taking paths apart do.

  \<^item> \<open>Mkfs\<close> (\<open>tools/mkfs.c\<close>), \<open>Mkfs_Spec\<close>, \<open>Mkfs_Table\<close>, \<open>Mkfs_Props\<close>, \<open>Mkfs_Boot\<close>: the image refines a table of
    files, the table is the directory of the host, and the kernel that starts on the image reads the
    files of the host.

  \<^item> \<open>Vm\<close>, \<open>Vm_Spec\<close>, \<open>Vm_Props\<close> (\<open>kern/vm.c\<close>): page tables refine maps from pages to entries; growing an
    address space maps exactly the new pages, cleared, and touches no other page.

  \<^item> \<open>Pipe\<close> (\<open>kern/pipe.c\<close>), \<open>Kstate\<close> (the state of the kernel and argument fetching of \<open>kern/syscall.c\<close>),
    \<open>Devices\<close> (device switch), \<open>File\<close> (\<open>kern/file.c\<close>), \<open>Exec\<close> (\<open>kern/exec.c\<close>), \<open>Proc\<close> (\<open>kern/proc.c\<close>), \<open>Sysfile\<close>
    (\<open>kern/sysfile.c\<close>), \<open>Trap\<close> (\<open>kern/sysproc.c\<close>, \<open>syscall.c\<close>, \<open>trap.c\<close>). \<open>Frames\<close>: what the file system layers leave
    alone. \<open>Proc_Props\<close>, \<open>Proc_Inv\<close>: fair scheduling, no lost wakeup, and the well-formedness of the
    process table under every sequence of operations.

  \<^item> \<open>Stdlib\<close> (\<open>lib/stdlib/strtol.c\<close>, \<open>strtoul.c\<close>, \<open>bsearch.c\<close>, \<open>heapsort.c\<close>): the value and the range errors of a
    numeral, what a search finds, and that sorting sorts, for every comparison function that orders.

  \<^bold>\<open>Loops.\<close> Most loops are structural. The loop over the ring of the buffer cache has fuel: the ring of \<open>NBUF\<close>
  buffers needs \<open>NBUF + 1\<close>, and running out is the outcome \<open>Diverge\<close>, which the properties of \<open>Bio\<close> exclude. Loops
  that depend on a device or on tables of the firmware are partial functions into \<open>option\<close>, whose value
  \<open>None\<close> means that they do not end; the properties prove that they return, under a stated assumption on
  the device (\<open>gets_ready\<close> for the boot disk, registers that stand still for the clock).

  \<^bold>\<open>Parameters.\<close> The device switch and the values of uninitialised variables are arguments of the functions
  that use them. The boot disk and the directory of the host are arguments, with \<open>lba_drive\<close> and
  \<open>holds_file\<close> as the hypotheses that say what the disk delivers.

  \<^bold>\<open>Not modelled.\<close>

  \<^item> Assembly (\<open>kern/*.S\<close>, \<open>boot/bootasm.S\<close>) and the formats of descriptor tables (\<open>seginit\<close>, the part of
    \<open>switchuvm\<close> that fills the task state, \<open>tvinit\<close>, \<open>idtinit\<close>): they consist of machine state that no C code reads.
    A function that hands over the CPU is split where it calls \<open>swtch\<close>.

  \<^item> \<open>kern/main.c\<close>: the order of the initialisation calls and the code that other processors run; its callees are
    modelled one by one.

  \<^item> Wakeups of processes that wait for buffers, inodes and the log are not entered in the process table by the
    models of \<open>bio.c\<close>, \<open>fs.c\<close> and \<open>log.c\<close>: these layers do not know the process table. Messages on the
    console by the kernel and by \<open>mkfs\<close> are left out, as are directories of the host that are symbolic links.

  \<^item> The rest of the C library and the commands (\<open>lib/\<close>, \<open>cmd/\<close>), the largest part of the source by lines. They come
    from FreeBSD 1.0 and other systems, run above the system calls modelled here, and depend on the
    compiler's data layout and on each other through buffered input and output.
\<close>

end
